(* ===== verification/Prelude.thy ===== *)
theory Prelude
  imports Main "HOL-Library.Word"
begin

unbundle bit_operations_syntax

text \<open>
  Shared vocabulary of the development: machine integers, the result type of code that can
  crash (a failed \<open>KASSERT\<close>, a \<open>panic\<close>, an access outside an array, a null pointer, a loop that
  does not end), checked array accesses, error numbers, and the page constants of the
  MIPS port. The lemmas are generic facts on lists, results and words that the component
  theories use; the collections \<open>res_simps\<close> and \<open>page_defs\<close> carry them.
\<close>

named_theorems res_simps \<open>unfolding of the result combinators\<close>
named_theorems page_defs \<open>the page size, masks and segment bases\<close>

section \<open>Types\<close>

type_synonym u8 = "8 word"
type_synonym u16 = "16 word"
type_synonym u32 = "32 word"
type_synonym u64 = "64 word"

text \<open>What stops the kernel instead of returning to the caller.\<close>

datatype fault = AssertFail | Panic | OutOfBounds | NullDeref | Diverge | DivZero

type_synonym 'a res = "fault + 'a"

section \<open>Results\<close>

definition rbind :: "'a res \<Rightarrow> ('a \<Rightarrow> 'b res) \<Rightarrow> 'b res" where
  "rbind m f = (case m of Inl e \<Rightarrow> Inl e | Inr x \<Rightarrow> f x)"

definition KASSERT :: "bool \<Rightarrow> 'a res \<Rightarrow> 'a res" where
  "KASSERT b k = (if b then k else Inl AssertFail)"

definition aget :: "'a list \<Rightarrow> nat \<Rightarrow> 'a res" where
  "aget xs i = (if i < length xs then Inr (xs ! i) else Inl OutOfBounds)"

definition aset :: "'a list \<Rightarrow> nat \<Rightarrow> 'a \<Rightarrow> 'a list res" where
  "aset xs i x = (if i < length xs then Inr (xs[i := x]) else Inl OutOfBounds)"

definition deref :: "('p \<rightharpoonup> 'a) \<Rightarrow> 'p \<Rightarrow> 'a res" where
  "deref h p = (case h p of None \<Rightarrow> Inl NullDeref | Some x \<Rightarrow> Inr x)"

lemma rbind_Inr [simp, res_simps]: "rbind (Inr x) f = f x"
  by (simp add: rbind_def)

lemma rbind_Inl [simp, res_simps]: "rbind (Inl e) f = Inl e"
  by (simp add: rbind_def)

lemma rbind_eq_Inr [res_simps]: "rbind m f = Inr y \<longleftrightarrow> (\<exists>x. m = Inr x \<and> f x = Inr y)"
  by (cases m) auto

lemma rbind_assoc: "rbind (rbind m f) g = rbind m (\<lambda>x. rbind (f x) g)"
  by (cases m) auto

lemma KASSERT_True [simp]: "KASSERT True k = k"
  by (simp add: KASSERT_def)

lemma KASSERT_False [simp]: "KASSERT False k = Inl AssertFail"
  by (simp add: KASSERT_def)

lemma KASSERT_eq_Inr [res_simps]: "KASSERT b k = Inr y \<longleftrightarrow> b \<and> k = Inr y"
  by (simp add: KASSERT_def)

lemma aget_eq_Inr [res_simps]: "aget xs i = Inr x \<longleftrightarrow> i < length xs \<and> x = xs ! i"
  by (auto simp: aget_def)

lemma aget_in [simp]: "i < length xs \<Longrightarrow> aget xs i = Inr (xs ! i)"
  by (simp add: aget_def)

lemma aget_out [simp]: "length xs \<le> i \<Longrightarrow> aget xs i = Inl OutOfBounds"
  by (simp add: aget_def)

lemma aset_eq_Inr [res_simps]: "aset xs i x = Inr ys \<longleftrightarrow> i < length xs \<and> ys = xs[i := x]"
  by (auto simp: aset_def)

lemma aset_in [simp]: "i < length xs \<Longrightarrow> aset xs i x = Inr (xs[i := x])"
  by (simp add: aset_def)

lemma aset_out [simp]: "length xs \<le> i \<Longrightarrow> aset xs i x = Inl OutOfBounds"
  by (simp add: aset_def)

lemma deref_Some [simp]: "h p = Some x \<Longrightarrow> deref h p = Inr x"
  by (simp add: deref_def)

lemma deref_None [simp]: "h p = None \<Longrightarrow> deref h p = Inl NullDeref"
  by (simp add: deref_def)

lemma deref_eq_Inr [res_simps]: "deref h p = Inr x \<longleftrightarrow> h p = Some x"
  by (simp add: deref_def split: option.splits)

text \<open>A \<open>for\<close> loop over a list of index values, stopped by the first fault.\<close>

fun rfold :: "('a \<Rightarrow> 's \<Rightarrow> 's res) \<Rightarrow> 'a list \<Rightarrow> 's \<Rightarrow> 's res" where
  "rfold f [] s = Inr s"
| "rfold f (x # xs) s = rbind (f x s) (rfold f xs)"

lemma rfold_append: "rfold f (xs @ ys) s = rbind (rfold f xs s) (rfold f ys)"
proof (induction xs arbitrary: s)
  case (Cons x xs)
  then show ?case by (cases "f x s") simp_all
qed simp

lemma rfold_inv:
  assumes "rfold f xs s = Inr t" "P s"
    and "\<And>x s s'. x \<in> set xs \<Longrightarrow> P s \<Longrightarrow> f x s = Inr s' \<Longrightarrow> P s'"
  shows "P t"
  using assms by (induction xs arbitrary: s) (auto simp: rbind_eq_Inr)

lemma rfold_total:
  assumes "\<And>x s. x \<in> set xs \<Longrightarrow> P s \<Longrightarrow> \<exists>s'. f x s = Inr s' \<and> P s'" "P s"
  shows "\<exists>s'. rfold f xs s = Inr s' \<and> P s'"
  using assms
proof (induction xs arbitrary: s)
  case (Cons x xs)
  obtain s1 where "f x s = Inr s1" "P s1" using Cons.prems(1) [of x s] Cons.prems(2) by auto
  then show ?case using Cons.IH [of s1] Cons.prems(1) by auto
qed auto

section \<open>Error numbers\<close>

text \<open>\<open>kern/include/kern/errno.h\<close>; a function that returns 0 or an error number returns an \<open>int\<close>.\<close>

abbreviation (input) EUNIMP :: int where "EUNIMP \<equiv> 2"
abbreviation (input) ENOMEM :: int where "ENOMEM \<equiv> 3"
abbreviation (input) EFAULT :: int where "EFAULT \<equiv> 6"
abbreviation (input) ENAMETOOLONG :: int where "ENAMETOOLONG \<equiv> 7"
abbreviation (input) EINVAL :: int where "EINVAL \<equiv> 8"
abbreviation (input) ENOEXEC :: int where "ENOEXEC \<equiv> 13"
abbreviation (input) ENOSPC :: int where "ENOSPC \<equiv> 36"

text \<open>\<open>DIVROUNDUP\<close> of \<open>kern/include/lib.h\<close>.\<close>

definition DIVROUNDUP :: "u32 \<Rightarrow> u32 \<Rightarrow> u32" where
  "DIVROUNDUP a b = (a + b - 1) div b"

section \<open>Pages and segments of the MIPS port\<close>

text \<open>\<open>kern/arch/mips/include/vm.h\<close>.\<close>

definition PAGE_SIZE :: u32 where [page_defs]: "PAGE_SIZE = 4096"
definition PAGE_FRAME :: u32 where [page_defs]: "PAGE_FRAME = 0xfffff000"
definition MIPS_KSEG0 :: u32 where [page_defs]: "MIPS_KSEG0 = 0x80000000"
definition USERSPACETOP :: u32 where [page_defs]: "USERSPACETOP = MIPS_KSEG0"
definition USERSTACK :: u32 where [page_defs]: "USERSTACK = USERSPACETOP"

definition PADDR_TO_KVADDR :: "u32 \<Rightarrow> u32" where
  "PADDR_TO_KVADDR paddr = paddr + MIPS_KSEG0"

lemma PADDR_TO_KVADDR_inj [simp]: "PADDR_TO_KVADDR a = PADDR_TO_KVADDR b \<longleftrightarrow> a = b"
  by (simp add: PADDR_TO_KVADDR_def)

lemma PAGE_FRAME_not_mask: "PAGE_FRAME = NOT (mask 12)"
  by (simp add: PAGE_FRAME_def mask_eq_exp_minus_1)

lemma and_PAGE_FRAME_idem [simp]: "(a AND PAGE_FRAME) AND PAGE_FRAME = a AND PAGE_FRAME"
  by (simp add: and.assoc)

lemma and_PAGE_FRAME_eq: "a AND PAGE_FRAME = push_bit 12 (drop_bit 12 a)"
  by (rule bit_word_eqI)
    (auto simp: PAGE_FRAME_not_mask bit_and_iff bit_not_iff bit_mask_iff bit_push_bit_iff
      bit_drop_bit_eq not_less)

lemma unat_and_PAGE_FRAME: "unat (a AND PAGE_FRAME) = unat a div 4096 * 4096"
proof -
  have "unat (a AND PAGE_FRAME) = take_bit 32 (push_bit 12 (drop_bit 12 (unat a)))"
    by (simp add: and_PAGE_FRAME_eq unsigned_push_bit_eq unat_drop_bit_eq)
  also have "\<dots> = unat a div 4096 * 4096"
  proof -
    have "unat a div 4096 * 4096 \<le> unat a" by simp
    also have "unat a < 2 ^ 32" using unsigned_less [of a, where 'a = nat] by simp
    finally show ?thesis
      by (simp add: push_bit_eq_mult drop_bit_eq_div take_bit_eq_mod)
  qed
  finally show ?thesis .
qed

lemma page_aligned_iff: "a AND PAGE_FRAME = a \<longleftrightarrow> unat a mod 4096 = 0"
proof -
  have "a AND PAGE_FRAME = a \<longleftrightarrow> unat a div 4096 * 4096 = unat a"
    by (metis unat_and_PAGE_FRAME word_unat_eq_iff)
  also have "\<dots> \<longleftrightarrow> unat a mod 4096 = 0"
    by (metis add.right_neutral add_left_cancel div_mult_mod_eq)
  finally show ?thesis .
qed

section \<open>Numbers and lists\<close>

lemma add_mod_inj_le:
  fixes i j l n :: nat
  assumes "i \<le> j" "j < n" "(l + i) mod n = (l + j) mod n"
  shows "i = j"
proof -
  have "n dvd (l + j) - (l + i)"
    using assms by (metis mod_eq_dvd_iff_nat nat_add_left_cancel_le)
  then show ?thesis using assms by (auto dest: dvd_imp_le)
qed

lemma add_mod_inj:
  fixes i j l n :: nat
  assumes "i < n" "j < n"
  shows "(l + i) mod n = (l + j) mod n \<longleftrightarrow> i = j"
  using assms add_mod_inj_le [of i j n l] add_mod_inj_le [of j i n l] by (cases "i \<le> j") auto

lemma multiples_apart:
  fixes a b n :: nat
  assumes "a mod n = 0" "b mod n = 0" "a < b"
  shows "a + n \<le> b"
proof -
  obtain k l where kl: "a = n * k" "b = n * l"
    using assms(1,2) unfolding mod_eq_0_iff_dvd dvd_def by blast
  then have "k < l" using assms(3) by simp
  then have "n * Suc k \<le> n * l" by (intro mult_le_mono) simp_all
  then show ?thesis using kl by simp
qed

lemma nth_map_upt [simp]: "i < n \<Longrightarrow> map f [0..<n] ! i = f i"
  by simp

lemma list_update_split:
  "i < length xs \<Longrightarrow> xs[i := x] = take i xs @ x # drop (Suc i) xs"
  by (simp add: upd_conv_take_nth_drop)

end
