(* ===== verification/Ram.thy ===== *)
theory Ram
  imports Prelude
begin

text \<open>
  Physical memory accounting, \<open>kern/arch/mips/vm/ram.c\<close>: one region of free physical memory
  between \<open>firstpaddr\<close> and \<open>lastpaddr\<close>, from which pages are stolen and never returned. All
  arithmetic is on 32-bit words, as in the source; \<open>mainbus_ramsize\<close> and the linker's
  \<open>firstfree\<close> are arguments. The console message of each operation is not modelled.
\<close>

record ram =
  firstpaddr :: u32
  lastpaddr :: u32

definition ram_bootstrap :: "u32 \<Rightarrow> u32 \<Rightarrow> ram" where
  "ram_bootstrap firstfree mainbus_ramsize =
     (let ramsize = (if mainbus_ramsize > 508 * 1024 * 1024 then 508 * 1024 * 1024
                     else mainbus_ramsize)
      in \<lparr>firstpaddr = firstfree - MIPS_KSEG0, lastpaddr = ramsize\<rparr>)"

definition ram_stealmem :: "u32 \<Rightarrow> ram \<Rightarrow> u32 \<times> ram" where
  "ram_stealmem npages r =
     (let size = npages * PAGE_SIZE
      in if firstpaddr r + size > lastpaddr r then (0, r)
         else (firstpaddr r, r\<lparr>firstpaddr := firstpaddr r + size\<rparr>))"

definition ram_getsize :: "ram \<Rightarrow> u32 \<times> u32 \<times> ram" where
  "ram_getsize r = (firstpaddr r, lastpaddr r, r\<lparr>firstpaddr := 0, lastpaddr := 0\<rparr>)"

text \<open>The bounds the machine gives: at most 508 megabytes, the first free page is aligned.\<close>

definition ram_wf :: "ram \<Rightarrow> bool" where
  "ram_wf r \<longleftrightarrow> unat (firstpaddr r) mod 4096 = 0 \<and> 0 < unat (firstpaddr r)
     \<and> unat (firstpaddr r) \<le> unat (lastpaddr r) \<and> unat (lastpaddr r) \<le> 508 * 1024 * 1024"

lemma unat_stolen_size:
  "unat n \<le> 2 ^ 19 \<Longrightarrow> unat (n * PAGE_SIZE) = unat n * 4096"
  by (simp add: unat_word_ariths PAGE_SIZE_def)

lemma unat_stolen_end:
  assumes "ram_wf r" "unat n \<le> 2 ^ 19"
  shows "unat (firstpaddr r + n * PAGE_SIZE) = unat (firstpaddr r) + unat n * 4096"
proof -
  have "unat (firstpaddr r) + unat n * 4096 < 2 ^ 32"
    using assms by (simp add: ram_wf_def)
  then show ?thesis
    using unat_stolen_size [OF assms(2)] by (simp add: unat_word_ariths)
qed

lemma ram_stealmem_cases:
  assumes "ram_wf r" "unat n \<le> 2 ^ 19"
  obtains (full) "ram_stealmem n r = (0, r)"
      "unat (lastpaddr r) < unat (firstpaddr r) + unat n * 4096"
    | (got) r' where "ram_stealmem n r = (firstpaddr r, r')" "lastpaddr r' = lastpaddr r"
      "unat (firstpaddr r') = unat (firstpaddr r) + unat n * 4096"
      "unat (firstpaddr r) + unat n * 4096 \<le> unat (lastpaddr r)"
proof (cases "firstpaddr r + n * PAGE_SIZE > lastpaddr r")
  case True
  then show ?thesis
    using unat_stolen_end [OF assms] by (intro full) (simp_all add: ram_stealmem_def word_less_nat_alt)
next
  case False
  then show ?thesis
    using unat_stolen_end [OF assms]
    by (intro got [of "r\<lparr>firstpaddr := firstpaddr r + n * PAGE_SIZE\<rparr>"])
      (simp_all add: ram_stealmem_def word_less_nat_alt)
qed

lemma ram_stealmem_wf:
  assumes "ram_wf r" "unat n \<le> 2 ^ 19"
  shows "ram_wf (snd (ram_stealmem n r))"
  using assms(1) by (cases rule: ram_stealmem_cases [OF assms]) (auto simp: ram_wf_def)

end
