(* ===== verification/Mem.thy ===== *)
theory Mem
  imports Prelude
begin

unbundle bit_operations_syntax

text \<open>
  Kernel memory as a map from addresses to bytes, with the big-endian word accesses of the
  machine (System/161 is big-endian). A page is moved between memory and a swap device byte
  by byte; \<open>bzero\<close> of a page clears each of its bytes.
\<close>

type_synonym mem = "u32 \<Rightarrow> u8"

definition load32 :: "mem \<Rightarrow> u32 \<Rightarrow> u32" where
  "load32 m a =
     push_bit 24 (ucast (m a)) OR push_bit 16 (ucast (m (a + 1)))
     OR push_bit 8 (ucast (m (a + 2))) OR ucast (m (a + 3))"

definition store32 :: "mem \<Rightarrow> u32 \<Rightarrow> u32 \<Rightarrow> mem" where
  "store32 m a v =
     m(a := ucast (drop_bit 24 v), a + 1 := ucast (drop_bit 16 v),
       a + 2 := ucast (drop_bit 8 v), a + 3 := ucast v)"

text \<open>The addresses of a block of \<open>n\<close> bytes at \<open>a\<close>; the block may not wrap around zero.\<close>

definition in_block :: "u32 \<Rightarrow> u32 \<Rightarrow> u32 \<Rightarrow> bool" where
  "in_block a n x \<longleftrightarrow> x - a < n"

definition copy_block :: "u32 \<Rightarrow> mem \<Rightarrow> u32 \<Rightarrow> mem \<Rightarrow> u32 \<Rightarrow> mem" where
  "copy_block dst mdst src msrc n =
     (\<lambda>x. if in_block dst n x then msrc (src + (x - dst)) else mdst x)"

definition zero_block :: "mem \<Rightarrow> u32 \<Rightarrow> u32 \<Rightarrow> mem" where
  "zero_block m a n = (\<lambda>x. if in_block a n x then 0 else m x)"

definition aligned4 :: "u32 \<Rightarrow> bool" where
  "aligned4 a \<longleftrightarrow> unat a mod 4 = 0"

lemma load32_cong:
  assumes "\<And>i. i < (4 :: nat) \<Longrightarrow> m (a + of_nat i) = m' (a + of_nat i)"
  shows "load32 m a = load32 m' a"
  using assms [of 0] assms [of 1] assms [of 2] assms [of 3] by (simp add: load32_def)

lemma load32_store32_same [simp]: "load32 (store32 m a v) a = v"
proof (rule bit_word_eqI)
  fix n
  assume "n < LENGTH(32)"
  then consider "n < 8" | "8 \<le> n" "n < 16" | "16 \<le> n" "n < 24" | "24 \<le> n" "n < 32"
    by fastforce
  then show "bit (load32 (store32 m a v) a) n = bit v n"
    by cases
      (auto simp: load32_def store32_def bit_or_iff bit_push_bit_iff bit_ucast_iff bit_drop_bit_eq)
qed

lemma unat_add_small:
  assumes "aligned4 a" "i < 4"
  shows "unat (a + of_nat i) = unat a + i"
proof -
  have "unat a < 2 ^ 32" using unsigned_less [of a, where 'a = nat] by simp
  moreover obtain q where "unat a = 4 * q"
    using assms(1) by (auto simp: aligned4_def elim: dvdE)
  ultimately have "unat a + i < 2 ^ 32" using assms(2) by simp
  then show ?thesis using assms(2) by (simp add: unat_word_ariths unat_of_nat)
qed

lemma aligned4_add_neq:
  assumes "aligned4 a" "aligned4 b" "a \<noteq> b" "i < 4" "j < 4"
  shows "a + of_nat i \<noteq> b + of_nat j"
proof
  assume "a + of_nat i = b + of_nat j"
  then have "unat a + i = unat b + j"
    using unat_add_small assms by metis
  moreover have "unat a mod 4 = 0" "unat b mod 4 = 0" using assms by (simp_all add: aligned4_def)
  ultimately have "unat a = unat b" using assms(4,5) by presburger
  then show False using assms(3) by (simp add: word_unat_eq_iff)
qed

lemma store32_outside:
  assumes "\<And>i. i < 4 \<Longrightarrow> x \<noteq> a + of_nat i"
  shows "store32 m a v x = m x"
  using assms [of 0] assms [of 1] assms [of 2] assms [of 3] by (simp add: store32_def)

lemma load32_store32_other [simp]:
  assumes "aligned4 a" "aligned4 b" "a \<noteq> b"
  shows "load32 (store32 m a v) b = load32 m b"
proof -
  have "store32 m a v (b + of_nat i) = m (b + of_nat i)" if "i < 4" for i
    using aligned4_add_neq [OF assms(2,1)] assms(3) that by (intro store32_outside) metis
  then show ?thesis by (rule load32_cong)
qed

lemma in_block_iff:
  assumes "unat a + unat n \<le> 2 ^ 32"
  shows "in_block a n x \<longleftrightarrow> unat a \<le> unat x \<and> unat x < unat a + unat n"
proof (cases "unat a \<le> unat x")
  case True
  then have "unat (x - a) = unat x - unat a" by (simp add: unat_sub word_le_nat_alt)
  then show ?thesis using True by (auto simp: in_block_def word_less_nat_alt)
next
  case False
  then have "unat (x - a) = 2 ^ 32 - unat a + unat x"
    using unsigned_less [of a, where 'a = nat]
    by (simp add: unat_sub_if_size word_size word_le_nat_alt)
  then show ?thesis using False assms by (auto simp: in_block_def word_less_nat_alt)
qed

lemma copy_block_inside: "in_block dst n x \<Longrightarrow> copy_block dst mdst src msrc n x = msrc (src + (x - dst))"
  by (simp add: copy_block_def)

lemma copy_block_outside: "\<not> in_block dst n x \<Longrightarrow> copy_block dst mdst src msrc n x = mdst x"
  by (simp add: copy_block_def)

end
