(* ===== verification/Kmalloc.thy ===== *)
theory Kmalloc
  imports Ram Mem
begin

unbundle bit_operations_syntax

text \<open>
  The kernel heap, \<open>kern/vm/kmalloc.c\<close>, and the page routines it calls, \<open>getppages\<close>,
  \<open>alloc_kpages\<close> and \<open>free_kpages\<close> of \<open>kern/vm/addrspace.c\<close>. A pointer to a \<open>pageref\<close> is the
  index of the structure in the static array \<open>pagerefs\<close> (\<open>None\<close> is NULL); a pointer to memory is a
  32-bit address (0 is NULL); the free list of a page lives in the first word of each free
  block, in the byte memory \<open>kmem\<close>. A walk along a linked list spends one unit of fuel per
  element and gives \<open>Diverge\<close> when the fuel (one more than the number of \<open>pageref\<close>s) is spent,
  which is what a cyclic list would make the code do. The spinlocks are not modelled:
  each call is one atomic step. The consistency checks under \<open>SLOW\<close> and \<open>SLOWER\<close> and the
  printing of statistics are off in the source and left out.
\<close>

section \<open>Data\<close>

definition NSIZES :: nat where "NSIZES = 8"

definition sizes :: "u32 list" where
  "sizes = [16, 32, 64, 128, 256, 512, 1024, 2048]"

definition LARGEST_SUBPAGE_SIZE :: u32 where "LARGEST_SUBPAGE_SIZE = 2048"

record pageref =
  next_samesize :: "nat option"
  next_all :: "nat option"
  pageaddr_and_blocktype :: u32
  freelist_offset :: u16
  nfree :: u16

definition INVALID_OFFSET :: u16 where "INVALID_OFFSET = 0xffff"

definition PR_PAGEADDR :: "pageref \<Rightarrow> u32" where
  "PR_PAGEADDR pr = pageaddr_and_blocktype pr AND PAGE_FRAME"

definition PR_BLOCKTYPE :: "pageref \<Rightarrow> u32" where
  "PR_BLOCKTYPE pr = pageaddr_and_blocktype pr AND NOT PAGE_FRAME"

definition MKPAB :: "u32 \<Rightarrow> u32 \<Rightarrow> u32" where
  "MKPAB pa blk = (pa AND PAGE_FRAME) OR (blk AND NOT PAGE_FRAME)"

definition NPAGEREFS :: nat where "NPAGEREFS = 256"
definition INUSE_WORDS :: nat where "INUSE_WORDS = 8"

record kheap =
  kram :: ram
  kmem :: mem
  pagerefs :: "pageref list"
  pagerefs_inuse :: "u32 list"
  sizebases :: "nat option list"
  allbase :: "nat option"

section \<open>Whole pages\<close>

definition getppages :: "u32 \<Rightarrow> kheap \<Rightarrow> u32 \<times> kheap" where
  "getppages npages kh =
     (let (addr, r) = ram_stealmem npages (kram kh) in (addr, kh\<lparr>kram := r\<rparr>))"

definition alloc_kpages :: "u32 \<Rightarrow> kheap \<Rightarrow> u32 \<times> kheap" where
  "alloc_kpages npages kh =
     (let (pa, kh) = getppages npages kh
      in if pa = 0 then (0, kh) else (PADDR_TO_KVADDR pa, kh))"

text \<open>Pages are leaked, not freed.\<close>

definition free_kpages :: "u32 \<Rightarrow> kheap \<Rightarrow> kheap" where
  "free_kpages addr kh = kh"

section \<open>The table of pagerefs\<close>

text \<open>The inner loop of \<open>allocpageref\<close>: \<open>k\<close> is a mask that is shifted until it falls out.\<close>

lemma push_bit_card_less:
  assumes "(k :: u32) \<noteq> 0"
  shows "card {n. n < 32 \<and> push_bit n (push_bit 1 k) \<noteq> 0} < card {n. n < 32 \<and> push_bit n k \<noteq> 0}"
proof -
  let ?A = "{n. n < 32 \<and> push_bit n (push_bit 1 k) \<noteq> 0}"
  let ?B = "{n. n < 32 \<and> push_bit n k \<noteq> 0}"
  have "Suc n \<in> ?B" if "n \<in> ?A" for n
  proof -
    have nz: "push_bit (Suc n) k \<noteq> 0" using that by (simp add: push_bit_push_bit)
    have "push_bit m k = 0" if "32 \<le> m" for m
      using that by (intro bit_word_eqI) (simp add: bit_push_bit_iff)
    with nz have "Suc n < 32" by (meson not_less)
    with nz show ?thesis by simp
  qed
  then have "Suc ` ?A \<subseteq> ?B - {0}" by auto
  moreover have "0 \<in> ?B" using assms by simp
  moreover have "finite ?B" by simp
  ultimately have "card (Suc ` ?A) < card ?B"
    by (meson card_Diff1_less card_mono finite_Diff le_less_trans)
  then show ?thesis by (simp add: card_image)
qed

function alloc_bit :: "u32 \<Rightarrow> u32 \<Rightarrow> nat \<Rightarrow> (u32 \<times> nat) option" where
  "alloc_bit w k j =
     (if k = 0 then None
      else if w AND k = 0 then Some (k, j)
      else alloc_bit w (push_bit 1 k) (Suc j))"
  by pat_completeness auto
termination
  by (relation "measure (\<lambda>(w, k, j). card {n. n < 32 \<and> push_bit n k \<noteq> 0})")
    (use push_bit_card_less in auto)

declare alloc_bit.simps [simp del]

function allocpageref_from :: "nat \<Rightarrow> kheap \<Rightarrow> (nat option \<times> kheap) res" where
  "allocpageref_from i kh =
     (if i < INUSE_WORDS
      then rbind (aget (pagerefs_inuse kh) i) (\<lambda>w.
        if w = 0xffffffff then allocpageref_from (Suc i) kh
        else case alloc_bit w 1 0 of
            Some (k, j) \<Rightarrow> Inr (Some (i * 32 + j),
              kh\<lparr>pagerefs_inuse := (pagerefs_inuse kh)[i := w OR k]\<rparr>)
          | None \<Rightarrow> Inl AssertFail)
      else Inr (None, kh))"
  by pat_completeness auto
termination
  by (relation "measure (\<lambda>(i, kh). INUSE_WORDS - i)") auto

declare allocpageref_from.simps [simp del]

definition allocpageref :: "kheap \<Rightarrow> (nat option \<times> kheap) res" where
  "allocpageref kh = allocpageref_from 0 kh"

definition freepageref :: "nat \<Rightarrow> kheap \<Rightarrow> kheap res" where
  "freepageref j kh =
     KASSERT (j < NPAGEREFS)
       (let i = j div 32; k = push_bit (j mod 32) 1
        in rbind (aget (pagerefs_inuse kh) i) (\<lambda>w.
          KASSERT (w AND k \<noteq> 0)
            (Inr (kh\<lparr>pagerefs_inuse := (pagerefs_inuse kh)[i := w AND NOT k]\<rparr>))))"

section \<open>The lists of pagerefs\<close>

text \<open>
  \<open>guy\<close> is the address of a link: a list head or the link field of an element. The two loops
  of \<open>remove_lists\<close> are the same walk over the two link fields.
\<close>

datatype link = Base | Link nat

definition get_same :: "nat \<Rightarrow> link \<Rightarrow> kheap \<Rightarrow> nat option res" where
  "get_same blk guy kh =
     (case guy of Base \<Rightarrow> aget (sizebases kh) blk
      | Link p \<Rightarrow> rbind (aget (pagerefs kh) p) (\<lambda>pr. Inr (next_samesize pr)))"

definition set_same :: "nat \<Rightarrow> link \<Rightarrow> nat option \<Rightarrow> kheap \<Rightarrow> kheap res" where
  "set_same blk guy v kh =
     (case guy of
        Base \<Rightarrow> rbind (aset (sizebases kh) blk v) (\<lambda>bs. Inr (kh\<lparr>sizebases := bs\<rparr>))
      | Link p \<Rightarrow> rbind (aget (pagerefs kh) p) (\<lambda>pr.
          Inr (kh\<lparr>pagerefs := (pagerefs kh)[p := pr\<lparr>next_samesize := v\<rparr>]\<rparr>)))"

definition get_all :: "link \<Rightarrow> kheap \<Rightarrow> nat option res" where
  "get_all guy kh =
     (case guy of Base \<Rightarrow> Inr (allbase kh)
      | Link p \<Rightarrow> rbind (aget (pagerefs kh) p) (\<lambda>pr. Inr (next_all pr)))"

definition set_all :: "link \<Rightarrow> nat option \<Rightarrow> kheap \<Rightarrow> kheap res" where
  "set_all guy v kh =
     (case guy of
        Base \<Rightarrow> Inr (kh\<lparr>allbase := v\<rparr>)
      | Link p \<Rightarrow> rbind (aget (pagerefs kh) p) (\<lambda>pr.
          Inr (kh\<lparr>pagerefs := (pagerefs kh)[p := pr\<lparr>next_all := v\<rparr>]\<rparr>)))"

fun remove_same :: "nat \<Rightarrow> nat \<Rightarrow> nat \<Rightarrow> link \<Rightarrow> kheap \<Rightarrow> kheap res" where
  "remove_same 0 blk pr guy kh = Inl Diverge"
| "remove_same (Suc fuel) blk pr guy kh =
     rbind (get_same blk guy kh) (\<lambda>cur.
       case cur of
         None \<Rightarrow> Inr kh
       | Some p \<Rightarrow>
           if p = pr then rbind (get_same blk (Link pr) kh) (\<lambda>nxt. set_same blk guy nxt kh)
           else remove_same fuel blk pr (Link p) kh)"

fun remove_all :: "nat \<Rightarrow> nat \<Rightarrow> link \<Rightarrow> kheap \<Rightarrow> kheap res" where
  "remove_all 0 pr guy kh = Inl Diverge"
| "remove_all (Suc fuel) pr guy kh =
     rbind (get_all guy kh) (\<lambda>cur.
       case cur of
         None \<Rightarrow> Inr kh
       | Some p \<Rightarrow>
           if p = pr then rbind (get_all (Link pr) kh) (\<lambda>nxt. set_all guy nxt kh)
           else remove_all fuel pr (Link p) kh)"

definition LIST_FUEL :: nat where "LIST_FUEL = Suc NPAGEREFS"

definition remove_lists :: "nat \<Rightarrow> nat \<Rightarrow> kheap \<Rightarrow> kheap res" where
  "remove_lists pr blktype kh =
     KASSERT (blktype < NSIZES)
       (rbind (remove_same LIST_FUEL blktype pr Base kh) (\<lambda>kh.
          remove_all LIST_FUEL pr Base kh))"

section \<open>Blocks smaller than a page\<close>

fun blocktype_from :: "nat \<Rightarrow> u32 list \<Rightarrow> u32 \<Rightarrow> nat res" where
  "blocktype_from i [] sz = Inl Panic"
| "blocktype_from i (s # ss) sz = (if sz \<le> s then Inr i else blocktype_from (Suc i) ss sz)"

definition blocktype :: "u32 \<Rightarrow> nat res" where
  "blocktype sz = blocktype_from 0 sizes sz"

fun fill_words :: "nat \<Rightarrow> u32 \<Rightarrow> mem \<Rightarrow> mem" where
  "fill_words 0 ptr m = m"
| "fill_words (Suc n) ptr m = fill_words n (ptr + 4) (store32 m ptr 0xdeadbeef)"

definition fill_deadbeef :: "u32 \<Rightarrow> u32 \<Rightarrow> mem \<Rightarrow> mem" where
  "fill_deadbeef vptr len m = fill_words (unat (len div 4)) vptr m"

text \<open>The code after the label \<open>doalloc\<close>: take the first block of the free list of page \<open>p\<close>.\<close>

definition doalloc :: "nat \<Rightarrow> kheap \<Rightarrow> (u32 \<times> kheap) res" where
  "doalloc p kh =
     rbind (aget (pagerefs kh) p) (\<lambda>pr.
       KASSERT (unat (freelist_offset pr) < unat PAGE_SIZE)
        (let prpage = PR_PAGEADDR pr;
             fla = prpage + ucast (freelist_offset pr);
             retptr = fla;
             fl = load32 (kmem kh) fla;
             pr = pr\<lparr>nfree := nfree pr - 1\<rparr>
         in if fl \<noteq> 0
            then KASSERT (nfree pr > 0)
                  (KASSERT (fl - prpage < PAGE_SIZE)
                    (Inr (retptr, kh\<lparr>pagerefs := (pagerefs kh)[p :=
                       pr\<lparr>freelist_offset := ucast (fl - prpage)\<rparr>]\<rparr>)))
            else KASSERT (nfree pr = 0)
                  (Inr (retptr, kh\<lparr>pagerefs := (pagerefs kh)[p :=
                     pr\<lparr>freelist_offset := INVALID_OFFSET\<rparr>]\<rparr>))))"

text \<open>The loop over the pages of one size: the first one with a free block.\<close>

fun find_samesize :: "nat \<Rightarrow> nat \<Rightarrow> nat option \<Rightarrow> kheap \<Rightarrow> nat option res" where
  "find_samesize 0 blktype pr kh = Inl Diverge"
| "find_samesize (Suc fuel) blktype pr kh =
     (case pr of
        None \<Rightarrow> Inr None
      | Some p \<Rightarrow> rbind (aget (pagerefs kh) p) (\<lambda>r.
          KASSERT (PR_BLOCKTYPE r = of_nat blktype)
            (if nfree r > 0 then Inr (Some p)
             else find_samesize fuel blktype (next_samesize r) kh)))"

text \<open>
  The loop that chains the blocks of a fresh page: block \<open>i\<close> points to block \<open>i - 1\<close>. It
  returns the last block written and the memory.
\<close>

fun chain_blocks :: "nat \<Rightarrow> nat \<Rightarrow> u32 \<Rightarrow> u32 \<Rightarrow> u32 \<Rightarrow> mem \<Rightarrow> (u32 \<times> mem) res" where
  "chain_blocks 0 i fla sz fl m = Inr (fl, m)"
| "chain_blocks (Suc n) i fla sz fl m =
     (let fl = fla + of_nat i * sz;
          nxt = fla + (of_nat i - 1) * sz;
          m = store32 m fl nxt
      in KASSERT (fl \<noteq> load32 m fl) (chain_blocks n (Suc i) fla sz fl m))"

definition newpage :: "nat \<Rightarrow> u32 \<Rightarrow> kheap \<Rightarrow> (nat option \<times> kheap) res" where
  "newpage blktype prpage kh =
     rbind (allocpageref kh) (\<lambda>(pr, kh).
       case pr of
         None \<Rightarrow> Inr (None, free_kpages prpage kh)
       | Some p \<Rightarrow>
         rbind (aget sizes blktype) (\<lambda>sz.
         rbind (aget (pagerefs kh) p) (\<lambda>r.
         let n = PAGE_SIZE div sz;
             r = r\<lparr>pageaddr_and_blocktype := MKPAB prpage (of_nat blktype), nfree := ucast n\<rparr>;
             fla = prpage;
             m = store32 (kmem kh) fla 0
         in rbind (chain_blocks (unat (nfree r) - 1) 1 fla sz fla m) (\<lambda>(fl, m).
            let r = r\<lparr>freelist_offset := ucast (fl - prpage)\<rparr>
            in KASSERT (ucast (freelist_offset r) = (ucast (nfree r) - 1) * sz)
              (rbind (aget (sizebases kh) blktype) (\<lambda>base.
                let r = r\<lparr>next_samesize := base, next_all := allbase kh\<rparr>
                in Inr (Some p,
                     kh\<lparr>kmem := m, pagerefs := (pagerefs kh)[p := r],
                        sizebases := (sizebases kh)[blktype := Some p],
                        allbase := Some p\<rparr>)))))))"

definition subpage_kmalloc :: "u32 \<Rightarrow> kheap \<Rightarrow> (u32 \<times> kheap) res" where
  "subpage_kmalloc sz kh =
     rbind (blocktype sz) (\<lambda>blktype.
     rbind (aget (sizebases kh) blktype) (\<lambda>base.
     rbind (find_samesize LIST_FUEL blktype base kh) (\<lambda>found.
       case found of
         Some p \<Rightarrow> doalloc p kh
       | None \<Rightarrow>
           let (prpage, kh) = alloc_kpages 1 kh
           in if prpage = 0 then Inr (0, kh)
              else rbind (newpage blktype prpage kh) (\<lambda>(pr, kh).
                case pr of None \<Rightarrow> Inr (0, kh) | Some p \<Rightarrow> doalloc p kh))))"

text \<open>The search of \<open>subpage_kfree\<close> for the page that holds the address.\<close>

fun find_page :: "nat \<Rightarrow> u32 \<Rightarrow> nat option \<Rightarrow> kheap \<Rightarrow> nat option res" where
  "find_page 0 ptraddr pr kh = Inl Diverge"
| "find_page (Suc fuel) ptraddr pr kh =
     (case pr of
        None \<Rightarrow> Inr None
      | Some p \<Rightarrow> rbind (aget (pagerefs kh) p) (\<lambda>r.
          KASSERT (PR_BLOCKTYPE r < of_nat NSIZES)
            (if ptraddr \<ge> PR_PAGEADDR r \<and> ptraddr < PR_PAGEADDR r + PAGE_SIZE then Inr (Some p)
             else find_page fuel ptraddr (next_all r) kh)))"

definition subpage_kfree :: "u32 \<Rightarrow> kheap \<Rightarrow> (int \<times> kheap) res" where
  "subpage_kfree ptraddr kh =
     rbind (find_page LIST_FUEL ptraddr (allbase kh) kh) (\<lambda>found.
       case found of
         None \<Rightarrow> Inr (-1, kh)
       | Some p \<Rightarrow>
         rbind (aget (pagerefs kh) p) (\<lambda>r.
         let prpage = PR_PAGEADDR r; blktype = unat (PR_BLOCKTYPE r)
         in rbind (aget sizes blktype) (\<lambda>sz.
         let offset = ptraddr - prpage
         in if offset \<ge> PAGE_SIZE \<or> offset mod sz \<noteq> 0 then Inl Panic
            else
              let m = fill_deadbeef ptraddr sz (kmem kh);
                  fla = prpage + offset;
                  m = (if freelist_offset r = INVALID_OFFSET then store32 m fla 0
                       else store32 m fla (prpage + ucast (freelist_offset r)));
                  r = r\<lparr>freelist_offset := ucast offset, nfree := nfree r + 1\<rparr>;
                  kh = kh\<lparr>kmem := m, pagerefs := (pagerefs kh)[p := r]\<rparr>
              in KASSERT (ucast (nfree r) \<le> PAGE_SIZE div sz)
                (if ucast (nfree r) = PAGE_SIZE div sz
                 then rbind (remove_lists p blktype kh) (\<lambda>kh.
                      rbind (freepageref p kh) (\<lambda>kh. Inr (0, free_kpages prpage kh)))
                 else Inr (0, kh)))))"

section \<open>The interface\<close>

definition kmalloc :: "u32 \<Rightarrow> kheap \<Rightarrow> (u32 \<times> kheap) res" where
  "kmalloc sz kh =
     (if sz \<ge> LARGEST_SUBPAGE_SIZE
      then let npages = (sz + PAGE_SIZE - 1) div PAGE_SIZE
           in Inr (alloc_kpages npages kh)
      else subpage_kmalloc sz kh)"

definition kfree :: "u32 \<Rightarrow> kheap \<Rightarrow> kheap res" where
  "kfree ptr kh =
     (if ptr = 0 then Inr kh
      else rbind (subpage_kfree ptr kh) (\<lambda>(failed, kh).
        if failed \<noteq> 0 then KASSERT (ptr mod PAGE_SIZE = 0) (Inr (free_kpages ptr kh))
        else Inr kh))"

section \<open>What an allocation may touch\<close>

text \<open>
  Whatever the state of its lists, \<open>kmalloc\<close> takes memory from the end of the stolen region
  only: it moves \<open>firstpaddr\<close> up and writes no byte below it.
\<close>

definition frontier :: "kheap \<Rightarrow> nat" where
  "frontier h = unat MIPS_KSEG0 + unat (firstpaddr (kram h))"

definition grows :: "kheap \<Rightarrow> kheap \<Rightarrow> bool" where
  "grows h h' \<longleftrightarrow> ram_wf (kram h') \<and> frontier h \<le> frontier h'
     \<and> lastpaddr (kram h') = lastpaddr (kram h)
     \<and> (\<forall>x. unat x < frontier h \<longrightarrow> kmem h' x = kmem h x)"

lemma grows_refl: "ram_wf (kram h) \<Longrightarrow> grows h h"
  by (simp add: grows_def)

lemma grows_trans: "grows h h' \<Longrightarrow> grows h' h'' \<Longrightarrow> grows h h''"
  by (auto simp: grows_def)

lemma grows_same_ram:
  assumes "grows h h'" "kram h'' = kram h'" "kmem h'' = kmem h'"
  shows "grows h h''"
  using assms by (simp add: grows_def frontier_def)

lemma unat_MIPS_KSEG0 [simp]: "unat MIPS_KSEG0 = 0x80000000"
  by (simp add: MIPS_KSEG0_def)

lemma unat_PADDR_TO_KVADDR:
  "unat p \<le> 508 * 1024 * 1024 \<Longrightarrow> unat (PADDR_TO_KVADDR p) = 0x80000000 + unat p"
  by (simp add: PADDR_TO_KVADDR_def unat_word_ariths)

lemma unat_PAGE_SIZE [simp]: "unat PAGE_SIZE = 4096"
  by (simp add: PAGE_SIZE_def)

text \<open>The two outcomes of \<open>alloc_kpages\<close>.\<close>

lemma alloc_kpages_cases:
  assumes "ram_wf (kram h)" "unat n \<le> 2 ^ 19"
  obtains (full) "alloc_kpages n h = (0, h)"
    | (got) a h' where "alloc_kpages n h = (a, h')" "a \<noteq> 0" "unat a = frontier h"
        "frontier h' = frontier h + unat n * 4096" "grows h h'"
        "frontier h' \<le> 0x80000000 + 508 * 1024 * 1024" "unat a mod 4096 = 0"
        "h' = h\<lparr>kram := kram h'\<rparr>"
proof (cases rule: ram_stealmem_cases [OF assms])
  case 1
  then have "alloc_kpages n h = (0, h)"
    by (simp add: alloc_kpages_def getppages_def)
  then show ?thesis by (rule full)
next
  case (2 r')
  let ?h = "h\<lparr>kram := r'\<rparr>"
  have fp: "firstpaddr (kram h) \<noteq> 0" "unat (firstpaddr (kram h)) \<le> 508 * 1024 * 1024"
    "unat (firstpaddr (kram h)) mod 4096 = 0"
    using assms(1) by (auto simp: ram_wf_def)
  have wf: "ram_wf r'" using ram_stealmem_wf [OF assms] 2 by simp
  have a: "unat (PADDR_TO_KVADDR (firstpaddr (kram h))) = frontier h"
    using fp by (simp add: unat_PADDR_TO_KVADDR frontier_def)
  show ?thesis
  proof (rule got)
    show "alloc_kpages n h = (PADDR_TO_KVADDR (firstpaddr (kram h)), ?h)"
      using 2 fp by (simp add: alloc_kpages_def getppages_def)
    show "PADDR_TO_KVADDR (firstpaddr (kram h)) \<noteq> 0"
      using a by (auto simp: frontier_def)
    show "unat (PADDR_TO_KVADDR (firstpaddr (kram h))) = frontier h" by (rule a)
    show "frontier ?h = frontier h + unat n * 4096" using 2 by (simp add: frontier_def)
    show "grows h ?h" using wf 2 by (simp add: grows_def frontier_def)
    show "frontier ?h \<le> 0x80000000 + 508 * 1024 * 1024"
      using 2 assms(1) by (simp add: frontier_def ram_wf_def)
    show "unat (PADDR_TO_KVADDR (firstpaddr (kram h))) mod 4096 = 0"
      using a fp(3) mod_mult_self3 [of 524288 4096 "unat (firstpaddr (kram h))"]
      by (simp add: frontier_def)
    show "?h = h\<lparr>kram := kram ?h\<rparr>" by simp
  qed
qed

lemma allocpageref_from_frame:
  "allocpageref_from i h = Inr (r, h') \<Longrightarrow> \<exists>u. h' = h\<lparr>pagerefs_inuse := u\<rparr>"
proof (induction i h rule: allocpageref_from.induct)
  case (1 i h)
  then show ?case
    by (subst (asm) (2) allocpageref_from.simps)
      (auto simp: res_simps split: if_splits option.splits prod.splits intro: exI [of _ "pagerefs_inuse h"])
qed

lemma doalloc_frame:
  "doalloc p h = Inr (q, h') \<Longrightarrow> kram h' = kram h \<and> kmem h' = kmem h"
  by (auto simp: doalloc_def Let_def res_simps split: if_splits)

lemma unat_block_offset:
  fixes fla sz :: u32
  assumes "unat fla + 4096 \<le> 2 ^ 32" "j * unat sz + d < 4096"
  shows "unat (fla + of_nat j * sz + of_nat d) = unat fla + j * unat sz + d"
proof -
  have "unat (of_nat j * sz) = j * unat sz"
  proof (cases "sz = 0")
    case False
    then have "1 \<le> unat sz" by (metis less_one not_le unat_eq_zero)
    then have "j \<le> j * unat sz" by simp
    then have "j < 4096" using assms(2) by linarith
    then show ?thesis using assms(2) by (simp add: unat_word_ariths unat_of_nat)
  qed simp
  then show ?thesis using assms by (simp add: unat_word_ariths unat_of_nat)
qed

lemma chain_blocks_outside:
  assumes "chain_blocks n i fla sz fl m = Inr (fl', m')" "(i + n) * unat sz \<le> 4096" "4 \<le> unat sz"
    and "unat fla + 4096 \<le> 2 ^ 32" "unat x < unat fla \<or> unat fla + 4096 \<le> unat x"
  shows "m' x = m x"
  using assms(1,2)
proof (induction n arbitrary: i fl m)
  case (Suc n)
  have bound: "i * unat sz + 4 \<le> 4096"
    using Suc.prems(2) assms(3) by (simp add: add_mult_distrib)
  have "x \<noteq> fla + of_nat i * sz + of_nat d" if "d < 4" for d
    using unat_block_offset [OF assms(4), of i sz d] bound that assms(5) by auto
  then have "store32 m (fla + of_nat i * sz) v x = m x" for v
    by (intro store32_outside) blast
  then show ?case
    using Suc by (auto simp: Let_def res_simps)
qed simp

lemma sizes_nth:
  assumes "aget sizes b = Inr sz"
  shows "b < 8" "unat sz = 16 * 2 ^ b" "unat (PAGE_SIZE div sz) * unat sz = 4096"
    "unat (PAGE_SIZE div sz) \<le> 256"
proof -
  have b: "b < 8" and sz: "sz = sizes ! b" using assms by (simp_all add: aget_eq_Inr sizes_def)
  from b have "b \<in> {0, 1, 2, 3, 4, 5, 6, 7}" by auto
  then have "unat sz = 16 * 2 ^ b \<and> unat (PAGE_SIZE div sz) * unat sz = 4096
      \<and> unat (PAGE_SIZE div sz) \<le> 256"
    unfolding sz by (elim insertE) (simp_all add: sizes_def PAGE_SIZE_def)
  with b show "b < 8" "unat sz = 16 * 2 ^ b" "unat (PAGE_SIZE div sz) * unat sz = 4096"
    "unat (PAGE_SIZE div sz) \<le> 256" by blast+
qed

lemma newpage_outside:
  assumes "newpage b page h = Inr (r, h')" "unat page + 4096 \<le> 2 ^ 32"
  shows "kram h' = kram h"
    and "unat x < unat page \<or> unat page + 4096 \<le> unat x \<Longrightarrow> kmem h' x = kmem h x"
proof -
  obtain pr h1 where ap: "allocpageref h = Inr (pr, h1)"
    using assms(1) by (auto simp: newpage_def res_simps)
  have h1: "kram h1 = kram h" "kmem h1 = kmem h"
    using allocpageref_from_frame ap unfolding allocpageref_def by fastforce+
  show "kram h' = kram h"
    using assms(1) ap h1 by (auto simp: newpage_def free_kpages_def Let_def res_simps split: option.splits)
  assume x: "unat x < unat page \<or> unat page + 4096 \<le> unat x"
  show "kmem h' x = kmem h x"
  proof (cases pr)
    case None
    then show ?thesis using assms(1) ap h1 by (simp add: newpage_def free_kpages_def)
  next
    case (Some p)
    then obtain sz fl m where sz: "aget sizes b = Inr sz" and m: "kmem h' = m"
      and chain: "chain_blocks (unat (ucast (PAGE_SIZE div sz) :: u16) - 1) 1 page sz page
                    (store32 (kmem h1) page 0) = Inr (fl, m)"
      using assms(1) ap by (auto simp: newpage_def Let_def res_simps)
    have n: "unat (ucast (PAGE_SIZE div sz) :: u16) = unat (PAGE_SIZE div sz)"
      using sizes_nth(4) [OF sz] by (simp add: take_bit_eq_mod unsigned_ucast_eq)
    have "m x = store32 (kmem h1) page 0 x"
    proof (rule chain_blocks_outside [OF chain _ _ assms(2) x])
      show "(1 + (unat (ucast (PAGE_SIZE div sz) :: u16) - 1)) * unat sz \<le> 4096"
        using sizes_nth(3) [OF sz] unfolding n by (cases "unat (PAGE_SIZE div sz)") auto
      show "4 \<le> unat sz" using sizes_nth(2) [OF sz] by simp
    qed
    also have "\<dots> = kmem h1 x"
      using unat_block_offset [OF assms(2), of 0 sz] x by (intro store32_outside) auto
    finally show ?thesis using m h1 by simp
  qed
qed

lemma subpage_kmalloc_grows:
  assumes "ram_wf (kram h)" "subpage_kmalloc sz h = Inr (p, h')"
  shows "grows h h'"
proof -
  obtain b base found where s: "blocktype sz = Inr b" "aget (sizebases h) b = Inr base"
      "find_samesize LIST_FUEL b base h = Inr found"
    using assms(2) by (auto simp: subpage_kmalloc_def res_simps)
  show ?thesis
  proof (cases found)
    case (Some q)
    then have "doalloc q h = Inr (p, h')" using assms(2) s by (simp add: subpage_kmalloc_def)
    then show ?thesis using doalloc_frame grows_same_ram [OF grows_refl [OF assms(1)]] by blast
  next
    case None
    have one: "unat (1 :: u32) \<le> 2 ^ 19" by simp
    show ?thesis
    proof (cases rule: alloc_kpages_cases [OF assms(1) one])
      case 1
      then show ?thesis using assms s None by (simp add: subpage_kmalloc_def grows_refl)
    next
      case (2 a h1)
      then obtain r h2 where np: "newpage b a h1 = Inr (r, h2)"
        and da: "(case r of None \<Rightarrow> Inr (0, h2) | Some q \<Rightarrow> doalloc q h2) = Inr (p, h')"
        using assms(2) s None by (auto simp: subpage_kmalloc_def res_simps)
      have page: "unat a + 4096 \<le> 2 ^ 32" using 2 by simp
      have "grows h h2"
        using 2 newpage_outside [OF np page] by (auto simp: grows_def frontier_def)
      moreover have "kram h' = kram h2 \<and> kmem h' = kmem h2"
        using da doalloc_frame by (auto split: option.splits)
      ultimately show ?thesis using grows_same_ram by blast
    qed
  qed
qed

lemma kmalloc_grows:
  assumes "ram_wf (kram h)" "unat sz < 2 ^ 31" "kmalloc sz h = Inr (p, h')"
  shows "grows h h'"
proof (cases "sz \<ge> LARGEST_SUBPAGE_SIZE")
  case True
  have "unat ((sz + PAGE_SIZE - 1) div PAGE_SIZE) \<le> 2 ^ 19"
    using assms(2) by (simp add: unat_div_distrib PAGE_SIZE_def unat_word_ariths)
  then show ?thesis
    using alloc_kpages_cases [OF assms(1)] assms True
    by (metis Pair_inject grows_refl kmalloc_def Inr_inject)
next
  case False
  then show ?thesis using assms subpage_kmalloc_grows by (simp add: kmalloc_def)
qed

end
