(* ===== verification/Klib.thy ===== *)
theory Klib
  imports Kmalloc
begin

text \<open>
  The kernel routines of \<open>kern/lib/misc.c\<close> and \<open>kern/thread/synch.c\<close> that only allocate: \<open>kstrdup\<close>
  and \<open>lock_create\<close>. The structure \<open>lock\<close> holds nothing but the pointer to its name, and the
  operations on locks are empty in the source.
\<close>

fun store_string :: "string \<Rightarrow> u32 \<Rightarrow> mem \<Rightarrow> mem" where
  "store_string [] a m = m(a := 0)"
| "store_string (c # cs) a m = store_string cs (a + 1) (m(a := of_nat (of_char c)))"

definition kstrdup :: "string \<Rightarrow> kheap \<Rightarrow> (u32 \<times> kheap) res" where
  "kstrdup str h =
     rbind (kmalloc (of_nat (length str + 1)) h) (\<lambda>(z, h).
       if z = 0 then Inr (0, h) else Inr (z, h\<lparr>kmem := store_string str z (kmem h)\<rparr>))"

definition sizeof_lock :: u32 where "sizeof_lock = 4"

definition lock_create :: "string \<Rightarrow> kheap \<Rightarrow> (u32 \<times> kheap) res" where
  "lock_create name h =
     rbind (kmalloc sizeof_lock h) (\<lambda>(lock, h).
       if lock = 0 then Inr (0, h)
       else rbind (kstrdup name h) (\<lambda>(lk_name, h).
         if lk_name = 0 then rbind (kfree lock h) (\<lambda>h. Inr (0, h))
         else Inr (lock, h\<lparr>kmem := store32 (kmem h) lock lk_name\<rparr>)))"

end
