(* ===== verification/Tlb.thy ===== *)
theory Tlb
  imports Prelude
begin

unbundle bit_operations_syntax

text \<open>
  The software-managed TLB of the MIPS port. The hardware operations follow the contract
  that \<open>kern/arch/mips/include/tlb.h\<close> documents for \<open>tlb-mips161.S\<close>: 64 slots of a high and a
  low word, an indexed write (the index register has six bits), and a probe by virtual page
  that ignores the valid bit. On top of them are the TLB routines of \<open>kern/vm/addrspace.c\<close>:
  \<open>insert_tlb_entry\<close>, \<open>tlb_invalidate\<close> and the flush of \<open>as_activate\<close>. Interrupt
  masking around them is not modelled: each routine is one atomic step on its CPU.
\<close>

section \<open>The hardware\<close>

definition TLBHI_VPAGE :: u32 where "TLBHI_VPAGE = 0xfffff000"
definition TLBLO_PPAGE :: u32 where "TLBLO_PPAGE = 0xfffff000"
definition TLBLO_DIRTY :: u32 where "TLBLO_DIRTY = 0x00000400"
definition TLBLO_VALID :: u32 where "TLBLO_VALID = 0x00000200"

definition NUM_TLB :: nat where "NUM_TLB = 64"

definition TLBHI_INVALID :: "nat \<Rightarrow> u32" where
  "TLBHI_INVALID entryno = push_bit 12 (0x80000 + of_nat entryno)"

definition TLBLO_INVALID :: u32 where "TLBLO_INVALID = 0"

record tlb_entry =
  entryhi :: u32
  entrylo :: u32

record tlb_state =
  tlb :: "tlb_entry list"
  last_tlb_entry :: nat

definition tlb_write :: "u32 \<Rightarrow> u32 \<Rightarrow> nat \<Rightarrow> tlb_state \<Rightarrow> tlb_state" where
  "tlb_write hi lo i s =
     s\<lparr>tlb := (tlb s)[i mod NUM_TLB := \<lparr>entryhi = hi, entrylo = lo\<rparr>]\<rparr>"

definition tlb_read :: "nat \<Rightarrow> tlb_state \<Rightarrow> u32 \<times> u32" where
  "tlb_read i s = (let e = tlb s ! (i mod NUM_TLB) in (entryhi e, entrylo e))"

fun probe_from :: "int \<Rightarrow> u32 \<Rightarrow> tlb_entry list \<Rightarrow> int" where
  "probe_from i hi [] = -1"
| "probe_from i hi (e # es) =
     (if entryhi e AND TLBHI_VPAGE = hi AND TLBHI_VPAGE then i else probe_from (i + 1) hi es)"

definition tlb_probe :: "u32 \<Rightarrow> tlb_state \<Rightarrow> int" where
  "tlb_probe hi s = probe_from 0 hi (tlb s)"

text \<open>How the processor translates a mapped address: the matching slot, if it is valid.\<close>

definition tlb_lookup :: "tlb_state \<Rightarrow> u32 \<Rightarrow> u32 option" where
  "tlb_lookup s va =
     (let i = tlb_probe va s
      in if i < 0 then None
         else if entrylo (tlb s ! nat i) AND TLBLO_VALID = 0 then None
         else Some (entrylo (tlb s ! nat i) AND TLBLO_PPAGE))"

section \<open>The routines of addrspace.c\<close>

text \<open>
  The scan of \<open>insert_tlb_entry\<close> for a free slot. Both branches of its body go on with the
  next slot: a valid slot by \<open>continue\<close>, an invalid one by falling off the end of the body.
\<close>

function tlb_scan :: "nat \<Rightarrow> tlb_state \<Rightarrow> nat" where
  "tlb_scan i s =
     (if i < NUM_TLB
      then (if snd (tlb_read i s) AND TLBLO_VALID \<noteq> 0 then tlb_scan (Suc i) s
            else tlb_scan (Suc i) s)
      else i)"
  by pat_completeness auto
termination
  by (relation "measure (\<lambda>(i, s). NUM_TLB - i)") auto

declare tlb_scan.simps [simp del]

definition insert_tlb_entry :: "u32 \<Rightarrow> u32 \<Rightarrow> tlb_state \<Rightarrow> int \<times> tlb_state" where
  "insert_tlb_entry faultaddress paddr s =
     (let prev = tlb_probe faultaddress s
      in if prev \<ge> 0 then (0, s)
         else
           let i = tlb_scan 0 s;
               (i, s) = (if i = NUM_TLB
                         then (last_tlb_entry s,
                               s\<lparr>last_tlb_entry := (last_tlb_entry s + 1) mod NUM_TLB\<rparr>)
                         else (i, s));
               elo = paddr OR TLBLO_DIRTY OR TLBLO_VALID
           in (0, tlb_write faultaddress elo i s))"

definition tlb_invalidate :: "u32 \<Rightarrow> tlb_state \<Rightarrow> tlb_state" where
  "tlb_invalidate vaddr s =
     (let index = tlb_probe vaddr s
      in if index > 0 then tlb_write (TLBHI_INVALID (nat index)) TLBLO_INVALID (nat index) s
         else s)"

fun flush_from :: "nat \<Rightarrow> nat \<Rightarrow> tlb_state \<Rightarrow> tlb_state" where
  "flush_from i 0 s = s"
| "flush_from i (Suc n) s =
     flush_from (Suc i) n (tlb_write (TLBHI_INVALID i) TLBLO_INVALID i s)"

definition as_activate :: "tlb_state \<Rightarrow> tlb_state" where
  "as_activate s = flush_from 0 NUM_TLB s"

section \<open>Well-formed TLB states\<close>

definition vpage :: "u32 \<Rightarrow> u32" where
  "vpage a = a AND TLBHI_VPAGE"

definition user_addr :: "u32 \<Rightarrow> bool" where
  "user_addr a \<longleftrightarrow> a < MIPS_KSEG0"

text \<open>
  What a slot may hold: a user page, the invalid page reserved for this slot, or one of the
  pages from 0x81000000 on that the reset code loads.
\<close>

definition slot_ok :: "nat \<Rightarrow> u32 \<Rightarrow> bool" where
  "slot_ok i hi \<longleftrightarrow> user_addr hi \<or> hi = TLBHI_INVALID i \<or> 0x81000000 \<le> hi"

definition tlb_wf :: "tlb_state \<Rightarrow> bool" where
  "tlb_wf s \<longleftrightarrow> length (tlb s) = NUM_TLB \<and> last_tlb_entry s < NUM_TLB
     \<and> distinct (map (vpage \<circ> entryhi) (tlb s))
     \<and> (\<forall>i < NUM_TLB. slot_ok i (entryhi (tlb s ! i)))"

section \<open>Probing\<close>

lemma tlb_scan_end: "i \<le> NUM_TLB \<Longrightarrow> tlb_scan i s = NUM_TLB"
proof (induction i s rule: tlb_scan.induct)
  case (1 i s)
  show ?case
  proof (cases "i < NUM_TLB")
    case True
    then have "tlb_scan (Suc i) s = NUM_TLB" using "1.IH" by fastforce
    then show ?thesis using True by (simp add: tlb_scan.simps [of i s])
  next
    case False
    then show ?thesis using "1.prems" by (subst tlb_scan.simps) simp
  qed
qed

lemma probe_from_ge: "probe_from i hi es = -1 \<or> i \<le> probe_from i hi es"
  by (induction i hi es rule: probe_from.induct) auto

lemma probe_from_shift:
  "0 \<le> i \<Longrightarrow> probe_from i hi es = (let r = probe_from 0 hi es in if r < 0 then -1 else r + i)"
proof (induction es arbitrary: i)
  case (Cons e es)
  show ?case
    using Cons.IH [of "i + 1"] Cons.IH [of 1] Cons.prems probe_from_ge [of 0 hi es]
    by (auto simp: Let_def)
qed simp

lemma probe_from_none:
  "probe_from 0 hi es = -1 \<longleftrightarrow> (\<forall>e \<in> set es. vpage (entryhi e) \<noteq> vpage hi)"
proof (induction es)
  case (Cons e es)
  then show ?case
    using probe_from_ge [of 0 hi es] by (auto simp: vpage_def probe_from_shift [of 1] Let_def)
qed simp

lemma probe_from_Some:
  assumes "distinct (map (vpage \<circ> entryhi) es)"
  shows "probe_from 0 hi es = int k \<longleftrightarrow> k < length es \<and> vpage (entryhi (es ! k)) = vpage hi"
  using assms
proof (induction es arbitrary: k)
  case (Cons e es)
  have IH: "probe_from 0 hi es = int j \<longleftrightarrow> j < length es \<and> vpage (entryhi (es ! j)) = vpage hi" for j
    using Cons by simp
  show ?case
  proof (cases "vpage (entryhi e) = vpage hi")
    case True
    have "vpage (entryhi (es ! j)) \<noteq> vpage hi" if "j < length es" for j
      using Cons.prems True nth_mem [OF that] by (auto simp: image_iff)
    then show ?thesis
      using True by (cases k) (auto simp: vpage_def)
  next
    case False
    then show ?thesis
      using IH [of "k - 1"] probe_from_ge [of 0 hi es]
      by (cases k) (auto simp: vpage_def probe_from_shift [of 1] Let_def)
  qed
qed simp

lemma tlb_probe_cases:
  obtains (miss) "tlb_probe va s = -1" "\<forall>e \<in> set (tlb s). vpage (entryhi e) \<noteq> vpage va"
    | (hit) k where "tlb_probe va s = int k"
  using probe_from_none [of va "tlb s"] probe_from_ge [of 0 va "tlb s"] nonneg_int_cases
  unfolding tlb_probe_def by metis

lemma tlb_probe_hit:
  "tlb_wf s \<Longrightarrow> tlb_probe va s = int k \<longleftrightarrow> k < NUM_TLB \<and> vpage (entryhi (tlb s ! k)) = vpage va"
  using probe_from_Some [of "tlb s" va k] by (simp add: tlb_probe_def tlb_wf_def)

lemma tlb_probe_miss:
  "tlb_probe va s = -1 \<longleftrightarrow> (\<forall>e \<in> set (tlb s). vpage (entryhi e) \<noteq> vpage va)"
  by (simp add: tlb_probe_def probe_from_none)

lemma tlb_probe_miss_nth:
  "tlb_wf s \<Longrightarrow>
   tlb_probe va s = -1 \<longleftrightarrow> (\<forall>k < NUM_TLB. vpage (entryhi (tlb s ! k)) \<noteq> vpage va)"
  by (auto simp: tlb_probe_miss tlb_wf_def all_set_conv_all_nth)

lemma tlb_lookup_hit:
  assumes "tlb_wf s" "k < NUM_TLB" "vpage (entryhi (tlb s ! k)) = vpage va"
  shows "tlb_lookup s va =
    (if entrylo (tlb s ! k) AND TLBLO_VALID = 0 then None
     else Some (entrylo (tlb s ! k) AND TLBLO_PPAGE))"
  using tlb_probe_hit [OF assms(1), of va k] assms by (simp add: tlb_lookup_def)

lemma tlb_lookup_miss: "tlb_probe va s = -1 \<Longrightarrow> tlb_lookup s va = None"
  by (simp add: tlb_lookup_def)

section \<open>Keeping the TLB well formed\<close>

lemma vpage_TLBHI_INVALID [simp]: "vpage (TLBHI_INVALID i) = TLBHI_INVALID i"
proof -
  have "TLBHI_VPAGE = NOT (mask 12)"
    by (simp add: TLBHI_VPAGE_def mask_eq_exp_minus_1)
  then have "vpage (TLBHI_INVALID i) = push_bit 12 (0x80000 + of_nat i) AND NOT (mask 12)"
    by (simp add: vpage_def TLBHI_INVALID_def)
  also have "\<dots> = push_bit 12 (0x80000 + of_nat i)"
    by (rule bit_word_eqI)
      (auto simp: bit_and_iff bit_not_iff bit_mask_iff bit_push_bit_iff)
  finally show ?thesis by (simp add: TLBHI_INVALID_def)
qed

lemma unat_TLBHI_INVALID: "i < NUM_TLB \<Longrightarrow> unat (TLBHI_INVALID i) = (0x80000 + i) * 4096"
  by (simp add: TLBHI_INVALID_def NUM_TLB_def push_bit_eq_mult unat_word_ariths unat_of_nat
      take_bit_eq_mod)

lemma unat_vpage: "unat (vpage a) = unat a div 4096 * 4096"
  using unat_and_PAGE_FRAME by (simp add: vpage_def TLBHI_VPAGE_def PAGE_FRAME_def)

lemma slot_ok_vpage_neq:
  assumes "slot_ok j hi" "i < NUM_TLB" "j < NUM_TLB" "i \<noteq> j"
  shows "vpage hi \<noteq> TLBHI_INVALID i"
proof -
  consider "unat hi < 0x80000000" | "hi = TLBHI_INVALID j" | "0x81000000 \<le> unat hi"
    using assms(1) by (auto simp: slot_ok_def user_addr_def MIPS_KSEG0_def word_less_nat_alt word_le_nat_alt)
  then have "unat (vpage hi) \<noteq> unat (TLBHI_INVALID i)"
    using assms(2-) by cases (auto simp: unat_vpage unat_TLBHI_INVALID NUM_TLB_def)
  then show ?thesis by auto
qed

lemma tlb_write_wf:
  assumes "tlb_wf s" "i < NUM_TLB" "slot_ok i hi"
    and "\<And>j. j < NUM_TLB \<Longrightarrow> j \<noteq> i \<Longrightarrow> vpage (entryhi (tlb s ! j)) \<noteq> vpage hi"
  shows "tlb_wf (tlb_write hi lo i s)"
proof -
  have "distinct ((map (vpage \<circ> entryhi) (tlb s))[i := vpage hi])"
    using assms
    by (intro distinct_list_update) (auto simp: tlb_wf_def set_conv_nth nth_list_update, metis)
  then show ?thesis
    using assms by (auto simp: tlb_wf_def tlb_write_def map_update nth_list_update)
qed

lemma insert_tlb_entry_hit: "tlb_probe va s = int k \<Longrightarrow> insert_tlb_entry va pa s = (0, s)"
  by (simp add: insert_tlb_entry_def)

lemma insert_tlb_entry_miss:
  "tlb_probe va s = -1 \<Longrightarrow>
   insert_tlb_entry va pa s =
     (0, tlb_write va (pa OR TLBLO_DIRTY OR TLBLO_VALID) (last_tlb_entry s)
           (s\<lparr>last_tlb_entry := (last_tlb_entry s + 1) mod NUM_TLB\<rparr>))"
  by (simp add: insert_tlb_entry_def tlb_scan_end)

lemma tlb_wf_bump:
  "tlb_wf s \<Longrightarrow> tlb_wf (s\<lparr>last_tlb_entry := (last_tlb_entry s + 1) mod NUM_TLB\<rparr>)"
  by (simp add: tlb_wf_def NUM_TLB_def)

lemma insert_tlb_entry_wf:
  assumes "tlb_wf s" "user_addr va"
  shows "tlb_wf (snd (insert_tlb_entry va pa s))"
proof (cases rule: tlb_probe_cases [of va s])
  case miss
  then have "\<And>j. j < NUM_TLB \<Longrightarrow> vpage (entryhi (tlb s ! j)) \<noteq> vpage va"
    using assms(1) by (simp add: tlb_wf_def)
  then show ?thesis
    using assms miss(1) tlb_wf_bump [OF assms(1)]
    by (auto simp: insert_tlb_entry_miss slot_ok_def tlb_wf_def [of s] intro!: tlb_write_wf)
next
  case (hit k)
  then show ?thesis using assms by (simp add: insert_tlb_entry_hit)
qed

lemma tlb_invalid_write_wf:
  assumes "tlb_wf s" "i < NUM_TLB"
  shows "tlb_wf (tlb_write (TLBHI_INVALID i) TLBLO_INVALID i s)"
  using assms slot_ok_vpage_neq
  by (intro tlb_write_wf) (auto simp: slot_ok_def tlb_wf_def)

lemma tlb_invalidate_wf: "tlb_wf s \<Longrightarrow> tlb_wf (tlb_invalidate va s)"
proof (cases rule: tlb_probe_cases [of va s])
  case (hit k)
  assume "tlb_wf s"
  then have "k < NUM_TLB" using hit tlb_probe_hit by blast
  then show ?thesis
    using hit \<open>tlb_wf s\<close> by (simp add: tlb_invalidate_def tlb_invalid_write_wf Let_def)
qed (simp add: tlb_invalidate_def)

lemma flush_from_wf: "tlb_wf s \<Longrightarrow> i + n \<le> NUM_TLB \<Longrightarrow> tlb_wf (flush_from i n s)"
  by (induction i n s rule: flush_from.induct) (auto simp: tlb_invalid_write_wf)

lemma as_activate_wf: "tlb_wf s \<Longrightarrow> tlb_wf (as_activate s)"
  by (simp add: as_activate_def flush_from_wf)

section \<open>What an insertion and an invalidation do\<close>

text \<open>The low word that an insertion writes, as the processor reads it.\<close>

definition tlb_elo :: "u32 \<Rightarrow> u32" where
  "tlb_elo pa = pa OR TLBLO_DIRTY OR TLBLO_VALID"

lemma tlb_elo_valid [simp]: "tlb_elo pa AND TLBLO_VALID \<noteq> 0"
proof -
  have "bit (tlb_elo pa AND TLBLO_VALID) 9"
    by (simp add: tlb_elo_def TLBLO_VALID_def bit_and_iff bit_or_iff)
  then show ?thesis by (auto simp del: bit_and_iff)
qed

lemma tlb_elo_ppage: "pa AND PAGE_FRAME = pa \<Longrightarrow> tlb_elo pa AND TLBLO_PPAGE = pa"
  by (simp add: tlb_elo_def TLBLO_PPAGE_def TLBLO_DIRTY_def TLBLO_VALID_def PAGE_FRAME_def
      bit.conj_disj_distrib2)

lemma tlb_write_nth:
  "length (tlb s) = NUM_TLB \<Longrightarrow> i < NUM_TLB \<Longrightarrow> k < NUM_TLB \<Longrightarrow>
   tlb (tlb_write hi lo i s) ! k = (if k = i then \<lparr>entryhi = hi, entrylo = lo\<rparr> else tlb s ! k)"
  by (simp add: tlb_write_def nth_list_update)

lemma insert_tlb_entry_nth:
  assumes "tlb_wf s" "tlb_probe va s = -1" "k < NUM_TLB"
  shows "tlb (snd (insert_tlb_entry va pa s)) ! k =
    (if k = last_tlb_entry s then \<lparr>entryhi = va, entrylo = tlb_elo pa\<rparr> else tlb s ! k)"
  using assms by (simp add: insert_tlb_entry_miss tlb_write_nth tlb_wf_def tlb_elo_def)

lemma insert_tlb_entry_last:
  assumes "tlb_probe va s = -1"
  shows "last_tlb_entry (snd (insert_tlb_entry va pa s)) = (last_tlb_entry s + 1) mod NUM_TLB"
  using assms by (simp add: insert_tlb_entry_miss tlb_write_def)

lemma insert_tlb_entry_lookup:
  assumes "tlb_wf s" "user_addr va" "tlb_probe va s = -1" "pa AND PAGE_FRAME = pa"
  shows "tlb_lookup (snd (insert_tlb_entry va pa s)) va = Some pa"
proof -
  let ?s = "snd (insert_tlb_entry va pa s)"
  have wf: "tlb_wf ?s" by (rule insert_tlb_entry_wf [OF assms(1,2)])
  have last: "last_tlb_entry s < NUM_TLB" using assms(1) by (simp add: tlb_wf_def)
  show ?thesis
    using tlb_lookup_hit [OF wf last, of va] insert_tlb_entry_nth [OF assms(1,3) last]
      tlb_elo_ppage [OF assms(4)] by simp
qed

lemma insert_tlb_entry_other:
  assumes "tlb_wf s" "user_addr va" "tlb_probe va s = -1" "vpage vb \<noteq> vpage va"
    and "vpage vb \<noteq> vpage (entryhi (tlb s ! last_tlb_entry s))"
  shows "tlb_lookup (snd (insert_tlb_entry va pa s)) vb = tlb_lookup s vb"
proof -
  let ?s = "snd (insert_tlb_entry va pa s)"
  have wf: "tlb_wf ?s" by (rule insert_tlb_entry_wf [OF assms(1,2)])
  note nth = insert_tlb_entry_nth [OF assms(1,3)]
  show ?thesis
  proof (cases rule: tlb_probe_cases [of vb s])
    case miss
    then have "tlb_probe vb ?s = -1"
      using assms tlb_probe_miss_nth [OF wf, of vb] tlb_probe_miss_nth [OF assms(1), of vb] nth
      by simp
    then show ?thesis using miss by (simp add: tlb_lookup_miss)
  next
    case (hit k)
    then have k: "k < NUM_TLB" "vpage (entryhi (tlb s ! k)) = vpage vb"
      using tlb_probe_hit [OF assms(1)] by blast+
    then have "tlb ?s ! k = tlb s ! k" using assms(5) nth by auto
    then show ?thesis
      using k tlb_lookup_hit [OF wf k(1)] tlb_lookup_hit [OF assms(1) k] by simp
  qed
qed

lemma tlb_invalidate_slot:
  assumes "tlb_wf s" "tlb_probe va s = int k" "0 < k" "j < NUM_TLB"
  shows "tlb (tlb_invalidate va s) ! j =
    (if j = k then \<lparr>entryhi = TLBHI_INVALID k, entrylo = TLBLO_INVALID\<rparr> else tlb s ! j)"
proof -
  have "k < NUM_TLB" using assms tlb_probe_hit by blast
  then show ?thesis
    using assms by (simp add: tlb_invalidate_def Let_def tlb_write_nth tlb_wf_def)
qed

lemma user_vpage_not_invalid:
  assumes "user_addr va" "i < NUM_TLB"
  shows "vpage va \<noteq> TLBHI_INVALID i"
proof -
  have "unat va < 0x80000000"
    using assms(1) by (simp add: user_addr_def MIPS_KSEG0_def word_less_nat_alt)
  then have "unat (vpage va) \<noteq> unat (TLBHI_INVALID i)"
    using assms(2) by (simp add: unat_vpage unat_TLBHI_INVALID)
  then show ?thesis by auto
qed

lemma tlb_lookup_cong:
  assumes "tlb_wf s" "tlb_wf t"
    and "\<And>k. k < NUM_TLB \<Longrightarrow> vpage (entryhi (tlb s ! k)) = vpage va \<or> vpage (entryhi (tlb t ! k)) = vpage va
          \<Longrightarrow> tlb s ! k = tlb t ! k"
  shows "tlb_lookup s va = tlb_lookup t va"
proof (cases rule: tlb_probe_cases [of va s])
  case miss
  then have "tlb_probe va t = -1"
    using assms tlb_probe_miss_nth [OF assms(1), of va] tlb_probe_miss_nth [OF assms(2), of va] by metis
  then show ?thesis using miss by (simp add: tlb_lookup_miss)
next
  case (hit k)
  then have k: "k < NUM_TLB" "vpage (entryhi (tlb s ! k)) = vpage va"
    using tlb_probe_hit [OF assms(1)] by blast+
  then have "tlb t ! k = tlb s ! k" using assms(3) by metis
  then show ?thesis
    using k tlb_lookup_hit [OF assms(1) k] tlb_lookup_hit [OF assms(2) k(1)] by simp
qed

section \<open>Round-robin replacement\<close>

fun insert_all :: "(u32 \<times> u32) list \<Rightarrow> tlb_state \<Rightarrow> tlb_state" where
  "insert_all [] s = s"
| "insert_all (p # ps) s = insert_all ps (snd (insert_tlb_entry (fst p) (snd p) s))"

lemma insert_all_snoc:
  "insert_all (ps @ [p]) s = snd (insert_tlb_entry (fst p) (snd p) (insert_all ps s))"
  by (induction ps arbitrary: s) auto

lemma insert_all_wf:
  "tlb_wf s \<Longrightarrow> (\<forall>p \<in> set ps. user_addr (fst p)) \<Longrightarrow> tlb_wf (insert_all ps s)"
  by (induction ps arbitrary: s) (auto simp: insert_tlb_entry_wf)

definition ring_slot :: "tlb_state \<Rightarrow> nat \<Rightarrow> nat" where
  "ring_slot s j = (last_tlb_entry s + j) mod NUM_TLB"

lemma ring_slot_less [simp]: "ring_slot s j < NUM_TLB"
  by (simp add: ring_slot_def NUM_TLB_def)

lemma ring_slot_inj: "i < NUM_TLB \<Longrightarrow> j < NUM_TLB \<Longrightarrow> ring_slot s i = ring_slot s j \<longleftrightarrow> i = j"
  using add_mod_inj [of i NUM_TLB j] by (simp add: ring_slot_def)

lemma insert_all_ring:
  assumes "tlb_wf s" "length ps \<le> NUM_TLB" "distinct (map (vpage \<circ> fst) ps)"
    and "\<forall>p \<in> set ps. user_addr (fst p) \<and> tlb_probe (fst p) s = -1"
  shows "last_tlb_entry (insert_all ps s) = ring_slot s (length ps)
    \<and> (\<forall>j < length ps. tlb (insert_all ps s) ! ring_slot s j
           = \<lparr>entryhi = fst (ps ! j), entrylo = tlb_elo (snd (ps ! j))\<rparr>)
    \<and> (\<forall>k < NUM_TLB. (\<forall>j < length ps. k \<noteq> ring_slot s j) \<longrightarrow> tlb (insert_all ps s) ! k = tlb s ! k)"
  using assms(2-)
proof (induction ps rule: rev_induct)
  case Nil
  then show ?case using assms(1) by (simp add: ring_slot_def tlb_wf_def)
next
  case (snoc p ps)
  let ?t = "insert_all ps s"
  have IH: "last_tlb_entry ?t = ring_slot s (length ps)"
    "\<And>j. j < length ps \<Longrightarrow> tlb ?t ! ring_slot s j = \<lparr>entryhi = fst (ps ! j), entrylo = tlb_elo (snd (ps ! j))\<rparr>"
    "\<And>k. k < NUM_TLB \<Longrightarrow> \<forall>j < length ps. k \<noteq> ring_slot s j \<Longrightarrow> tlb ?t ! k = tlb s ! k"
    using snoc by auto
  have wf: "tlb_wf ?t" using snoc.prems assms(1) by (intro insert_all_wf) auto
  have "vpage (entryhi (tlb ?t ! k)) \<noteq> vpage (fst p)" if "k < NUM_TLB" for k
  proof (cases "\<exists>j < length ps. k = ring_slot s j")
    case True
    then obtain j where j: "j < length ps" "k = ring_slot s j" by blast
    have "vpage (fst (ps ! j)) \<noteq> vpage (fst p)"
      using snoc.prems(2) nth_mem [OF j(1)] by (auto simp: image_iff)
    then show ?thesis using IH(2) [OF j(1)] j(2) by simp
  next
    case False
    then show ?thesis
      using IH(3) [OF that] snoc.prems(3) tlb_probe_miss_nth [OF assms(1)] that by auto
  qed
  then have miss: "tlb_probe (fst p) ?t = -1" using tlb_probe_miss_nth [OF wf] by blast
  have nth: "tlb (insert_all (ps @ [p]) s) ! k =
      (if k = ring_slot s (length ps) then \<lparr>entryhi = fst p, entrylo = tlb_elo (snd p)\<rparr> else tlb ?t ! k)"
    if "k < NUM_TLB" for k
    using insert_tlb_entry_nth [OF wf miss that] IH(1) by (simp add: insert_all_snoc)
  have "tlb (insert_all (ps @ [p]) s) ! ring_slot s j
      = \<lparr>entryhi = fst ((ps @ [p]) ! j), entrylo = tlb_elo (snd ((ps @ [p]) ! j))\<rparr>"
    if "j < length (ps @ [p])" for j
    using that nth [of "ring_slot s j"] IH(2) [of j] ring_slot_inj [of j "length ps" s] snoc.prems(1)
    by (cases "j = length ps") (auto simp: nth_append)
  moreover have "tlb (insert_all (ps @ [p]) s) ! k = tlb s ! k"
    if "k < NUM_TLB" "\<forall>j < length (ps @ [p]). k \<noteq> ring_slot s j" for k
    using that nth IH(3) by simp
  moreover have "last_tlb_entry (insert_all (ps @ [p]) s) = ring_slot s (length (ps @ [p]))"
    using IH(1) insert_tlb_entry_last [OF miss]
    by (simp add: insert_all_snoc ring_slot_def mod_simps)
  ultimately show ?case by blast
qed

lemma insert_all_resident:
  assumes "tlb_wf s" "length ps \<le> NUM_TLB" "distinct (map (vpage \<circ> fst) ps)"
    and "\<forall>p \<in> set ps. user_addr (fst p) \<and> tlb_probe (fst p) s = -1 \<and> snd p AND PAGE_FRAME = snd p"
    and "(va, pa) \<in> set ps"
  shows "tlb_lookup (insert_all ps s) va = Some pa"
proof -
  obtain j where j: "j < length ps" "ps ! j = (va, pa)"
    using assms(5) by (auto simp: in_set_conv_nth)
  have wf: "tlb_wf (insert_all ps s)" using assms by (intro insert_all_wf) auto
  have "tlb (insert_all ps s) ! ring_slot s j = \<lparr>entryhi = va, entrylo = tlb_elo pa\<rparr>"
    using insert_all_ring [OF assms(1-3)] assms(4) j by simp
  then show ?thesis
    using tlb_lookup_hit [OF wf ring_slot_less, of s j va] tlb_elo_ppage [of pa] bspec [OF assms(4,5)]
    by simp
qed

end
