(* ===== verification/VmState.thy ===== *)
theory VmState
  imports Klib Tlb
begin

unbundle bit_operations_syntax

text \<open>
  The state of the virtual memory system of \<open>kern/vm/addrspace.c\<close> and \<open>kern/vm/swapspace.c\<close>,
  with the structures of \<open>kern/include/addrspace.h\<close>: page table entries, second-level page
  tables, address spaces, the page frame table \<open>pft\<close> and the global variables. Address
  spaces and second-level tables are allocated with \<open>kmalloc\<close>; each kind lives in a typed
  heap, a map from the address that \<open>kmalloc\<close> returned to the structure (0 is NULL). What a
  structure holds before it is initialised is whatever the memory held, given by
  \<open>junk_as\<close>, \<open>junk_l2\<close> and \<open>junk_pte\<close>. The swap device is its contents and the
  result that \<open>VOP_READ\<close> or \<open>VOP_WRITE\<close> gives at each offset.
\<close>

section \<open>Structures of addrspace.h\<close>

definition MAX_PM_SIZE :: nat where "MAX_PM_SIZE = 30"
definition MAX_LEVEL1_PT :: nat where "MAX_LEVEL1_PT = 4096"
definition MAX_LEVEL2_PT :: nat where "MAX_LEVEL2_PT = 256"
definition OFFSET_MASK :: u32 where "OFFSET_MASK = 0x00000fff"
definition CLOCK_ANGLE :: nat where "CLOCK_ANGLE = 8"

record page_table_entry =
  virtual_addr :: u32
  physical_addr :: u32
  valid_bit :: bool
  dirty_bit :: bool
  ref_bit :: bool
  pte_pid :: int
  counter :: int
  p_space :: u32

text \<open>
  The two table arrays are functions of the index: the index macros below cannot exceed
  their bounds (\<open>LEVEL1INDEX_bound\<close>, \<open>LEVEL2INDEX_bound\<close>).
\<close>

record page_table_level2 =
  pt_size :: int
  pt_table :: "nat \<Rightarrow> page_table_entry"

record addrspace =
  as_vbase1 :: u32
  as_npages1 :: u32
  as_vbase2 :: u32
  as_npages2 :: u32
  as_pid :: int
  as_size :: int
  as_table :: "nat \<Rightarrow> u32"
  as_stackpbase :: u32
  as_stacknpages :: u32

definition sizeof_addrspace :: u32 where "sizeof_addrspace = 16416"
definition sizeof_page_table_level2 :: u32 where "sizeof_page_table_level2 = 6148"
definition sizeof_page_table_entry :: u32 where "sizeof_page_table_entry = 24"

definition LEVEL1INDEX :: "u32 \<Rightarrow> nat" where
  "LEVEL1INDEX x = unat (drop_bit 20 (x AND 0xfff00000))"

definition LEVEL2INDEX :: "u32 \<Rightarrow> nat" where
  "LEVEL2INDEX x = unat (drop_bit 12 (x AND 0x000ff000))"

section \<open>The global state\<close>

record vm =
  kh :: kheap
  ts :: tlb_state
  pft :: "page_table_entry list"
  clock_hand :: nat
  rp_hand :: nat
  ep_hand :: nat
  cnt_page_repl :: int
  num_vm_faults :: int
  physical_base_addr :: u32
  spaces :: "u32 \<rightharpoonup> addrspace"
  l2tabs :: "u32 \<rightharpoonup> page_table_level2"
  swapspace :: "page_table_entry list"
  swap_insertions :: int
  swap_disk :: mem
  swap_result :: "u32 \<Rightarrow> int"
  junk_as :: "u32 \<Rightarrow> addrspace"
  junk_l2 :: "u32 \<Rightarrow> page_table_level2"
  junk_pte :: "u32 \<Rightarrow> page_table_entry"

definition vm_kmalloc :: "u32 \<Rightarrow> vm \<Rightarrow> (u32 \<times> vm) res" where
  "vm_kmalloc sz s = rbind (kmalloc sz (kh s)) (\<lambda>(p, h). Inr (p, s\<lparr>kh := h\<rparr>))"

definition vm_kfree :: "u32 \<Rightarrow> vm \<Rightarrow> vm res" where
  "vm_kfree p s = rbind (kfree p (kh s)) (\<lambda>h. Inr (s\<lparr>kh := h\<rparr>))"

section \<open>The index macros\<close>

lemma unat_less_32: "unat (x :: u32) < 4294967296"
  using unsigned_less [of x, where 'a = nat] by simp

lemma drop_and_mask: "drop_bit n (x AND push_bit n (mask k)) = drop_bit n (x :: u32) AND mask k"
  if "n + k \<le> 32"
  using that by (intro bit_word_eqI)
    (auto simp: bit_drop_bit_eq bit_and_iff bit_push_bit_iff bit_mask_iff)

lemma LEVEL1INDEX_eq: "LEVEL1INDEX x = unat x div 2 ^ 20"
proof -
  have "LEVEL1INDEX x = unat (drop_bit 20 (x AND push_bit 20 (mask 12)))"
    by (simp add: LEVEL1INDEX_def push_bit_eq_mult mask_eq_exp_minus_1)
  also have "\<dots> = unat (drop_bit 20 x AND mask 12)"
    by (subst drop_and_mask) simp_all
  also have "\<dots> = unat x div 2 ^ 20"
    using unat_less_32 [of x]
    by (simp add: take_bit_eq_mask [symmetric] unsigned_take_bit_eq unat_drop_bit_eq take_bit_eq_mod drop_bit_eq_div
        unat_div_distrib unat_mod_distrib)
  finally show ?thesis .
qed

lemma LEVEL2INDEX_eq: "LEVEL2INDEX x = unat x div 2 ^ 12 mod 2 ^ 8"
proof -
  have "LEVEL2INDEX x = unat (drop_bit 12 (x AND push_bit 12 (mask 8)))"
    by (simp add: LEVEL2INDEX_def push_bit_eq_mult mask_eq_exp_minus_1)
  also have "\<dots> = unat (drop_bit 12 x AND mask 8)"
    by (subst drop_and_mask) simp_all
  also have "\<dots> = unat x div 2 ^ 12 mod 2 ^ 8"
    by (simp add: take_bit_eq_mask [symmetric] unsigned_take_bit_eq unat_drop_bit_eq take_bit_eq_mod drop_bit_eq_div
        unat_div_distrib unat_mod_distrib)
  finally show ?thesis .
qed

lemma LEVEL1INDEX_bound: "LEVEL1INDEX x < MAX_LEVEL1_PT"
  using unat_less_32 [of x] by (simp add: LEVEL1INDEX_eq MAX_LEVEL1_PT_def)

lemma LEVEL2INDEX_bound: "LEVEL2INDEX x < MAX_LEVEL2_PT"
  by (simp add: LEVEL2INDEX_eq MAX_LEVEL2_PT_def)

text \<open>The two indices together are the page number: they separate any two pages.\<close>

lemma level_index_eq_iff:
  "LEVEL1INDEX x = LEVEL1INDEX y \<and> LEVEL2INDEX x = LEVEL2INDEX y \<longleftrightarrow> vpage x = vpage y"
proof -
  have *: "a div 1048576 = (a div 4096) div 256" for a :: nat
    by (simp add: div_mult2_eq [symmetric])
  have "vpage x = vpage y \<longleftrightarrow> unat x div 4096 = unat y div 4096"
    by (simp add: word_unat_eq_iff unat_vpage)
  also have "\<dots> \<longleftrightarrow> (unat x div 4096) div 256 = (unat y div 4096) div 256
      \<and> (unat x div 4096) mod 256 = (unat y div 4096) mod 256"
    by (metis div_mult_mod_eq)
  finally show ?thesis by (simp add: LEVEL1INDEX_eq LEVEL2INDEX_eq *)
qed

end
