(* ===== verification/Swap.thy ===== *)
theory Swap
  imports VmState
begin

unbundle bit_operations_syntax

text \<open>
  The swap space of \<open>kern/vm/swapspace.c\<close>: a table with one entry per page of the swap device,
  searched by virtual address, and the transfer of a page between a frame and the device.
  The kernel \<open>uio\<close> that \<open>swap_in\<close> and \<open>swap_out\<close> build names one page of kernel memory and one
  page of the device at \<open>offset\<close>, which is what \<open>copy_block\<close> moves. Messages and interrupt
  levels are not modelled.
\<close>

definition INIT_STACKPAGES :: nat where "INIT_STACKPAGES = 12"

section \<open>Operations\<close>

definition swapspace_init :: "int \<Rightarrow> vm \<Rightarrow> vm res" where
  "swapspace_init st_size s =
     (let swapspace_size = (of_int (st_size div 4096) :: u32)
      in rbind (vm_kmalloc (swapspace_size * sizeof_page_table_entry) s) (\<lambda>(p, s).
        if p = 0 \<and> swapspace_size \<noteq> 0 then Inl NullDeref
        else Inr (s\<lparr>swapspace := map (\<lambda>i.
               (junk_pte s (p + of_nat i * sizeof_page_table_entry))
                 \<lparr>physical_addr := of_nat i * PAGE_SIZE\<rparr>) [0..<unat swapspace_size]\<rparr>)))"

text \<open>The search loop of \<open>swapspace_insert\<close>: the position of the first entry not in use.\<close>

fun free_pos :: "page_table_entry list \<Rightarrow> nat" where
  "free_pos [] = 0"
| "free_pos (e # es) = (if \<not> valid_bit e then 0 else Suc (free_pos es))"

definition swapspace_insert :: "u32 \<Rightarrow> int \<Rightarrow> vm \<Rightarrow> (u32 \<times> vm) res" where
  "swapspace_insert vaddr pid s =
     (let s = s\<lparr>swap_insertions := swap_insertions s + 1\<rparr>;
          pos = free_pos (swapspace s)
      in KASSERT (pos < length (swapspace s))
           (Inr (0, s\<lparr>swapspace := (swapspace s)[pos := (swapspace s ! pos)
              \<lparr>virtual_addr := vaddr, counter := 0, pte_pid := pid, valid_bit := True\<rparr>]\<rparr>)))"

definition insert_page :: "(nat \<Rightarrow> u32) \<Rightarrow> int \<Rightarrow> nat \<Rightarrow> vm \<Rightarrow> vm res" where
  "insert_page vaddr pid i s =
     rbind (swapspace_insert (vaddr i) pid s) (\<lambda>(_, s). Inr s)"

definition swapspace_load_as :: "u32 \<Rightarrow> vm \<Rightarrow> vm res" where
  "swapspace_load_as asp s =
     rbind (deref (spaces s) asp) (\<lambda>a.
     rbind (rfold (insert_page (\<lambda>i. as_vbase1 a + of_nat i * PAGE_SIZE) (as_pid a))
              [0..<unat (as_npages1 a)] s) (\<lambda>s.
     rbind (rfold (insert_page (\<lambda>i. as_vbase2 a + of_nat i * PAGE_SIZE) (as_pid a))
              [0..<unat (as_npages2 a)] s) (\<lambda>s.
     rfold (insert_page (\<lambda>i. USERSTACK - (of_nat i + 1) * PAGE_SIZE) (as_pid a))
              [0..<INIT_STACKPAGES] s)))"

definition swapspace_remove :: "int \<Rightarrow> vm \<Rightarrow> u32 \<times> vm" where
  "swapspace_remove pid s =
     (0, s\<lparr>swapspace := map (\<lambda>e. if pte_pid e = pid then e\<lparr>valid_bit := False\<rparr> else e) (swapspace s)\<rparr>)"

text \<open>The search of \<open>swap_in\<close> and \<open>swap_out\<close>: the device offset of the first entry for the page.\<close>

fun swap_offset :: "u32 \<Rightarrow> page_table_entry list \<Rightarrow> u32 option" where
  "swap_offset va [] = None"
| "swap_offset va (e # es) =
     (if virtual_addr e = va then Some (physical_addr e) else swap_offset va es)"

definition frame_kva :: "u32 \<Rightarrow> u32" where
  "frame_kva paddr = PADDR_TO_KVADDR (paddr AND PAGE_FRAME)"

definition swap_in :: "u32 \<Rightarrow> u32 \<Rightarrow> vm \<Rightarrow> vm res" where
  "swap_in vaddr paddr s =
     (case swap_offset vaddr (swapspace s) of
        None \<Rightarrow> Inl AssertFail
      | Some offset \<Rightarrow>
          if swap_result s offset \<noteq> 0 then Inl Panic
          else Inr (s\<lparr>kh := (kh s)\<lparr>kmem :=
            copy_block (frame_kva paddr) (kmem (kh s)) offset (swap_disk s) PAGE_SIZE\<rparr>\<rparr>))"

definition swap_out :: "u32 \<Rightarrow> u32 \<Rightarrow> vm \<Rightarrow> vm res" where
  "swap_out vaddr paddr s =
     (case swap_offset vaddr (swapspace s) of
        None \<Rightarrow> Inl AssertFail
      | Some offset \<Rightarrow>
          if swap_result s offset \<noteq> 0 then Inl Panic
          else Inr (s\<lparr>swap_disk :=
            copy_block offset (swap_disk s) (frame_kva paddr) (kmem (kh s)) PAGE_SIZE\<rparr>))"

definition num_swap_insertions :: "vm \<Rightarrow> int" where
  "num_swap_insertions s = swap_insertions s"

end
