(* ===== verification/Replace.thy ===== *)
theory Replace
  imports VmState
begin

text \<open>
  The page replacement policies of \<open>kern/vm/addrspace.c\<close>. Each returns the physical address of the
  frame to reuse. The hands are indices into the page frame table; an index outside the
  table is a fault. \<open>random()\<close> of the random device is an argument.
\<close>

definition set_ref :: "nat \<Rightarrow> bool \<Rightarrow> page_table_entry list \<Rightarrow> page_table_entry list res" where
  "set_ref i b t = rbind (aget t i) (\<lambda>e. aset t i (e\<lparr>ref_bit := b\<rparr>))"

definition random_replace :: "nat \<Rightarrow> vm \<Rightarrow> u32 res" where
  "random_replace random s =
     (let n = random mod MAX_PM_SIZE in rbind (aget (pft s) n) (\<lambda>e. Inr (physical_addr e)))"

text \<open>
  The loop of \<open>one_handed_replace\<close>; \<open>n\<close> counts the iterations left. On a frame that was not
  referenced the hand is advanced without wrapping it around, and the loop ends.
\<close>

fun one_handed_loop :: "nat \<Rightarrow> vm \<Rightarrow> vm res" where
  "one_handed_loop 0 s = Inr s"
| "one_handed_loop (Suc n) s =
     rbind (aget (pft s) (clock_hand s)) (\<lambda>e.
       if \<not> ref_bit e then Inr (s\<lparr>clock_hand := clock_hand s + 1\<rparr>)
       else rbind (set_ref (clock_hand s) False (pft s)) (\<lambda>t.
         one_handed_loop n (s\<lparr>pft := t, clock_hand := (clock_hand s + 1) mod MAX_PM_SIZE\<rparr>)))"

definition one_handed_replace :: "vm \<Rightarrow> (u32 \<times> vm) res" where
  "one_handed_replace s =
     rbind (one_handed_loop (MAX_PM_SIZE + 2) s) (\<lambda>s.
     rbind (aget (pft s) (clock_hand s mod MAX_PM_SIZE)) (\<lambda>e.
       Inr (physical_addr e, s\<lparr>clock_hand := (clock_hand s + 1) mod MAX_PM_SIZE\<rparr>)))"

definition advance_hands :: "vm \<Rightarrow> vm" where
  "advance_hands s =
     s\<lparr>ep_hand := (ep_hand s + 1) mod MAX_PM_SIZE, rp_hand := (rp_hand s + 1) mod MAX_PM_SIZE\<rparr>"

fun second_chance_loop :: "nat \<Rightarrow> vm \<Rightarrow> vm res" where
  "second_chance_loop 0 s = Inr s"
| "second_chance_loop (Suc n) s =
     rbind (aget (pft s) (ep_hand s)) (\<lambda>e.
       if \<not> ref_bit e then Inr s
       else rbind (set_ref (rp_hand s) False (pft s)) (\<lambda>t.
         second_chance_loop n (advance_hands (s\<lparr>pft := t\<rparr>))))"

definition second_chance_replace :: "vm \<Rightarrow> (u32 \<times> vm) res" where
  "second_chance_replace s =
     rbind (second_chance_loop (CLOCK_ANGLE + 2) s) (\<lambda>s.
     rbind (aget (pft s) (ep_hand s mod MAX_PM_SIZE)) (\<lambda>e.
       Inr (physical_addr e, advance_hands s)))"

text \<open>The search of \<open>lru_replace\<close> for the first frame that was not referenced.\<close>

fun find_unref :: "nat \<Rightarrow> page_table_entry list \<Rightarrow> nat option" where
  "find_unref i [] = None"
| "find_unref i (e # es) = (if \<not> ref_bit e then Some i else find_unref (Suc i) es)"

definition lru_replace :: "nat \<Rightarrow> vm \<Rightarrow> u32 res" where
  "lru_replace random s =
     (case find_unref 0 (take MAX_PM_SIZE (pft s)) of
        Some i \<Rightarrow> rbind (aget (pft s) i) (\<lambda>e. Inr (physical_addr e))
      | None \<Rightarrow> rbind (random_replace random s) (\<lambda>pa.
          rbind (aget (pft s) (unat pa)) (\<lambda>e. Inr (physical_addr e))))"

definition replace_page :: "vm \<Rightarrow> (u32 \<times> vm) res" where
  "replace_page s = second_chance_replace (s\<lparr>cnt_page_repl := cnt_page_repl s + 1\<rparr>)"

definition count_page_replacement_calls :: "vm \<Rightarrow> int" where
  "count_page_replacement_calls s = cnt_page_repl s"

section \<open>The frame pool\<close>

text \<open>
  What the policies rely on: the table describes the pool of contiguous frames that starts at
  \<open>physical_base_addr\<close>, and the two hands of the second-chance clock are \<open>CLOCK_ANGLE\<close> apart.
\<close>

definition frame_addr :: "vm \<Rightarrow> nat \<Rightarrow> u32" where
  "frame_addr s i = physical_base_addr s + of_nat i * PAGE_SIZE"

definition pool_ok :: "vm \<Rightarrow> bool" where
  "pool_ok s \<longleftrightarrow> length (pft s) = MAX_PM_SIZE
     \<and> unat (physical_base_addr s) mod 4096 = 0
     \<and> unat (physical_base_addr s) + MAX_PM_SIZE * 4096 \<le> 508 * 1024 * 1024
     \<and> (\<forall>i < MAX_PM_SIZE. physical_addr (pft s ! i) = frame_addr s i)
     \<and> clock_hand s < MAX_PM_SIZE \<and> ep_hand s < MAX_PM_SIZE
     \<and> rp_hand s = (ep_hand s + CLOCK_ANGLE) mod MAX_PM_SIZE"

text \<open>The part of a frame's record that a policy may not change.\<close>

definition no_ref :: "page_table_entry \<Rightarrow> page_table_entry" where
  "no_ref e = e\<lparr>ref_bit := False\<rparr>"

lemma no_ref_sel [simp]:
  "physical_addr (no_ref e) = physical_addr e" "virtual_addr (no_ref e) = virtual_addr e"
  "valid_bit (no_ref e) = valid_bit e" "dirty_bit (no_ref e) = dirty_bit e"
  "p_space (no_ref e) = p_space e" "no_ref (e\<lparr>ref_bit := b\<rparr>) = no_ref e"
  by (simp_all add: no_ref_def)

lemma no_ref_eqD:
  assumes "no_ref e = no_ref f"
  shows "physical_addr e = physical_addr f" "virtual_addr e = virtual_addr f"
    "valid_bit e = valid_bit f" "p_space e = p_space f"
  using assms by (metis no_ref_sel)+

lemma map_no_ref_update [simp]:
  "i < length t \<Longrightarrow> map no_ref (t[i := (t ! i)\<lparr>ref_bit := b\<rparr>]) = map no_ref t"
  by (simp add: map_update) (metis list_update_id map_update)

text \<open>Two states that differ in reference bits, hands and the replacement counter only.\<close>

definition same_frames :: "vm \<Rightarrow> vm \<Rightarrow> bool" where
  "same_frames s s' \<longleftrightarrow> map no_ref (pft s') = map no_ref (pft s)
     \<and> s' = s\<lparr>pft := pft s', clock_hand := clock_hand s', ep_hand := ep_hand s',
             rp_hand := rp_hand s', cnt_page_repl := cnt_page_repl s'\<rparr>"

lemma same_frames_refl [simp]: "same_frames s s"
  by (simp add: same_frames_def)

lemma same_frames_trans: "same_frames s s' \<Longrightarrow> same_frames s' s'' \<Longrightarrow> same_frames s s''"
  by (cases s, cases s', cases s'') (simp add: same_frames_def)

lemma same_frames_nth:
  assumes "same_frames s s'" "i < length (pft s)"
  shows "no_ref (pft s' ! i) = no_ref (pft s ! i)"
proof -
  have "length (pft s') = length (pft s)" using assms(1) map_eq_imp_length_eq
    by (auto simp: same_frames_def)
  then have "map no_ref (pft s') ! i = no_ref (pft s' ! i)" using assms(2) by simp
  then show ?thesis using assms by (simp add: same_frames_def)
qed

lemma same_frames_sel:
  assumes "same_frames s s'"
  shows "length (pft s') = length (pft s)" "physical_base_addr s' = physical_base_addr s"
    "spaces s' = spaces s" "l2tabs s' = l2tabs s" "ts s' = ts s" "kh s' = kh s"
    "swapspace s' = swapspace s" "swap_disk s' = swap_disk s" "swap_result s' = swap_result s"
proof -
  have "map no_ref (pft s') = map no_ref (pft s)" using assms by (simp add: same_frames_def)
  then show "length (pft s') = length (pft s)" by (rule map_eq_imp_length_eq)
  have *: "s' = s\<lparr>pft := pft s', clock_hand := clock_hand s', ep_hand := ep_hand s',
             rp_hand := rp_hand s', cnt_page_repl := cnt_page_repl s'\<rparr>"
    using assms by (simp add: same_frames_def)
  show "physical_base_addr s' = physical_base_addr s" by (subst *) simp
  show "spaces s' = spaces s" by (subst *) simp
  show "l2tabs s' = l2tabs s" by (subst *) simp
  show "ts s' = ts s" by (subst *) simp
  show "kh s' = kh s" by (subst *) simp
  show "swapspace s' = swapspace s" by (subst *) simp
  show "swap_disk s' = swap_disk s" by (subst *) simp
  show "swap_result s' = swap_result s" by (subst *) simp
qed

section \<open>The second-chance clock\<close>

text \<open>
  The state after the eviction hand has passed over \<open>n\<close> referenced frames: both hands have
  moved \<open>n\<close> places and the leading hand has cleared the \<open>n\<close> frames it met.
\<close>

fun clock_steps :: "nat \<Rightarrow> vm \<Rightarrow> vm" where
  "clock_steps 0 s = s"
| "clock_steps (Suc n) s =
     (let s = clock_steps n s
      in advance_hands (s\<lparr>pft := (pft s)[rp_hand s := (pft s ! rp_hand s)\<lparr>ref_bit := False\<rparr>]\<rparr>))"

text \<open>How many frames the eviction hand passes over: at most \<open>CLOCK_ANGLE\<close>.\<close>

definition clock_pos :: "vm \<Rightarrow> nat \<Rightarrow> nat" where
  "clock_pos s d = (ep_hand s + d) mod MAX_PM_SIZE"

definition clock_scan :: "vm \<Rightarrow> nat" where
  "clock_scan s = length (takeWhile (\<lambda>d. ref_bit (pft s ! clock_pos s d)) [0..<CLOCK_ANGLE])"

lemma clock_pos_less [simp]: "clock_pos s d < MAX_PM_SIZE"
  by (simp add: clock_pos_def MAX_PM_SIZE_def)

lemma clock_steps_hands:
  assumes "pool_ok s"
  shows "ep_hand (clock_steps n s) = clock_pos s n
    \<and> rp_hand (clock_steps n s) = clock_pos s (CLOCK_ANGLE + n)"
proof (induction n)
  case 0
  then show ?case using assms by (simp add: pool_ok_def clock_pos_def)
next
  case (Suc n)
  then show ?case
    by (simp add: Let_def advance_hands_def clock_pos_def mod_simps add.assoc)
qed

lemma clock_steps_length [simp]: "length (pft (clock_steps n s)) = length (pft s)"
  by (induction n) (simp_all add: Let_def advance_hands_def)

lemma clock_steps_shape:
  "\<exists>t e r. clock_steps n s = s\<lparr>pft := t, ep_hand := e, rp_hand := r\<rparr>"
proof (induction n)
  case 0
  have "clock_steps 0 s = s\<lparr>pft := pft s, ep_hand := ep_hand s, rp_hand := rp_hand s\<rparr>" by simp
  then show ?case by blast
next
  case (Suc n)
  then obtain t e r where "clock_steps n s = s\<lparr>pft := t, ep_hand := e, rp_hand := r\<rparr>" by blast
  then show ?case by (simp add: advance_hands_def) blast
qed

lemma clock_steps_no_ref:
  "pool_ok s \<Longrightarrow> map no_ref (pft (clock_steps n s)) = map no_ref (pft s)"
proof (induction n)
  case (Suc n)
  then have "rp_hand (clock_steps n s) < length (pft (clock_steps n s))"
    using clock_steps_hands by (simp add: pool_ok_def)
  with Suc show ?case by (simp add: Let_def advance_hands_def)
qed simp

lemma clock_steps_same_frames:
  assumes "pool_ok s"
  shows "same_frames s (clock_steps n s)"
proof -
  obtain t e r where "clock_steps n s = s\<lparr>pft := t, ep_hand := e, rp_hand := r\<rparr>"
    using clock_steps_shape by blast
  then show ?thesis using clock_steps_no_ref [OF assms, of n] by (simp add: same_frames_def)
qed

text \<open>The leading hand clears exactly the frames it passes.\<close>

lemma clock_steps_ref:
  assumes "pool_ok s" "i < MAX_PM_SIZE"
  shows "ref_bit (pft (clock_steps n s) ! i) \<longleftrightarrow>
    ref_bit (pft s ! i) \<and> (\<forall>m < n. i \<noteq> clock_pos s (CLOCK_ANGLE + m))"
proof (induction n)
  case (Suc n)
  have "length (pft s) = MAX_PM_SIZE" using assms by (simp add: pool_ok_def)
  then show ?case
    using Suc clock_steps_hands [OF assms(1), of n] assms(2)
    by (auto simp: Let_def advance_hands_def nth_list_update less_Suc_eq)
qed simp

lemma clock_pos_inj:
  "d < MAX_PM_SIZE \<Longrightarrow> d' < MAX_PM_SIZE \<Longrightarrow> clock_pos s d = clock_pos s d' \<longleftrightarrow> d = d'"
  by (simp add: clock_pos_def add_mod_inj)

lemma clock_steps_ref_ahead:
  assumes "pool_ok s" "n \<le> CLOCK_ANGLE" "d < CLOCK_ANGLE"
  shows "ref_bit (pft (clock_steps n s) ! clock_pos s d) \<longleftrightarrow> ref_bit (pft s ! clock_pos s d)"
proof -
  have "clock_pos s d \<noteq> clock_pos s (CLOCK_ANGLE + m)" if "m < n" for m
    using that assms by (subst clock_pos_inj) (simp_all add: MAX_PM_SIZE_def CLOCK_ANGLE_def)
  then show ?thesis using assms by (simp add: clock_steps_ref)
qed

lemma second_chance_loop_steps:
  assumes "pool_ok s" "n \<le> CLOCK_ANGLE" "\<forall>d < n. ref_bit (pft s ! clock_pos s d)"
  shows "second_chance_loop (n + f) s = second_chance_loop f (clock_steps n s)"
  using assms(2,3)
proof (induction n arbitrary: f)
  case (Suc n)
  have len: "length (pft (clock_steps n s)) = MAX_PM_SIZE"
    using assms(1) by (simp add: pool_ok_def)
  have "second_chance_loop (Suc n + f) s = second_chance_loop (Suc f) (clock_steps n s)"
    using Suc.IH [of "Suc f"] Suc.prems by simp
  also have "\<dots> = second_chance_loop f (clock_steps (Suc n) s)"
    using Suc.prems clock_steps_hands [OF assms(1), of n] len
      clock_steps_ref_ahead [OF assms(1), of n n]
    by (simp add: set_ref_def Let_def)
  finally show ?case .
qed simp

lemma clock_scan_bound: "clock_scan s \<le> CLOCK_ANGLE"
  using length_takeWhile_le [of _ "[0..<CLOCK_ANGLE]"] by (simp add: clock_scan_def)

lemma clock_scan_passed: "d < clock_scan s \<Longrightarrow> ref_bit (pft s ! clock_pos s d)"
proof -
  assume d: "d < clock_scan s"
  let ?P = "\<lambda>d. ref_bit (pft s ! clock_pos s d)"
  have "takeWhile ?P [0..<CLOCK_ANGLE] ! d = d"
    using d clock_scan_bound [of s] by (simp add: clock_scan_def takeWhile_nth)
  moreover have "takeWhile ?P [0..<CLOCK_ANGLE] ! d \<in> set (takeWhile ?P [0..<CLOCK_ANGLE])"
    using d by (simp add: clock_scan_def)
  ultimately show ?thesis by (metis (mono_tags, lifting) set_takeWhileD)
qed

lemma clock_scan_stop: "clock_scan s < CLOCK_ANGLE \<Longrightarrow> \<not> ref_bit (pft s ! clock_pos s (clock_scan s))"
  using nth_length_takeWhile [of "\<lambda>d. ref_bit (pft s ! clock_pos s d)" "[0..<CLOCK_ANGLE]"]
  by (simp add: clock_scan_def)

lemma clock_scan_victim:
  assumes "pool_ok s"
  shows "\<not> ref_bit (pft (clock_steps (clock_scan s) s) ! clock_pos s (clock_scan s))"
proof (cases "clock_scan s < CLOCK_ANGLE")
  case True
  then show ?thesis using clock_scan_stop assms by (simp add: clock_steps_ref)
next
  case False
  then have "clock_scan s = CLOCK_ANGLE" using clock_scan_bound [of s] by simp
  then have "\<exists>m < clock_scan s. clock_pos s (clock_scan s) = clock_pos s (CLOCK_ANGLE + m)"
    by (auto simp: CLOCK_ANGLE_def intro!: exI [of _ 0])
  then show ?thesis using assms by (auto simp: clock_steps_ref)
qed

lemma second_chance_loop_eq:
  assumes "pool_ok s"
  shows "second_chance_loop (CLOCK_ANGLE + 2) s = Inr (clock_steps (clock_scan s) s)"
proof -
  let ?n = "clock_scan s"
  have "second_chance_loop (CLOCK_ANGLE + 2) s
      = second_chance_loop (?n + Suc (CLOCK_ANGLE - ?n + 1)) s"
    using clock_scan_bound [of s] by (simp add: add.commute)
  also have "\<dots> = second_chance_loop (Suc (CLOCK_ANGLE - ?n + 1)) (clock_steps ?n s)"
    using assms clock_scan_bound clock_scan_passed by (intro second_chance_loop_steps) auto
  also have "\<dots> = Inr (clock_steps ?n s)"
    using assms clock_scan_victim [OF assms] clock_steps_hands [OF assms, of ?n]
    by (simp add: pool_ok_def)
  finally show ?thesis .
qed

lemma same_frames_addr:
  assumes "same_frames s s'" "pool_ok s" "i < MAX_PM_SIZE"
  shows "physical_addr (pft s' ! i) = frame_addr s i"
  using same_frames_nth [OF assms(1), of i] assms(2,3) no_ref_eqD(1) by (metis pool_ok_def)

lemma second_chance_replace_eq:
  assumes "pool_ok s"
  shows "second_chance_replace s =
    Inr (frame_addr s (clock_pos s (clock_scan s)), advance_hands (clock_steps (clock_scan s) s))"
proof -
  let ?s = "clock_steps (clock_scan s) s"
  have "ep_hand ?s mod MAX_PM_SIZE = clock_pos s (clock_scan s)"
    using clock_steps_hands [OF assms] by simp
  moreover have "length (pft ?s) = MAX_PM_SIZE" using assms by (simp add: pool_ok_def)
  ultimately show ?thesis
    using second_chance_loop_eq [OF assms] same_frames_addr [OF clock_steps_same_frames [OF assms] assms]
    by (simp add: second_chance_replace_def)
qed

lemma pool_ok_same_frames:
  assumes "pool_ok s" "same_frames s s'" "clock_hand s' < MAX_PM_SIZE" "ep_hand s' < MAX_PM_SIZE"
    and "rp_hand s' = (ep_hand s' + CLOCK_ANGLE) mod MAX_PM_SIZE"
  shows "pool_ok s'"
proof -
  have "frame_addr s' = frame_addr s"
    using same_frames_sel(2) [OF assms(2)] by (intro ext) (simp add: frame_addr_def)
  then show ?thesis
    using assms same_frames_sel(1,2) [OF assms(2)] same_frames_addr [OF assms(2,1)]
    by (simp add: pool_ok_def)
qed

lemma advance_hands_same_frames [simp]: "same_frames s (advance_hands s)"
  by (simp add: same_frames_def advance_hands_def)

lemma clock_steps_clock_hand [simp]: "clock_hand (clock_steps n s) = clock_hand s"
  by (induction n) (simp_all add: Let_def advance_hands_def)

section \<open>The contract of a policy\<close>

text \<open>
  What the page replacement of \<open>virtual_alloc_kpages\<close> relies on: the policy returns the address
  of a frame of the pool, and changes only reference bits and hands.
\<close>

locale replacement_policy =
  fixes policy :: "vm \<Rightarrow> (u32 \<times> vm) res"
  assumes policy_picks: "pool_ok s \<Longrightarrow>
    \<exists>i s'. policy s = Inr (frame_addr s i, s') \<and> i < MAX_PM_SIZE \<and> same_frames s s' \<and> pool_ok s'"

lemma second_chance_replace_pool:
  assumes "pool_ok s"
  shows "pool_ok (advance_hands (clock_steps n s))"
proof (rule pool_ok_same_frames [OF assms])
  show "same_frames s (advance_hands (clock_steps n s))"
    using same_frames_trans clock_steps_same_frames [OF assms] advance_hands_same_frames by blast
  show "clock_hand (advance_hands (clock_steps n s)) < MAX_PM_SIZE"
    using assms by (simp add: advance_hands_def pool_ok_def)
  show "ep_hand (advance_hands (clock_steps n s)) < MAX_PM_SIZE"
    by (simp add: advance_hands_def MAX_PM_SIZE_def)
  show "rp_hand (advance_hands (clock_steps n s))
      = (ep_hand (advance_hands (clock_steps n s)) + CLOCK_ANGLE) mod MAX_PM_SIZE"
    using clock_steps_hands [OF assms, of n]
    by (simp add: advance_hands_def clock_pos_def mod_simps ac_simps)
qed

lemma second_chance_policy:
  assumes "pool_ok s"
  shows "\<exists>i s'. second_chance_replace s = Inr (frame_addr s i, s')
    \<and> i < MAX_PM_SIZE \<and> same_frames s s' \<and> pool_ok s'"
  using second_chance_replace_eq [OF assms] second_chance_replace_pool [OF assms]
    same_frames_trans [OF clock_steps_same_frames [OF assms] advance_hands_same_frames] clock_pos_less
  by blast

interpretation second_chance: replacement_policy second_chance_replace
  by unfold_locales (rule second_chance_policy)

interpretation replace: replacement_policy replace_page
proof unfold_locales
  fix s
  assume "pool_ok s"
  let ?s = "s\<lparr>cnt_page_repl := cnt_page_repl s + 1\<rparr>"
  have same: "same_frames s ?s" by (simp add: same_frames_def)
  have "pool_ok ?s" using \<open>pool_ok s\<close> by (simp add: pool_ok_def frame_addr_def)
  then obtain i s' where "replace_page s = Inr (frame_addr ?s i, s')" "i < MAX_PM_SIZE"
      "same_frames ?s s'" "pool_ok s'"
    using second_chance_policy [of ?s] unfolding replace_page_def by blast
  moreover have "frame_addr ?s i = frame_addr s i" by (simp add: frame_addr_def)
  ultimately show "\<exists>i s'. replace_page s = Inr (frame_addr s i, s')
      \<and> i < MAX_PM_SIZE \<and> same_frames s s' \<and> pool_ok s'"
    using same_frames_trans [OF same] by metis
qed

lemma one_handed_loop_keeps:
  assumes "pool_ok s"
  shows "\<exists>s'. one_handed_loop n s = Inr s' \<and> same_frames s s' \<and> clock_hand s' \<le> MAX_PM_SIZE
    \<and> ep_hand s' = ep_hand s \<and> rp_hand s' = rp_hand s"
  using assms
proof (induction n arbitrary: s)
  case 0
  then show ?case by (auto simp: pool_ok_def)
next
  case (Suc n)
  then have hand: "clock_hand s < length (pft s)" by (simp add: pool_ok_def)
  show ?case
  proof (cases "ref_bit (pft s ! clock_hand s)")
    case False
    then have "one_handed_loop (Suc n) s = Inr (s\<lparr>clock_hand := clock_hand s + 1\<rparr>)"
      using hand by simp
    moreover have "same_frames s (s\<lparr>clock_hand := clock_hand s + 1\<rparr>)" by (simp add: same_frames_def)
    ultimately show ?thesis using hand Suc.prems by (simp add: pool_ok_def)
  next
    case True
    let ?s = "s\<lparr>pft := (pft s)[clock_hand s := (pft s ! clock_hand s)\<lparr>ref_bit := False\<rparr>],
               clock_hand := (clock_hand s + 1) mod MAX_PM_SIZE\<rparr>"
    have same: "same_frames s ?s" using hand by (simp add: same_frames_def)
    have "pool_ok ?s"
      using Suc.prems by (intro pool_ok_same_frames [OF Suc.prems same])
        (simp_all add: pool_ok_def MAX_PM_SIZE_def)
    from Suc.IH [OF this] obtain s' where "one_handed_loop n ?s = Inr s'" "same_frames ?s s'"
        "clock_hand s' \<le> MAX_PM_SIZE" "ep_hand s' = ep_hand s" "rp_hand s' = rp_hand s" by auto
    moreover have "one_handed_loop (Suc n) s = one_handed_loop n ?s"
      using True hand by (simp add: set_ref_def)
    ultimately show ?thesis using same_frames_trans [OF same] by metis
  qed
qed

interpretation one_handed: replacement_policy one_handed_replace
proof unfold_locales
  fix s
  assume pool: "pool_ok s"
  obtain s' where s': "one_handed_loop (MAX_PM_SIZE + 2) s = Inr s'" "same_frames s s'"
      "ep_hand s' = ep_hand s" "rp_hand s' = rp_hand s"
    using one_handed_loop_keeps [OF pool] by metis
  let ?i = "clock_hand s' mod MAX_PM_SIZE"
  let ?t = "s'\<lparr>clock_hand := (clock_hand s' + 1) mod MAX_PM_SIZE\<rparr>"
  have i: "?i < MAX_PM_SIZE" by (simp add: MAX_PM_SIZE_def)
  have "length (pft s') = MAX_PM_SIZE" using same_frames_sel(1) [OF s'(2)] pool by (simp add: pool_ok_def)
  then have "one_handed_replace s = Inr (frame_addr s ?i, ?t)"
    using s'(1) i same_frames_addr [OF s'(2) pool i] by (simp add: one_handed_replace_def)
  moreover have "same_frames s' ?t" by (simp add: same_frames_def)
  then have same: "same_frames s ?t" using same_frames_trans [OF s'(2)] by blast
  moreover have "pool_ok ?t"
    using pool s'(3,4) by (intro pool_ok_same_frames [OF pool same]) (simp_all add: pool_ok_def MAX_PM_SIZE_def)
  ultimately show "\<exists>i s'. one_handed_replace s = Inr (frame_addr s i, s')
      \<and> i < MAX_PM_SIZE \<and> same_frames s s' \<and> pool_ok s'"
    using i by blast
qed

interpretation random: replacement_policy "\<lambda>s. rbind (random_replace r s) (\<lambda>pa. Inr (pa, s))" for r
proof unfold_locales
  fix s
  assume pool: "pool_ok s"
  let ?i = "r mod MAX_PM_SIZE"
  have i: "?i < MAX_PM_SIZE" by (simp add: MAX_PM_SIZE_def)
  then have "random_replace r s = Inr (frame_addr s ?i)"
    using pool by (simp add: random_replace_def pool_ok_def)
  then show "\<exists>i s'. rbind (random_replace r s) (\<lambda>pa. Inr (pa, s)) = Inr (frame_addr s i, s')
      \<and> i < MAX_PM_SIZE \<and> same_frames s s' \<and> pool_ok s'"
    using i pool by (metis rbind_Inr same_frames_refl)
qed

end
