(* ===== verification/AddrSpace.thy ===== *)
theory AddrSpace
  imports Swap Replace
begin

unbundle bit_operations_syntax

text \<open>
  Page tables, frame allocation and address spaces of \<open>kern/vm/addrspace.c\<close>, \<open>vm_bootstrap\<close> of
  \<open>kern/vm/swapspace.c\<close> and the fault handler \<open>vm_fault\<close>. The macro
  \<open>TLB_ENTRIES_INVALIDATE\<close> is not defined and \<open>SWAP_TEST\<close> is true, as in the source. The
  thread's address space is an argument of \<open>vm_fault\<close>. The spinlock around frame
  allocation is not modelled: each operation is one atomic step.
\<close>

section \<open>Frames\<close>

text \<open>\<open>(paddr - physical_base_addr) >> 12\<close>, and the same with a division by 4096.\<close>

definition frame_index :: "u32 \<Rightarrow> vm \<Rightarrow> nat" where
  "frame_index paddr s = unat (drop_bit 12 (paddr - physical_base_addr s))"

definition frame_index_div :: "u32 \<Rightarrow> vm \<Rightarrow> nat" where
  "frame_index_div paddr s = unat ((paddr - physical_base_addr s) div 4096)"

fun set_frames :: "u32 \<Rightarrow> page_table_entry list \<Rightarrow> page_table_entry list" where
  "set_frames pa [] = []"
| "set_frames pa (e # es) = e\<lparr>valid_bit := False, physical_addr := pa\<rparr> # set_frames (pa + PAGE_SIZE) es"

text \<open>
  The local variable \<open>physical_base_addr\<close> of the source hides the global one, which keeps its
  value.
\<close>

definition page_frame_table_bootstrap :: "vm \<Rightarrow> int \<times> vm" where
  "page_frame_table_bootstrap s =
     (let s = s\<lparr>clock_hand := 0, ep_hand := 0, rp_hand := CLOCK_ANGLE, cnt_page_repl := 0\<rparr>;
          (pa, h) = getppages (of_nat MAX_PM_SIZE) (kh s)
      in (0, s\<lparr>kh := h, pft := set_frames pa (pft s)\<rparr>))"

text \<open>The search loop of \<open>virtual_alloc_page\<close>; the index is the table size when all are valid.\<close>

definition virtual_alloc_page :: "vm \<Rightarrow> (u32 \<times> vm) res" where
  "virtual_alloc_page s =
     (let i = free_pos (pft s)
      in rbind (aget (pft s) i) (\<lambda>e.
         Inr (physical_addr e,
              s\<lparr>pft := (pft s)[i := e\<lparr>valid_bit := True, dirty_bit := False, ref_bit := False\<rparr>]\<rparr>)))"

section \<open>Page tables\<close>

definition set_l2 :: "u32 \<Rightarrow> nat \<Rightarrow> (page_table_entry \<Rightarrow> page_table_entry) \<Rightarrow> vm \<Rightarrow> vm res" where
  "set_l2 p i f s =
     rbind (deref (l2tabs s) p) (\<lambda>t.
       Inr (s\<lparr>l2tabs := (l2tabs s)(p \<mapsto> t\<lparr>pt_table := (pt_table t)(i := f (pt_table t i))\<rparr>)\<rparr>))"

definition invalidate_all :: "page_table_level2 \<Rightarrow> page_table_level2" where
  "invalidate_all t =
     t\<lparr>pt_table := (\<lambda>i. if i < MAX_LEVEL2_PT then (pt_table t i)\<lparr>valid_bit := False\<rparr>
                         else pt_table t i)\<rparr>"

definition new_level2 :: "u32 \<Rightarrow> nat \<Rightarrow> addrspace \<Rightarrow> vm \<Rightarrow> vm res" where
  "new_level2 tbl vaddr1 a s =
     rbind (vm_kmalloc sizeof_page_table_level2 s) (\<lambda>(p, s).
       if p = 0 then Inl NullDeref
       else Inr (s\<lparr>spaces := (spaces s)(tbl \<mapsto> a\<lparr>as_table := (as_table a)(vaddr1 := p)\<rparr>),
                   l2tabs := (l2tabs s)(p \<mapsto> invalidate_all (junk_l2 s p))\<rparr>))"

definition add_page_entry :: "u32 \<Rightarrow> u32 \<Rightarrow> u32 \<Rightarrow> vm \<Rightarrow> (int \<times> vm) res" where
  "add_page_entry tbl vadr paddr s =
     rbind (deref (spaces s) tbl) (\<lambda>a.
     let vaddr1 = LEVEL1INDEX vadr
     in rbind (if as_table a vaddr1 = 0 then new_level2 tbl vaddr1 a s else Inr s) (\<lambda>s.
     rbind (deref (spaces s) tbl) (\<lambda>a.
     rbind (deref (l2tabs s) (as_table a vaddr1)) (\<lambda>t.
     let vaddr2 = LEVEL2INDEX vadr;
         e = (pt_table t vaddr2)\<lparr>physical_addr := paddr, virtual_addr := vadr,
               valid_bit := True, dirty_bit := False, ref_bit := False\<rparr>;
         t = t\<lparr>pt_table := (pt_table t)(vaddr2 := e), pt_size := pt_size t + 1\<rparr>;
         s = s\<lparr>l2tabs := (l2tabs s)(as_table a vaddr1 \<mapsto> t)\<rparr>;
         p12 = frame_index paddr s
     in rbind (aget (pft s) p12) (\<lambda>f.
        Inr (0, s\<lparr>pft := (pft s)[p12 := f\<lparr>physical_addr := paddr, virtual_addr := vadr,
               valid_bit := True, dirty_bit := False, ref_bit := False, p_space := tbl\<rparr>]\<rparr>))))))"

section \<open>Allocating frames, with replacement\<close>

text \<open>
  The first loop of \<open>virtual_alloc_kpages\<close>: take free frames from the table until there are
  \<open>k\<close>. It returns the final \<open>i\<close> and \<open>j\<close>, the list and the table. Writing to a list that
  could not be allocated is a null pointer access.
\<close>

definition put_list :: "u32 \<Rightarrow> u32 list \<Rightarrow> nat \<Rightarrow> u32 \<Rightarrow> u32 list res" where
  "put_list p p_list j addr = (if p = 0 then Inl NullDeref else aset p_list j addr)"

function alloc_free :: "nat \<Rightarrow> nat \<Rightarrow> int \<Rightarrow> u32 \<Rightarrow> u32 list \<Rightarrow> page_table_entry list
    \<Rightarrow> (nat \<times> nat \<times> u32 list \<times> page_table_entry list) res" where
  "alloc_free i j k p p_list t =
     (if i < MAX_PM_SIZE \<and> int j < k
      then rbind (aget t i) (\<lambda>e.
        if \<not> valid_bit e
        then rbind (put_list p p_list j (physical_addr e)) (\<lambda>p_list.
          alloc_free (Suc i) (Suc j) k p p_list
            (t[i := e\<lparr>valid_bit := True, dirty_bit := False, ref_bit := False\<rparr>]))
        else alloc_free (Suc i) j k p p_list t)
      else Inr (i, j, p_list, t))"
  by pat_completeness auto
termination
  by (relation "measure (\<lambda>(i, j, k, p, p_list, t). MAX_PM_SIZE - i)") auto

declare alloc_free.simps [simp del]

text \<open>
  One round of the second loop: choose a frame, and evict the page that owns it. The page's
  entry becomes invalid, its contents go to the swap device, its translation is dropped.
\<close>

definition evict_frame :: "u32 \<Rightarrow> vm \<Rightarrow> vm res" where
  "evict_frame pa s =
     (let new_frame_index = frame_index_div pa s
      in rbind (aget (pft s) new_frame_index) (\<lambda>f.
         let old_page = virtual_addr f
         in rbind (deref (spaces s) (p_space f)) (\<lambda>p_space_old.
         rbind (set_l2 (as_table p_space_old (LEVEL1INDEX old_page)) (LEVEL2INDEX old_page)
                  (\<lambda>e. e\<lparr>valid_bit := False\<rparr>) s) (\<lambda>s.
         rbind (swap_out old_page pa s) (\<lambda>s.
         Inr (s\<lparr>ts := tlb_invalidate old_page (ts s)\<rparr>))))))"

definition evict_into :: "nat \<Rightarrow> u32 \<Rightarrow> u32 list \<times> vm \<Rightarrow> (u32 list \<times> vm) res" where
  "evict_into j p st =
     (let (p_list, s) = st
      in rbind (replace_page s) (\<lambda>(pa, s).
         rbind (put_list p p_list j pa) (\<lambda>p_list.
         rbind (evict_frame pa s) (\<lambda>s. Inr (p_list, s)))))"

definition virtual_alloc_kpages :: "int \<Rightarrow> vm \<Rightarrow> (u32 \<times> u32 list \<times> vm) res" where
  "virtual_alloc_kpages k s =
     rbind (vm_kmalloc (4 * of_int k) s) (\<lambda>(p, s).
     let p_list = map (\<lambda>j. load32 (kmem (kh s)) (p + 4 * of_nat j)) [0..<nat k]
     in rbind (alloc_free 0 0 k p p_list (pft s)) (\<lambda>(i, j, p_list, t).
        let s = s\<lparr>pft := t\<rparr>
        in if i = MAX_PM_SIZE
           then rbind (rfold (\<lambda>_. evict_into j p) [j..<nat k] (p_list, s)) (\<lambda>(p_list, s).
             Inr (p, p_list, s))
           else Inr (p, p_list, s)))"

section \<open>Translation\<close>

datatype faulttype = VM_FAULT_READ | VM_FAULT_WRITE | VM_FAULT_READONLY | VM_FAULT_OTHER

definition set_frame_ref :: "u32 \<Rightarrow> vm \<Rightarrow> vm res" where
  "set_frame_ref pad s =
     rbind (set_ref (frame_index_div pad s) True (pft s)) (\<lambda>t. Inr (s\<lparr>pft := t\<rparr>))"

text \<open>Is there a valid entry for the page? A missing second level table means no.\<close>

definition page_entry_exists :: "addrspace \<Rightarrow> u32 \<Rightarrow> vm \<Rightarrow> bool res" where
  "page_entry_exists a vaddr s =
     (if as_table a (LEVEL1INDEX vaddr) = 0 then Inr False
      else rbind (deref (l2tabs s) (as_table a (LEVEL1INDEX vaddr))) (\<lambda>t.
        Inr (valid_bit (pt_table t (LEVEL2INDEX vaddr)))))"

definition bring_in :: "u32 \<Rightarrow> u32 \<Rightarrow> vm \<Rightarrow> vm res" where
  "bring_in asp vaddr s =
     rbind (virtual_alloc_kpages 1 s) (\<lambda>(p, p_list, s).
     rbind (aget p_list 0) (\<lambda>target_page.
     rbind (add_page_entry asp vaddr target_page s) (\<lambda>(_, s).
     let s = s\<lparr>ts := snd (insert_tlb_entry vaddr target_page (ts s))\<rparr>
     in swap_in vaddr target_page s)))"

definition get_physical_address :: "u32 \<Rightarrow> u32 \<Rightarrow> faulttype \<Rightarrow> vm \<Rightarrow> (u32 \<times> vm) res" where
  "get_physical_address asp vaddr ft s =
     (let offset = vaddr AND OFFSET_MASK;
          vaddr1 = LEVEL1INDEX vaddr;
          vaddr2 = LEVEL2INDEX vaddr
      in rbind (deref (spaces s) asp) (\<lambda>a.
         rbind (page_entry_exists a vaddr s) (\<lambda>there.
         rbind (if there then Inr s else bring_in asp vaddr s) (\<lambda>s.
         rbind (deref (spaces s) asp) (\<lambda>a.
         let l2 = as_table a vaddr1
         in rbind (deref (l2tabs s) l2) (\<lambda>t.
         let pad = physical_addr (pt_table t vaddr2)
         in case ft of
              VM_FAULT_READONLY \<Rightarrow> Inl Panic
            | VM_FAULT_READ \<Rightarrow>
                rbind (set_l2 l2 vaddr2 (\<lambda>e. e\<lparr>ref_bit := True\<rparr>) s) (\<lambda>s.
                rbind (set_frame_ref pad s) (\<lambda>s. Inr (pad + offset, s)))
            | VM_FAULT_WRITE \<Rightarrow>
                rbind (set_l2 l2 vaddr2 (\<lambda>e. e\<lparr>dirty_bit := True, ref_bit := True\<rparr>) s) (\<lambda>s.
                rbind (set_frame_ref pad s) (\<lambda>s. Inr (pad + offset, s)))
            | VM_FAULT_OTHER \<Rightarrow> Inr (of_int EINVAL, s)))))))"

section \<open>Address spaces\<close>

definition as_create :: "vm \<Rightarrow> (u32 \<times> vm) res" where
  "as_create s =
     rbind (vm_kmalloc sizeof_addrspace (s\<lparr>num_vm_faults := 0\<rparr>)) (\<lambda>(p, s).
       if p = 0 then Inr (0, s)
       else Inr (p, s\<lparr>spaces := (spaces s)(p \<mapsto> (junk_as s p)
              \<lparr>as_vbase1 := 0, as_npages1 := 0, as_vbase2 := 0, as_npages2 := 0, as_size := 0,
               as_stackpbase := 0,
               as_table := (\<lambda>i. if i < MAX_LEVEL1_PT then 0 else as_table (junk_as s p) i)\<rparr>)\<rparr>))"

text \<open>
  The copy loop over one second-level table. The new address space has no second-level table,
  so the first write through it is a null pointer access; an invalid entry is skipped.
\<close>

definition copy_entry :: "u32 \<Rightarrow> nat \<Rightarrow> page_table_level2 \<Rightarrow> nat \<Rightarrow> vm \<Rightarrow> vm res" where
  "copy_entry newas i t j s =
     (let e = pt_table t j
      in if valid_bit e
         then rbind (deref (spaces s) newas) (\<lambda>n.
              rbind (set_l2 (as_table n i) j (\<lambda>x. x\<lparr>valid_bit := True\<rparr>) s) (\<lambda>s.
              rbind (virtual_alloc_page s) (\<lambda>(temp_paddr, s).
              rbind (set_l2 (as_table n i) j (\<lambda>x. x\<lparr>physical_addr := temp_paddr\<rparr>) s) (\<lambda>s.
              let s = s\<lparr>kh := (kh s)\<lparr>kmem := copy_block (PADDR_TO_KVADDR temp_paddr) (kmem (kh s))
                          (PADDR_TO_KVADDR (physical_addr e)) (kmem (kh s)) PAGE_SIZE\<rparr>\<rparr>
              in set_l2 (as_table n i) j (\<lambda>x. x\<lparr>dirty_bit := dirty_bit e, ref_bit := ref_bit e,
                   pte_pid := pte_pid e + 1\<rparr>) s))))
         else Inr s)"

text \<open>
  The outer loop returns inside its body, after the first second-level table that exists. When
  there is none, control reaches the end of the function without a return value (\<open>None\<close>).
\<close>

fun copy_level1 :: "u32 \<Rightarrow> addrspace \<Rightarrow> nat list \<Rightarrow> vm \<Rightarrow> ((int \<times> u32) option \<times> vm) res" where
  "copy_level1 newas old [] s = Inr (None, s)"
| "copy_level1 newas old (i # is) s =
     (if as_table old i \<noteq> 0
      then rbind (deref (l2tabs s) (as_table old i)) (\<lambda>t.
           rbind (rfold (copy_entry newas i t) [0..<MAX_LEVEL2_PT] s) (\<lambda>s.
           Inr (Some (0, newas), s)))
      else copy_level1 newas old is s)"

definition as_copy :: "u32 \<Rightarrow> vm \<Rightarrow> ((int \<times> u32) option \<times> vm) res" where
  "as_copy oldp s =
     rbind (as_create s) (\<lambda>(newas, s).
       if newas = 0 then Inr (Some (ENOMEM, 0), s)
       else rbind (deref (spaces s) oldp) (\<lambda>old.
         rbind (deref (spaces s) newas) (\<lambda>n.
         let n = n\<lparr>as_vbase1 := as_vbase1 old, as_npages1 := as_npages1 old,
                   as_vbase2 := as_vbase2 old, as_npages2 := as_npages2 old,
                   as_pid := as_pid old + 1, as_size := as_size old,
                   as_stackpbase := as_stackpbase old\<rparr>
         in copy_level1 newas old [0..<MAX_LEVEL1_PT] (s\<lparr>spaces := (spaces s)(newas \<mapsto> n)\<rparr>))))"

definition free_entry :: "page_table_level2 \<Rightarrow> nat \<Rightarrow> vm \<Rightarrow> vm res" where
  "free_entry t j s =
     (if valid_bit (pt_table t j)
      then let i = frame_index_div (physical_addr (pt_table t j)) s
           in rbind (aget (pft s) i) (\<lambda>f. Inr (s\<lparr>pft := (pft s)[i := f\<lparr>valid_bit := False\<rparr>]\<rparr>))
      else Inr s)"

definition destroy_level2 :: "addrspace \<Rightarrow> nat \<Rightarrow> vm \<Rightarrow> vm res" where
  "destroy_level2 a i s =
     (if as_table a i \<noteq> 0
      then rbind (deref (l2tabs s) (as_table a i)) (\<lambda>t.
           rbind (rfold (free_entry t) [0..<MAX_LEVEL2_PT] s) (\<lambda>s.
           rbind (vm_kfree (as_table a i) s) (\<lambda>s.
           Inr (s\<lparr>l2tabs := (l2tabs s)(as_table a i := None)\<rparr>))))
      else Inr s)"

definition as_destroy :: "u32 \<Rightarrow> vm \<Rightarrow> vm res" where
  "as_destroy asp s =
     rbind (deref (spaces s) asp) (\<lambda>a.
     rbind (rfold (destroy_level2 a) [0..<MAX_LEVEL1_PT] s) (\<lambda>s.
     rbind (vm_kfree asp s) (\<lambda>s. Inr (s\<lparr>spaces := (spaces s)(asp := None)\<rparr>))))"

definition vm_as_activate :: "u32 \<Rightarrow> vm \<Rightarrow> vm" where
  "vm_as_activate asp s = s\<lparr>ts := as_activate (ts s)\<rparr>"

definition region_npages :: "u32 \<Rightarrow> u32 \<Rightarrow> u32" where
  "region_npages vaddr sz =
     (let sz = sz + (vaddr AND NOT PAGE_FRAME);
          sz = (sz + PAGE_SIZE - 1) AND PAGE_FRAME
      in sz div PAGE_SIZE)"

definition as_define_region ::
  "u32 \<Rightarrow> u32 \<Rightarrow> u32 \<Rightarrow> int \<Rightarrow> int \<Rightarrow> int \<Rightarrow> vm \<Rightarrow> (int \<times> vm) res" where
  "as_define_region asp vaddr sz readable writeable executable s =
     rbind (deref (spaces s) asp) (\<lambda>a.
     let npages = region_npages vaddr sz;
         vaddr = vaddr AND PAGE_FRAME
     in if as_vbase1 a = 0
        then Inr (0, s\<lparr>spaces := (spaces s)(asp \<mapsto> a\<lparr>as_vbase1 := vaddr, as_npages1 := npages\<rparr>)\<rparr>)
        else if as_vbase2 a = 0
        then Inr (0, s\<lparr>spaces := (spaces s)(asp \<mapsto> a\<lparr>as_vbase2 := vaddr, as_npages2 := npages\<rparr>)\<rparr>)
        else Inr (EUNIMP, s))"

definition as_zero_page :: "u32 \<Rightarrow> vm \<Rightarrow> vm" where
  "as_zero_page paddr s =
     s\<lparr>kh := (kh s)\<lparr>kmem := zero_block (kmem (kh s)) (PADDR_TO_KVADDR paddr) PAGE_SIZE\<rparr>\<rparr>"

definition map_page :: "u32 \<Rightarrow> (nat \<Rightarrow> u32) \<Rightarrow> u32 list \<Rightarrow> nat \<Rightarrow> vm \<Rightarrow> vm res" where
  "map_page asp vaddr p_list i s =
     rbind (aget p_list i) (\<lambda>pa.
     rbind (add_page_entry asp (vaddr i) pa s) (\<lambda>(_, s).
     Inr (as_zero_page pa s)))"

definition PHYSICAL_SEG2PAGES :: nat where "PHYSICAL_SEG2PAGES = 1"
definition PHYSICAL_STACKPAGES :: nat where "PHYSICAL_STACKPAGES = 1"

definition as_prepare_load :: "u32 \<Rightarrow> vm \<Rightarrow> (int \<times> vm) res" where
  "as_prepare_load asp s =
     rbind (deref (spaces s) asp) (\<lambda>a.
     let seg1pages = sint (as_npages1 a);
         seg2pages = int PHYSICAL_SEG2PAGES;
         stackpages = int PHYSICAL_STACKPAGES
     in rbind (virtual_alloc_kpages seg1pages s) (\<lambda>(p1, p_list, s).
        rbind (virtual_alloc_kpages seg2pages s) (\<lambda>(p2, p_list2, s).
        rbind (virtual_alloc_kpages stackpages s) (\<lambda>(p3, p_list3, s).
        rbind (rfold (map_page asp (\<lambda>i. as_vbase1 a + of_nat i * PAGE_SIZE) p_list)
                 [0..<nat seg1pages] s) (\<lambda>s.
        rbind (rfold (map_page asp (\<lambda>i. as_vbase2 a + of_nat i * PAGE_SIZE) p_list2)
                 [0..<nat seg2pages] s) (\<lambda>s.
        rbind (deref (spaces s) asp) (\<lambda>b.
        let s = s\<lparr>spaces := (spaces s)(asp \<mapsto> b\<lparr>as_stacknpages := of_int stackpages\<rparr>)\<rparr>
        in rbind (rfold (map_page asp (\<lambda>i. USERSTACK - (of_nat i + 1) * PAGE_SIZE) p_list3)
                 [0..<nat stackpages] s) (\<lambda>s.
        rbind (vm_kfree p1 s) (\<lambda>s.
        rbind (vm_kfree p2 s) (\<lambda>s.
        rbind (vm_kfree p3 s) (\<lambda>s. Inr (0, s))))))))))))"

definition as_complete_load :: "u32 \<Rightarrow> vm \<Rightarrow> int \<times> vm" where
  "as_complete_load asp s = (0, s)"

definition as_define_stack :: "u32 \<Rightarrow> vm \<Rightarrow> int \<times> u32 \<times> vm" where
  "as_define_stack asp s = (0, USERSTACK, s)"

definition vm_tlbshootdown_all :: "vm \<Rightarrow> vm res" where
  "vm_tlbshootdown_all s = Inl Panic"

section \<open>Bootstrap and faults\<close>

definition vm_bootstrap :: "int \<Rightarrow> int \<Rightarrow> vm \<Rightarrow> vm res" where
  "vm_bootstrap vfs_open_result st_size s =
     (let s = s\<lparr>swap_insertions := 0\<rparr>;
          s = snd (page_frame_table_bootstrap s)
      in rbind (lock_create ''vm_lock'' (kh s)) (\<lambda>(lk, h).
         let s = s\<lparr>kh := h\<rparr>
         in if vfs_open_result \<noteq> 0 then Inl Panic
            else rbind (swapspace_init st_size s) (\<lambda>s.
              Inr (s\<lparr>ts := (ts s)\<lparr>last_tlb_entry := 0\<rparr>\<rparr>))))"

definition in_region :: "u32 \<Rightarrow> u32 \<Rightarrow> u32 \<Rightarrow> bool" where
  "in_region a lo hi \<longleftrightarrow> lo \<le> a \<and> a < hi"

definition vm_fault :: "u32 \<Rightarrow> faulttype \<Rightarrow> u32 \<Rightarrow> vm \<Rightarrow> (int \<times> vm) res" where
  "vm_fault t_addrspace ft faultaddress s =
     (let s = s\<lparr>num_vm_faults := num_vm_faults s + 1\<rparr>;
          faultaddress = faultaddress AND PAGE_FRAME
      in if ft = VM_FAULT_READONLY then Inl Panic
         else if ft = VM_FAULT_OTHER then Inr (EINVAL, s)
         else if t_addrspace = 0 then Inr (EFAULT, s)
         else rbind (deref (spaces s) t_addrspace) (\<lambda>a.
           KASSERT (as_vbase1 a \<noteq> 0) (KASSERT (as_npages1 a \<noteq> 0)
           (KASSERT (as_vbase2 a \<noteq> 0) (KASSERT (as_npages2 a \<noteq> 0)
           (KASSERT (as_vbase1 a AND PAGE_FRAME = as_vbase1 a)
           (KASSERT (as_vbase2 a AND PAGE_FRAME = as_vbase2 a)
             (let vbase1 = as_vbase1 a;
                  vtop1 = vbase1 + as_npages1 a * PAGE_SIZE;
                  vbase2 = as_vbase2 a;
                  vtop2 = vbase2 + as_npages2 a * PAGE_SIZE;
                  stackbase = USERSTACK - of_nat INIT_STACKPAGES * PAGE_SIZE;
                  stacktop = USERSTACK
              in if in_region faultaddress vbase1 vtop1 \<or> in_region faultaddress vbase2 vtop2
                    \<or> in_region faultaddress stackbase stacktop
                 then rbind (get_physical_address t_addrspace faultaddress ft s) (\<lambda>(paddr, s).
                      KASSERT (paddr AND PAGE_FRAME = paddr)
                        (let (r, tl) = insert_tlb_entry faultaddress paddr (ts s)
                         in Inr (r, s\<lparr>ts := tl\<rparr>)))
                 else Inr (EFAULT, s)))))))))"

end
