(* ===== verification/PageMap.thy ===== *)
theory PageMap
  imports AddrSpace
begin

unbundle bit_operations_syntax

text \<open>
  The page tables as one map from an address space and a page to a page table entry, and the
  invariant that ties it to the page frame table: every resident page owns the frame it is
  mapped to and every frame in use is owned by one resident page. The lemmas show what
  \<open>add_page_entry\<close>, the eviction of a frame and the allocation of frames do to the map, and
  that they keep the invariant.
\<close>

section \<open>The page map\<close>

definition pte_of :: "vm \<Rightarrow> u32 \<Rightarrow> u32 \<Rightarrow> page_table_entry option" where
  "pte_of s asp va =
     (case spaces s asp of
        None \<Rightarrow> None
      | Some a \<Rightarrow>
          (case l2tabs s (as_table a (LEVEL1INDEX va)) of
             None \<Rightarrow> None
           | Some t \<Rightarrow> let e = pt_table t (LEVEL2INDEX va) in if valid_bit e then Some e else None))"

text \<open>
  Well-formed tables: a null pointer has no table, a non-null one has, no table is shared, and
  all tables lie below the memory still free.
\<close>

definition tabs_wf :: "vm \<Rightarrow> bool" where
  "tabs_wf s \<longleftrightarrow> ram_wf (kram (kh s)) \<and> l2tabs s 0 = None
     \<and> (\<forall>p \<in> dom (l2tabs s). unat p < frontier (kh s))
     \<and> (\<forall>asp a i. spaces s asp = Some a \<longrightarrow> i < MAX_LEVEL1_PT \<longrightarrow> as_table a i \<noteq> 0 \<longrightarrow>
          as_table a i \<in> dom (l2tabs s))
     \<and> (\<forall>asp a i asp' a' i'. spaces s asp = Some a \<longrightarrow> spaces s asp' = Some a' \<longrightarrow>
          i < MAX_LEVEL1_PT \<longrightarrow> i' < MAX_LEVEL1_PT \<longrightarrow> as_table a i \<noteq> 0 \<longrightarrow>
          as_table a i = as_table a' i' \<longrightarrow> asp = asp' \<and> i = i')"

lemma vpage_idem [simp]: "vpage (vpage a) = vpage a"
  by (simp add: vpage_def and.assoc)

lemma tabs_wfD:
  assumes "tabs_wf s"
  shows tabs_wf_ram: "ram_wf (kram (kh s))"
    and tabs_wf_null: "l2tabs s 0 = None"
    and tabs_wf_below: "l2tabs s p = Some t \<Longrightarrow> unat p < frontier (kh s)"
    and tabs_wf_dom: "spaces s asp = Some a \<Longrightarrow> as_table a (LEVEL1INDEX va) \<noteq> 0 \<Longrightarrow>
          \<exists>t. l2tabs s (as_table a (LEVEL1INDEX va)) = Some t"
    and tabs_wf_inj: "spaces s asp = Some a \<Longrightarrow> spaces s asp' = Some a' \<Longrightarrow>
          as_table a (LEVEL1INDEX va) \<noteq> 0 \<Longrightarrow>
          as_table a (LEVEL1INDEX va) = as_table a' (LEVEL1INDEX va') \<Longrightarrow>
          asp = asp' \<and> LEVEL1INDEX va = LEVEL1INDEX va'"
proof -
  show "ram_wf (kram (kh s))" "l2tabs s 0 = None" using assms by (simp_all add: tabs_wf_def)
  show "l2tabs s p = Some t \<Longrightarrow> unat p < frontier (kh s)"
    using assms by (auto simp: tabs_wf_def dom_def)
  show "spaces s asp = Some a \<Longrightarrow> as_table a (LEVEL1INDEX va) \<noteq> 0 \<Longrightarrow>
      \<exists>t. l2tabs s (as_table a (LEVEL1INDEX va)) = Some t"
    using assms LEVEL1INDEX_bound unfolding tabs_wf_def by blast
  show "spaces s asp = Some a \<Longrightarrow> spaces s asp' = Some a' \<Longrightarrow>
      as_table a (LEVEL1INDEX va) \<noteq> 0 \<Longrightarrow>
      as_table a (LEVEL1INDEX va) = as_table a' (LEVEL1INDEX va') \<Longrightarrow>
      asp = asp' \<and> LEVEL1INDEX va = LEVEL1INDEX va'"
    using assms LEVEL1INDEX_bound unfolding tabs_wf_def by blast
qed

lemma pte_of_Some:
  "pte_of s asp va = Some e \<longleftrightarrow>
     (\<exists>a t. spaces s asp = Some a \<and> l2tabs s (as_table a (LEVEL1INDEX va)) = Some t
       \<and> e = pt_table t (LEVEL2INDEX va) \<and> valid_bit e)"
  by (auto simp: pte_of_def Let_def split: option.splits if_splits)

lemma pte_of_vpage: "vpage va = vpage vb \<Longrightarrow> pte_of s asp va = pte_of s asp vb"
  using level_index_eq_iff [of va vb] by (simp add: pte_of_def cong: option.case_cong)

lemma pte_of_cong:
  "spaces s' = spaces s \<Longrightarrow> l2tabs s' = l2tabs s \<Longrightarrow> pte_of s' asp va = pte_of s asp va"
  by (simp add: pte_of_def cong: option.case_cong)

text \<open>Writing one entry of one table changes the map at one page of one address space.\<close>

definition put_pte :: "u32 \<Rightarrow> u32 \<Rightarrow> page_table_entry \<Rightarrow> vm \<Rightarrow> vm" where
  "put_pte asp va e s =
     (case spaces s asp of None \<Rightarrow> s | Some a \<Rightarrow>
        (case l2tabs s (as_table a (LEVEL1INDEX va)) of None \<Rightarrow> s | Some t \<Rightarrow>
           s\<lparr>l2tabs := (l2tabs s)(as_table a (LEVEL1INDEX va) \<mapsto>
              t\<lparr>pt_table := (pt_table t)(LEVEL2INDEX va := e)\<rparr>)\<rparr>))"

lemma pte_of_update:
  assumes "tabs_wf s" "spaces s asp = Some a" "l2tabs s (as_table a (LEVEL1INDEX va)) = Some t"
    and "s' = s\<lparr>l2tabs := (l2tabs s)(as_table a (LEVEL1INDEX va) \<mapsto> t')\<rparr>"
    and "pt_table t' = (pt_table t)(LEVEL2INDEX va := e)"
  shows "pte_of s' asp' va' =
    (if asp' = asp \<and> vpage va' = vpage va then if valid_bit e then Some e else None
     else pte_of s asp' va')"
proof (cases "spaces s asp'")
  case None
  then show ?thesis using assms by (auto simp: pte_of_def)
next
  case (Some a')
  have nz: "as_table a (LEVEL1INDEX va) \<noteq> 0" using assms tabs_wf_null by fastforce
  show ?thesis
  proof (cases "as_table a' (LEVEL1INDEX va') = as_table a (LEVEL1INDEX va)")
    case False
    then have "\<not> (asp' = asp \<and> vpage va' = vpage va)"
      using Some assms(2) level_index_eq_iff [of va' va] by auto
    then show ?thesis using False Some assms(4) by (auto simp: pte_of_def)
  next
    case True
    then have "asp' = asp" "LEVEL1INDEX va' = LEVEL1INDEX va"
      using tabs_wf_inj [OF assms(1,2) Some nz, of va'] by auto
    then show ?thesis
      using Some assms level_index_eq_iff [of va' va] by (auto simp: pte_of_def)
  qed
qed

lemma tabs_wf_update:
  assumes "tabs_wf s" "l2tabs s p = Some t" "s' = s\<lparr>l2tabs := (l2tabs s)(p \<mapsto> t')\<rparr>"
  shows "tabs_wf s'"
proof -
  have p0: "p \<noteq> 0" and pf: "unat p < frontier (kh s)" using assms(1,2) tabs_wf_null tabs_wf_below by auto
  show ?thesis
    using assms(1) p0 pf unfolding assms(3) tabs_wf_def by (auto simp: dom_def)
qed

text \<open>The state after a fresh, empty second-level table has been attached.\<close>

lemma new_level2_spec:
  assumes "tabs_wf s" "spaces s asp = Some a" "as_table a (LEVEL1INDEX va) = 0"
    and "new_level2 asp (LEVEL1INDEX va) a s = Inr s'"
  shows "tabs_wf s'"
    and "\<exists>p t. spaces s' = (spaces s)(asp \<mapsto> a\<lparr>as_table := (as_table a)(LEVEL1INDEX va := p)\<rparr>)
          \<and> l2tabs s' = (l2tabs s)(p \<mapsto> t) \<and> p \<noteq> 0 \<and> l2tabs s p = None
          \<and> (\<forall>i < MAX_LEVEL2_PT. \<not> valid_bit (pt_table t i))
          \<and> s' = s\<lparr>kh := kh s', spaces := spaces s', l2tabs := l2tabs s'\<rparr> \<and> grows (kh s) (kh s')"
proof -
  have ram: "ram_wf (kram (kh s))" using tabs_wf_ram [OF assms(1)] .
  have two: "(sizeof_page_table_level2 + PAGE_SIZE - 1) div PAGE_SIZE = 2"
    by (simp add: sizeof_page_table_level2_def PAGE_SIZE_def)
  have small: "unat (2 :: u32) \<le> 2 ^ 19" by simp
  have km: "kmalloc sizeof_page_table_level2 h = Inr (alloc_kpages 2 h)" for h
    using two by (simp add: kmalloc_def sizeof_page_table_level2_def LARGEST_SUBPAGE_SIZE_def)
  obtain p h where ak: "alloc_kpages 2 (kh s) = (p, h)"
      "unat p = frontier (kh s)" "frontier h = frontier (kh s) + 8192" "grows (kh s) h" and p: "p \<noteq> 0"
  proof (cases rule: alloc_kpages_cases [OF ram small])
    case 1
    then show thesis using assms(4) km by (simp add: new_level2_def vm_kmalloc_def)
  next
    case (2 a h')
    then show thesis using that by simp
  qed
  let ?t = "invalidate_all (junk_l2 s p)"
  have s': "s' = s\<lparr>kh := h, spaces := (spaces s)(asp \<mapsto> a\<lparr>as_table := (as_table a)(LEVEL1INDEX va := p)\<rparr>),
                 l2tabs := (l2tabs s)(p \<mapsto> ?t)\<rparr>"
    using assms(4) ak p km by (auto simp: new_level2_def vm_kmalloc_def Let_def)
  have fresh: "l2tabs s p = None"
    using ak(2) tabs_wf_below [OF assms(1), of p] by (cases "l2tabs s p") auto
  have unused: "as_table a' (LEVEL1INDEX va') \<noteq> p" if "spaces s asp' = Some a'" for asp' a' va'
    using tabs_wf_dom [OF assms(1) that, of va'] p fresh by auto
  have notp: "as_table a' i \<noteq> p" if "spaces s asp' = Some a'" "i < MAX_LEVEL1_PT" for asp' a' i
    using assms(1) that p fresh unfolding tabs_wf_def by (metis domIff)
  show "tabs_wf s'"
    using assms(1-3) ak p fresh notp unfolding tabs_wf_def s'
    by (auto simp: dom_def grows_def split: if_splits)
  show "\<exists>p t. spaces s' = (spaces s)(asp \<mapsto> a\<lparr>as_table := (as_table a)(LEVEL1INDEX va := p)\<rparr>)
          \<and> l2tabs s' = (l2tabs s)(p \<mapsto> t) \<and> p \<noteq> 0 \<and> l2tabs s p = None
          \<and> (\<forall>i < MAX_LEVEL2_PT. \<not> valid_bit (pt_table t i))
          \<and> s' = s\<lparr>kh := kh s', spaces := spaces s', l2tabs := l2tabs s'\<rparr> \<and> grows (kh s) (kh s')"
    using s' p fresh ak(4) by (intro exI [of _ p] exI [of _ ?t]) (simp add: invalidate_all_def)
qed

text \<open>Free physical memory for \<open>n\<close> more pages.\<close>

definition ram_room :: "nat \<Rightarrow> vm \<Rightarrow> bool" where
  "ram_room n s \<longleftrightarrow>
     unat (firstpaddr (kram (kh s))) + n * 4096 \<le> unat (lastpaddr (kram (kh s)))"

lemma new_level2_succeeds:
  assumes "tabs_wf s" "ram_room 2 s"
  shows "\<exists>s'. new_level2 asp i a s = Inr s'"
proof -
  have ram: "ram_wf (kram (kh s))" using tabs_wf_ram [OF assms(1)] .
  have small: "unat (2 :: u32) \<le> 2 ^ 19" by simp
  have "kmalloc sizeof_page_table_level2 (kh s) = Inr (alloc_kpages 2 (kh s))"
    by (simp add: kmalloc_def sizeof_page_table_level2_def LARGEST_SUBPAGE_SIZE_def PAGE_SIZE_def)
  moreover have "fst (alloc_kpages 2 (kh s)) \<noteq> 0"
  proof (cases rule: ram_stealmem_cases [OF ram small])
    case 1
    then show ?thesis using assms(2) by (simp add: ram_room_def)
  next
    case (2 r')
    have "unat (PADDR_TO_KVADDR (firstpaddr (kram (kh s)))) \<noteq> 0"
      using ram by (subst unat_PADDR_TO_KVADDR) (simp_all add: ram_wf_def)
    then have "PADDR_TO_KVADDR (firstpaddr (kram (kh s))) \<noteq> 0" by auto
    then show ?thesis using 2(1) ram
      by (auto simp: alloc_kpages_def getppages_def ram_wf_def)
  qed
  ultimately show ?thesis
    by (cases "alloc_kpages 2 (kh s)") (simp add: new_level2_def vm_kmalloc_def)
qed

section \<open>The invariant\<close>

text \<open>
  \<open>H\<close> is the set of frames that have been taken from the pool and have no owner yet: empty
  between operations, and the frames in hand while pages are being brought in.
\<close>

definition owned :: "vm \<Rightarrow> nat \<Rightarrow> bool" where
  "owned s i \<longleftrightarrow> (\<exists>e. pte_of s (p_space (pft s ! i)) (virtual_addr (pft s ! i)) = Some e
     \<and> physical_addr e = frame_addr s i)"

definition owns :: "vm \<Rightarrow> u32 \<Rightarrow> u32 \<Rightarrow> u32 \<Rightarrow> nat \<Rightarrow> bool" where
  "owns s asp va pa i \<longleftrightarrow> i < MAX_PM_SIZE \<and> pa = frame_addr s i \<and> valid_bit (pft s ! i)
     \<and> p_space (pft s ! i) = asp \<and> virtual_addr (pft s ! i) = vpage va"

definition vm_inv :: "nat set \<Rightarrow> vm \<Rightarrow> bool" where
  "vm_inv H s \<longleftrightarrow> pool_ok s \<and> tabs_wf s
     \<and> unat (physical_base_addr s) + MAX_PM_SIZE * 4096 \<le> unat (firstpaddr (kram (kh s)))
     \<and> (\<forall>i \<in> H. i < MAX_PM_SIZE \<and> valid_bit (pft s ! i))
     \<and> (\<forall>i < MAX_PM_SIZE. i \<notin> H \<longrightarrow> valid_bit (pft s ! i) \<longrightarrow> owned s i)
     \<and> (\<forall>asp va e. pte_of s asp va = Some e \<longrightarrow> (\<exists>i. i \<notin> H \<and> owns s asp va (physical_addr e) i))"

lemma vm_invD:
  assumes "vm_inv H s"
  shows vm_inv_pool: "pool_ok s"
    and vm_inv_tabs: "tabs_wf s"
    and vm_inv_below: "unat (physical_base_addr s) + MAX_PM_SIZE * 4096 \<le> unat (firstpaddr (kram (kh s)))"
    and vm_inv_hole: "i \<in> H \<Longrightarrow> i < MAX_PM_SIZE \<and> valid_bit (pft s ! i)"
    and vm_inv_owned: "i < MAX_PM_SIZE \<Longrightarrow> i \<notin> H \<Longrightarrow> valid_bit (pft s ! i) \<Longrightarrow> owned s i"
    and vm_inv_owns: "pte_of s asp va = Some e \<Longrightarrow> \<exists>i. i \<notin> H \<and> owns s asp va (physical_addr e) i"
  using assms unfolding vm_inv_def by auto

lemma unat_frame_addr:
  assumes "pool_ok s" "i < MAX_PM_SIZE"
  shows "unat (frame_addr s i) = unat (physical_base_addr s) + i * 4096"
proof -
  have i: "i < 30" using assms(2) by (simp add: MAX_PM_SIZE_def)
  have "unat (physical_base_addr s) + 30 * 4096 \<le> 508 * 1024 * 1024"
    using assms(1) by (simp add: pool_ok_def MAX_PM_SIZE_def)
  then show ?thesis using i
    by (simp add: frame_addr_def unat_word_ariths unat_of_nat PAGE_SIZE_def)
qed

lemma frame_addr_inj:
  assumes "pool_ok s" "i < MAX_PM_SIZE" "j < MAX_PM_SIZE"
  shows "frame_addr s i = frame_addr s j \<longleftrightarrow> i = j"
proof
  assume "frame_addr s i = frame_addr s j"
  then have "unat (frame_addr s i) = unat (frame_addr s j)" by (rule arg_cong)
  then have "i * 4096 = j * 4096"
    unfolding unat_frame_addr [OF assms(1,2)] unat_frame_addr [OF assms(1,3)] by (rule add_left_imp_eq)
  then show "i = j" by simp
qed simp

lemma frame_addr_aligned:
  assumes "pool_ok s" "i < MAX_PM_SIZE"
  shows "frame_addr s i AND PAGE_FRAME = frame_addr s i"
  using unat_frame_addr [OF assms] assms(1)
  by (simp add: page_aligned_iff pool_ok_def)

lemma unat_frame_diff:
  assumes "pool_ok s" "i < MAX_PM_SIZE"
  shows "unat (frame_addr s i - physical_base_addr s) = i * 4096"
proof -
  have "frame_addr s i - physical_base_addr s = of_nat (i * 4096)"
    by (simp add: frame_addr_def PAGE_SIZE_def)
  then show ?thesis using assms(2) by (simp add: MAX_PM_SIZE_def unat_of_nat unat_word_ariths)
qed

lemma frame_index_frame_addr [simp]:
  assumes "pool_ok s" "i < MAX_PM_SIZE"
  shows "frame_index (frame_addr s i) s = i" "frame_index_div (frame_addr s i) s = i"
  using unat_frame_diff [OF assms]
  by (simp_all add: frame_index_def frame_index_div_def unat_drop_bit_eq drop_bit_eq_div
      unat_div_distrib)

text \<open>Two resident pages with the same frame are the same page of the same address space.\<close>

lemma vm_inv_isolation:
  assumes "vm_inv H s" "pte_of s asp va = Some e" "pte_of s asp' va' = Some e'"
    and "physical_addr e = physical_addr e'"
  shows "asp = asp' \<and> vpage va = vpage va'"
proof -
  obtain i j where "owns s asp va (physical_addr e) i" "owns s asp' va' (physical_addr e') j"
    using vm_inv_owns [OF assms(1)] assms(2,3) by blast
  then show ?thesis
    using assms(4) frame_addr_inj [OF vm_inv_pool [OF assms(1)], of i j] by (auto simp: owns_def)
qed

text \<open>Frames in use record the page by its aligned address.\<close>

lemma vm_inv_aligned:
  assumes "vm_inv H s" "i < MAX_PM_SIZE" "i \<notin> H" "valid_bit (pft s ! i)"
  shows "vpage (virtual_addr (pft s ! i)) = virtual_addr (pft s ! i)"
proof -
  obtain e where e: "pte_of s (p_space (pft s ! i)) (virtual_addr (pft s ! i)) = Some e"
      "physical_addr e = frame_addr s i"
    using vm_inv_owned [OF assms] by (auto simp: owned_def)
  then obtain j where "owns s (p_space (pft s ! i)) (virtual_addr (pft s ! i)) (frame_addr s i) j"
    using vm_inv_owns [OF assms(1) e(1)] by auto
  then show ?thesis
    using frame_addr_inj [OF vm_inv_pool [OF assms(1)] assms(2), of j] by (auto simp: owns_def)
qed

text \<open>The invariant looks at the physical addresses in the map and at three fields of each frame.\<close>

lemma vm_inv_cong:
  assumes inv: "vm_inv H s" and "pool_ok s'" "tabs_wf s'"
    and base: "physical_base_addr s' = physical_base_addr s" and gr: "frontier (kh s) \<le> frontier (kh s')"
    and phys: "\<And>x vb. map_option physical_addr (pte_of s' x vb) = map_option physical_addr (pte_of s x vb)"
    and f: "\<And>j. j < MAX_PM_SIZE \<Longrightarrow> valid_bit (pft s' ! j) = valid_bit (pft s ! j)
      \<and> p_space (pft s' ! j) = p_space (pft s ! j) \<and> virtual_addr (pft s' ! j) = virtual_addr (pft s ! j)"
  shows "vm_inv H s'"
proof -
  have fa: "frame_addr s' = frame_addr s" using base by (intro ext) (simp add: frame_addr_def)
  have owned_phys: "owned r j \<longleftrightarrow> map_option physical_addr
      (pte_of r (p_space (pft r ! j)) (virtual_addr (pft r ! j))) = Some (frame_addr r j)" for r j
    by (auto simp: owned_def)
  have ow: "owned s' j = owned s j" if "j < MAX_PM_SIZE" for j
    using f [OF that] phys fa by (simp add: owned_phys)
  have os: "owns s' x v pa j = owns s x v pa j" for x v pa j
    using f [of j] fa by (auto simp: owns_def)
  have bk: "\<exists>j. j \<notin> H \<and> owns s' x v (physical_addr e) j" if "pte_of s' x v = Some e" for x v e
  proof -
    have "map_option physical_addr (pte_of s x v) = Some (physical_addr e)" using that phys [of x v] by simp
    then obtain e0 where "pte_of s x v = Some e0" "physical_addr e0 = physical_addr e" by auto
    then show ?thesis using vm_inv_owns [OF inv, of x v e0] os by auto
  qed
  show ?thesis
    unfolding vm_inv_def
    using assms(2,3) base gr vm_inv_below [OF inv] vm_inv_hole [OF inv] vm_inv_owned [OF inv] f ow bk
    by (auto simp: frontier_def)
qed

text \<open>What the operations on page tables and frames leave alone.\<close>

definition rest_same :: "vm \<Rightarrow> vm \<Rightarrow> bool" where
  "rest_same s s' \<longleftrightarrow> swapspace s' = swapspace s \<and> swap_result s' = swap_result s
     \<and> physical_base_addr s' = physical_base_addr s \<and> num_vm_faults s' = num_vm_faults s"

lemma rest_same_refl [simp]: "rest_same s s"
  by (simp add: rest_same_def)

lemma rest_same_trans: "rest_same s s' \<Longrightarrow> rest_same s' s'' \<Longrightarrow> rest_same s s''"
  by (simp add: rest_same_def)

lemma rest_same_frame_addr: "rest_same s s' \<Longrightarrow> frame_addr s' i = frame_addr s i"
  by (simp add: rest_same_def frame_addr_def)

definition same_regions :: "vm \<Rightarrow> vm \<Rightarrow> bool" where
  "same_regions s s' \<longleftrightarrow> (\<forall>asp. map_option (\<lambda>a. a\<lparr>as_table := \<lambda>_. 0\<rparr>) (spaces s' asp)
     = map_option (\<lambda>a. a\<lparr>as_table := \<lambda>_. 0\<rparr>) (spaces s asp))"

lemma same_regions_refl [simp]: "same_regions s s"
  by (simp add: same_regions_def)

lemma same_regions_trans: "same_regions s s' \<Longrightarrow> same_regions s' s'' \<Longrightarrow> same_regions s s''"
  by (simp add: same_regions_def)

lemma same_regions_Some:
  assumes "same_regions s s'" "spaces s asp = Some a"
  obtains a' where "spaces s' asp = Some a'" "a'\<lparr>as_table := \<lambda>_. 0\<rparr> = a\<lparr>as_table := \<lambda>_. 0\<rparr>"
proof -
  have "map_option (\<lambda>a. a\<lparr>as_table := \<lambda>_. 0\<rparr>) (spaces s' asp) = Some (a\<lparr>as_table := \<lambda>_. 0\<rparr>)"
    using assms by (simp add: same_regions_def)
  then show thesis using that by auto
qed

section \<open>Adding an entry\<close>

text \<open>The same state but for the heap, the page tables and the frame table.\<close>

definition tables_only :: "vm \<Rightarrow> vm \<Rightarrow> bool" where
  "tables_only s s' \<longleftrightarrow> rest_same s s' \<and> same_regions s s' \<and> grows (kh s) (kh s')
     \<and> ts s' = ts s \<and> swap_disk s' = swap_disk s \<and> clock_hand s' = clock_hand s
     \<and> ep_hand s' = ep_hand s \<and> rp_hand s' = rp_hand s"

lemma tables_only_trans: "tables_only s s' \<Longrightarrow> tables_only s' s'' \<Longrightarrow> tables_only s s''"
  unfolding tables_only_def using rest_same_trans same_regions_trans grows_trans by auto

lemma ensure_level2:
  assumes wf: "tabs_wf s" and a: "spaces s asp = Some a"
    and eq: "(if as_table a (LEVEL1INDEX va) = 0 then new_level2 asp (LEVEL1INDEX va) a s else Inr s) = Inr s'"
  shows "tabs_wf s'" "pte_of s' = pte_of s" "pft s' = pft s" "tables_only s s'"
    "\<exists>a' t. spaces s' asp = Some a' \<and> l2tabs s' (as_table a' (LEVEL1INDEX va)) = Some t"
proof -
  have *: "tabs_wf s' \<and> pte_of s' = pte_of s \<and> pft s' = pft s \<and> tables_only s s' \<and>
    (\<exists>a' t. spaces s' asp = Some a' \<and> l2tabs s' (as_table a' (LEVEL1INDEX va)) = Some t)"
  proof (cases "as_table a (LEVEL1INDEX va) = 0")
    case False
    then show ?thesis
      using eq wf a tabs_wf_dom [OF wf a False] tabs_wf_ram [OF wf]
      by (simp add: tables_only_def grows_refl)
  next
    case True
    then have new: "new_level2 asp (LEVEL1INDEX va) a s = Inr s'" using eq by simp
    let ?a = "\<lambda>p. a\<lparr>as_table := (as_table a)(LEVEL1INDEX va := p)\<rparr>"
    obtain p t where s': "spaces s' = (spaces s)(asp \<mapsto> ?a p)" "l2tabs s' = (l2tabs s)(p \<mapsto> t)"
        "p \<noteq> 0" "l2tabs s p = None" "\<forall>i < MAX_LEVEL2_PT. \<not> valid_bit (pt_table t i)"
        "grows (kh s) (kh s')"
      and shape: "s' = s\<lparr>kh := kh s', spaces := spaces s', l2tabs := l2tabs s'\<rparr>"
      using new_level2_spec(2) [OF wf a True new] by metis
    have notp: "as_table b (LEVEL1INDEX vb) \<noteq> p" if "spaces s x = Some b" for x b vb
      using tabs_wf_dom [OF wf that, of vb] s'(3,4) by auto
    have "pte_of s' x vb = pte_of s x vb" for x vb
    proof (cases "x = asp \<and> LEVEL1INDEX vb = LEVEL1INDEX va")
      case True
      then show ?thesis
        using a s' tabs_wf_null [OF wf] \<open>as_table a (LEVEL1INDEX va) = 0\<close> LEVEL2INDEX_bound [of vb]
        by (simp add: pte_of_def)
    next
      case False
      then show ?thesis using s' notp a by (auto simp: pte_of_def split: option.splits)
    qed
    then have "pte_of s' = pte_of s" by blast
    moreover have "pft s' = pft s" "rest_same s s'" "ts s' = ts s" "swap_disk s' = swap_disk s"
      "clock_hand s' = clock_hand s" "ep_hand s' = ep_hand s" "rp_hand s' = rp_hand s"
      unfolding rest_same_def by (subst shape, simp)+
    moreover have "same_regions s s'" using s'(1) a by (simp add: same_regions_def)
    ultimately show ?thesis
      using new_level2_spec(1) [OF wf a True new] s' by (simp add: tables_only_def)
  qed
  then show "tabs_wf s'" "pte_of s' = pte_of s" "pft s' = pft s" "tables_only s s'"
    "\<exists>a' t. spaces s' asp = Some a' \<and> l2tabs s' (as_table a' (LEVEL1INDEX va)) = Some t"
    by blast+
qed

definition new_entry :: "u32 \<Rightarrow> u32 \<Rightarrow> page_table_entry \<Rightarrow> page_table_entry" where
  "new_entry va pa e =
     e\<lparr>physical_addr := pa, virtual_addr := va, valid_bit := True, dirty_bit := False, ref_bit := False\<rparr>"

lemma new_entry_sel [simp]:
  "physical_addr (new_entry va pa e) = pa" "virtual_addr (new_entry va pa e) = va"
  "valid_bit (new_entry va pa e)" "\<not> ref_bit (new_entry va pa e)" "\<not> dirty_bit (new_entry va pa e)"
  by (simp_all add: new_entry_def)

lemma add_page_entry_spec:
  assumes wf: "tabs_wf s" and pool: "pool_ok s" and i: "i < MAX_PM_SIZE" and a: "spaces s asp = Some a"
    and add: "add_page_entry asp va (frame_addr s i) s = Inr (r, s')"
  obtains e where "r = 0" "tabs_wf s'" "tables_only s s'"
    "pft s' = (pft s)[i := (new_entry va (frame_addr s i) (pft s ! i))\<lparr>p_space := asp\<rparr>]"
    "\<And>x vb. pte_of s' x vb = (if x = asp \<and> vpage vb = vpage va
        then Some (new_entry va (frame_addr s i) e) else pte_of s x vb)"
proof -
  let ?l1 = "LEVEL1INDEX va"
  obtain s1 where s1: "(if as_table a ?l1 = 0 then new_level2 asp ?l1 a s else Inr s) = Inr s1"
    using add a by (auto simp: add_page_entry_def Let_def res_simps)
  note en = ensure_level2 [OF wf a s1]
  obtain a1 t where a1: "spaces s1 asp = Some a1" "l2tabs s1 (as_table a1 ?l1) = Some t"
    using en(5) by blast
  let ?e = "pt_table t (LEVEL2INDEX va)"
  let ?t = "t\<lparr>pt_table := (pt_table t)(LEVEL2INDEX va := new_entry va (frame_addr s i) ?e),
              pt_size := pt_size t + 1\<rparr>"
  let ?s2 = "s1\<lparr>l2tabs := (l2tabs s1)(as_table a1 ?l1 \<mapsto> ?t)\<rparr>"
  let ?f = "(new_entry va (frame_addr s i) (pft s ! i))\<lparr>p_space := asp\<rparr>"
  have "physical_base_addr s1 = physical_base_addr s"
    using en(4) by (simp add: tables_only_def rest_same_def)
  then have idx: "frame_index (frame_addr s i) ?s2 = i"
    using frame_index_frame_addr(1) [OF pool i] by (simp add: frame_index_def)
  have len: "i < length (pft s)" using pool i by (simp add: pool_ok_def)
  have s': "r = 0" "s' = ?s2\<lparr>pft := (pft s)[i := ?f]\<rparr>"
    using add a s1 a1 idx len en(3) by (simp_all add: add_page_entry_def Let_def new_entry_def)
  have wf2: "tabs_wf ?s2" by (rule tabs_wf_update [OF en(1) a1(2) refl])
  show thesis
  proof
    show "r = 0" by (rule s'(1))
    show "tabs_wf s'" using wf2 unfolding s'(2) by (simp add: tabs_wf_def)
    show "tables_only s s'"
      using en(4) unfolding s'(2) by (simp add: tables_only_def rest_same_def same_regions_def)
    show "pft s' = (pft s)[i := ?f]" unfolding s'(2) by simp
    fix x vb
    have "pte_of s' x vb = pte_of ?s2 x vb" unfolding s'(2) by (rule pte_of_cong) simp_all
    also have "\<dots> = (if x = asp \<and> vpage vb = vpage va
        then Some (new_entry va (frame_addr s i) ?e) else pte_of s1 x vb)"
      using pte_of_update [OF en(1) a1 refl, of ?t "new_entry va (frame_addr s i) ?e" x vb] by simp
    finally show "pte_of s' x vb = (if x = asp \<and> vpage vb = vpage va
        then Some (new_entry va (frame_addr s i) ?e) else pte_of s x vb)"
      unfolding en(2) .
  qed
qed

lemma add_page_entry_succeeds:
  assumes "tabs_wf s" "pool_ok s" "i < MAX_PM_SIZE" "spaces s asp = Some a"
    and "as_table a (LEVEL1INDEX va) \<noteq> 0 \<or> ram_room 2 s"
  shows "\<exists>s'. add_page_entry asp va (frame_addr s i) s = Inr (0, s')"
proof -
  let ?l1 = "LEVEL1INDEX va"
  obtain s1 where s1: "(if as_table a ?l1 = 0 then new_level2 asp ?l1 a s else Inr s) = Inr s1"
    using new_level2_succeeds [OF assms(1), of asp ?l1 a] assms(5)
    by (cases "as_table a ?l1 = 0") auto
  note en = ensure_level2 [OF assms(1,4) s1]
  have "physical_base_addr s1 = physical_base_addr s"
    using en(4) by (simp add: tables_only_def rest_same_def)
  then have "frame_index (frame_addr s i) s1 = i"
    using frame_index_frame_addr(1) [OF assms(2,3)] by (simp add: frame_index_def)
  moreover have "i < length (pft s)" using assms(2,3) by (simp add: pool_ok_def)
  ultimately show ?thesis
    using assms(4) s1 en(3,5) by (auto simp: add_page_entry_def Let_def frame_index_def)
qed

lemma vm_inv_below_grows:
  assumes "vm_inv H s" "rest_same s s'" "grows (kh s) (kh s')"
  shows "unat (physical_base_addr s') + MAX_PM_SIZE * 4096 \<le> unat (firstpaddr (kram (kh s')))"
  using vm_inv_below [OF assms(1)] assms(2,3) by (simp add: rest_same_def grows_def frontier_def)

lemma pool_ok_update:
  assumes "pool_ok s" "i < MAX_PM_SIZE" "pft s' = (pft s)[i := f]" "physical_addr f = frame_addr s i"
    and "physical_base_addr s' = physical_base_addr s" "clock_hand s' = clock_hand s"
    and "ep_hand s' = ep_hand s" "rp_hand s' = rp_hand s"
  shows "pool_ok s'"
  using assms by (auto simp: pool_ok_def frame_addr_def nth_list_update)

text \<open>A page that was not resident takes over a frame in hand.\<close>

lemma vm_inv_add:
  assumes inv: "vm_inv H s" and i: "i \<in> H" and a: "spaces s asp = Some a" and va: "vpage va = va"
    and absent: "pte_of s asp va = None"
    and add: "add_page_entry asp va (frame_addr s i) s = Inr (r, s')"
  shows "vm_inv (H - {i}) s'"
proof -
  have pool: "pool_ok s" and wf: "tabs_wf s" using inv vm_inv_pool vm_inv_tabs by auto
  have i30: "i < MAX_PM_SIZE" and len: "i < length (pft s)"
    using vm_inv_hole [OF inv i] pool by (simp_all add: pool_ok_def)
  obtain e where s': "tabs_wf s'" "tables_only s s'"
    "pft s' = (pft s)[i := (new_entry va (frame_addr s i) (pft s ! i))\<lparr>p_space := asp\<rparr>]"
    and pte: "\<And>x vb. pte_of s' x vb = (if x = asp \<and> vpage vb = vpage va
        then Some (new_entry va (frame_addr s i) e) else pte_of s x vb)"
    by (rule add_page_entry_spec [OF wf pool i30 a add]) blast
  have rest: "rest_same s s'" and gr: "grows (kh s) (kh s')"
    using s'(2) by (simp_all add: tables_only_def)
  have fa: "frame_addr s' j = frame_addr s j" for j using rest by (rule rest_same_frame_addr)
  have pool': "pool_ok s'"
    using pool i30 s'(2,3) by (intro pool_ok_update [OF pool i30 s'(3)])
      (simp_all add: tables_only_def rest_same_def)
  have same: "pft s' ! j = pft s ! j" if "j \<noteq> i" for j using that s'(3) by simp
  have at_i: "pft s' ! i = (new_entry va (frame_addr s i) (pft s ! i))\<lparr>p_space := asp\<rparr>"
    using len s'(3) by simp
  have elsewhere: "pte_of s' x vb = Some d" if "pte_of s x vb = Some d" for x vb d
    using that absent pte_of_vpage [of vb va s asp] pte by auto
  show ?thesis
    unfolding vm_inv_def
  proof (intro conjI ballI allI impI)
    show "pool_ok s'" "tabs_wf s'" by fact+
    show "unat (physical_base_addr s') + MAX_PM_SIZE * 4096 \<le> unat (firstpaddr (kram (kh s')))"
      by (rule vm_inv_below_grows [OF inv rest gr])
  next
    fix j
    assume "j \<in> H - {i}"
    then show "j < MAX_PM_SIZE" "valid_bit (pft s' ! j)" using vm_inv_hole [OF inv] same by auto
  next
    fix j
    assume j: "j < MAX_PM_SIZE" "j \<notin> H - {i}" "valid_bit (pft s' ! j)"
    show "owned s' j"
    proof (cases "j = i")
      case True
      then show ?thesis using at_i pte fa by (simp add: owned_def)
    next
      case False
      then have "owned s j" using j same vm_inv_owned [OF inv] by simp
      then show ?thesis using elsewhere same [OF False] fa by (auto simp: owned_def)
    qed
  next
    fix x vb d
    assume d: "pte_of s' x vb = Some d"
    show "\<exists>j. j \<notin> H - {i} \<and> owns s' x vb (physical_addr d) j"
    proof (cases "x = asp \<and> vpage vb = vpage va")
      case True
      then show ?thesis using d pte at_i i30 fa va by (intro exI [of _ i]) (auto simp: owns_def)
    next
      case False
      then obtain j where "j \<notin> H" "owns s x vb (physical_addr d) j"
        using d pte vm_inv_owns [OF inv] by metis
      moreover from this i have "j \<noteq> i" by blast
      ultimately show ?thesis using same fa by (intro exI [of _ j]) (simp add: owns_def)
    qed
  qed
qed

section \<open>Evicting a page\<close>

definition swap_ready :: "vm \<Rightarrow> u32 \<Rightarrow> bool" where
  "swap_ready s va \<longleftrightarrow> (\<exists>off. swap_offset va (swapspace s) = Some off \<and> swap_result s off = 0)"

text \<open>
  The frame of a resident page is emptied: the page is no longer mapped, its contents are in its
  swap slot, and the frame is in hand.
\<close>

lemma evict_frame_spec:
  assumes inv: "vm_inv H s" and i: "i < MAX_PM_SIZE" "i \<notin> H" "valid_bit (pft s ! i)"
    and f: "f = pft s ! i" and ready: "swap_ready s (virtual_addr f)"
  obtains s' off where "evict_frame (frame_addr s i) s = Inr s'" "vm_inv (insert i H) s'"
    "rest_same s s'" "spaces s' = spaces s" "kh s' = kh s" "pft s' = pft s"
    "ts s' = tlb_invalidate (virtual_addr f) (ts s)"
    "swap_offset (virtual_addr f) (swapspace s) = Some off"
    "swap_disk s' = copy_block off (swap_disk s) (frame_kva (frame_addr s i)) (kmem (kh s)) PAGE_SIZE"
    "\<And>x vb. pte_of s' x vb =
       (if x = p_space f \<and> vpage vb = vpage (virtual_addr f) then None else pte_of s x vb)"
    "ep_hand s' = ep_hand s"
proof -
  have pool: "pool_ok s" and wf: "tabs_wf s" using inv vm_inv_pool vm_inv_tabs by auto
  let ?v = "virtual_addr f"
  obtain e where e: "pte_of s (p_space f) ?v = Some e" "physical_addr e = frame_addr s i"
    using vm_inv_owned [OF inv i] f by (auto simp: owned_def)
  then obtain a t where a: "spaces s (p_space f) = Some a"
      "l2tabs s (as_table a (LEVEL1INDEX ?v)) = Some t" "e = pt_table t (LEVEL2INDEX ?v)"
    by (auto simp: pte_of_Some)
  obtain off where off: "swap_offset ?v (swapspace s) = Some off" "swap_result s off = 0"
    using ready by (auto simp: swap_ready_def)
  let ?t = "t\<lparr>pt_table := (pt_table t)(LEVEL2INDEX ?v := e\<lparr>valid_bit := False\<rparr>)\<rparr>"
  let ?s1 = "s\<lparr>l2tabs := (l2tabs s)(as_table a (LEVEL1INDEX ?v) \<mapsto> ?t)\<rparr>"
  let ?s' = "?s1\<lparr>swap_disk := copy_block off (swap_disk s) (frame_kva (frame_addr s i)) (kmem (kh s)) PAGE_SIZE,
                ts := tlb_invalidate ?v (ts s)\<rparr>"
  have len: "i < length (pft s)" using pool i by (simp add: pool_ok_def)
  have ev: "evict_frame (frame_addr s i) s = Inr ?s'"
    using a off len f frame_index_frame_addr(2) [OF pool i(1)]
    by (simp add: evict_frame_def set_l2_def swap_out_def Let_def)
  have pte: "pte_of ?s' x vb = (if x = p_space f \<and> vpage vb = vpage ?v then None else pte_of s x vb)"
    for x vb
  proof -
    have "pte_of ?s' x vb = pte_of ?s1 x vb" by (rule pte_of_cong) simp_all
    also have "\<dots> = (if x = p_space f \<and> vpage vb = vpage ?v then None else pte_of s x vb)"
      using pte_of_update [OF wf a(1,2) refl, of ?t "e\<lparr>valid_bit := False\<rparr>" x vb] by simp
    finally show ?thesis .
  qed
  have wf': "tabs_wf ?s'"
    using tabs_wf_update [OF wf a(2) refl, of ?t] by (simp add: tabs_wf_def)
  have rest: "rest_same s ?s'" by (simp add: rest_same_def)
  have fa: "frame_addr ?s' j = frame_addr s j" for j using rest by (rule rest_same_frame_addr)
  have only_i: "j = i" if j: "j < MAX_PM_SIZE" "j \<notin> H" "valid_bit (pft s ! j)"
      "p_space (pft s ! j) = p_space f" "vpage (virtual_addr (pft s ! j)) = vpage ?v" for j
  proof -
    obtain d where "pte_of s (p_space f) (virtual_addr (pft s ! j)) = Some d" "physical_addr d = frame_addr s j"
      using vm_inv_owned [OF inv j(1-3)] j(4) by (auto simp: owned_def)
    then show ?thesis
      using pte_of_vpage [OF j(5), of s "p_space f"] e frame_addr_inj [OF pool j(1) i(1)] by simp
  qed
  have "vm_inv (insert i H) ?s'"
    unfolding vm_inv_def
  proof (intro conjI ballI allI impI)
    show "pool_ok ?s'" using pool by (simp add: pool_ok_def frame_addr_def)
    show "tabs_wf ?s'" by fact
    show "unat (physical_base_addr ?s') + MAX_PM_SIZE * 4096 \<le> unat (firstpaddr (kram (kh ?s')))"
      using vm_inv_below [OF inv] by simp
  next
    fix j
    assume "j \<in> insert i H"
    then show "j < MAX_PM_SIZE" "valid_bit (pft ?s' ! j)" using vm_inv_hole [OF inv] i by auto
  next
    fix j
    assume j: "j < MAX_PM_SIZE" "j \<notin> insert i H" "valid_bit (pft ?s' ! j)"
    then have "owned s j" using vm_inv_owned [OF inv] by simp
    moreover have "\<not> (p_space (pft s ! j) = p_space f \<and> vpage (virtual_addr (pft s ! j)) = vpage ?v)"
      using only_i j by auto
    ultimately show "owned ?s' j" using pte fa by (auto simp: owned_def)
  next
    fix x vb d
    assume "pte_of ?s' x vb = Some d"
    then have ne: "\<not> (x = p_space f \<and> vpage vb = vpage ?v)" and d: "pte_of s x vb = Some d"
      using pte by (auto split: if_splits)
    then obtain j where "j \<notin> H" "owns s x vb (physical_addr d) j"
      using vm_inv_owns [OF inv] by metis
    moreover from this ne f have "j \<noteq> i" by (auto simp: owns_def)
    ultimately show "\<exists>j. j \<notin> insert i H \<and> owns ?s' x vb (physical_addr d) j"
      using fa by (intro exI [of _ j]) (simp add: owns_def)
  qed
  then show thesis
    using that [of ?s' off] ev rest off(1) pte by simp
qed

end
