(* ===== verification/Paging.thy ===== *)
theory Paging
  imports PageMap
begin

unbundle bit_operations_syntax

text \<open>
  Demand paging: the allocation of frames with replacement, bringing a page in, the translation
  of an address and the fault handler of \<open>kern/vm/addrspace.c\<close> keep the invariant of the page
  map, return a frame that no other page is mapped to, and keep the TLB in step with the
  page tables, slot 0 apart.
\<close>

section \<open>Taking free frames\<close>

definition take_frame :: "page_table_entry \<Rightarrow> page_table_entry" where
  "take_frame e = e\<lparr>valid_bit := True, dirty_bit := False, ref_bit := False\<rparr>"

lemma take_frame_sel [simp]:
  "valid_bit (take_frame e)" "physical_addr (take_frame e) = physical_addr e"
  "virtual_addr (take_frame e) = virtual_addr e" "p_space (take_frame e) = p_space e"
  by (simp_all add: take_frame_def)

text \<open>
  The outcome of the first loop: \<open>fs\<close> are the frames taken, the list holds their addresses, and
  when there are fewer than wanted then all free ones were taken.
\<close>

definition taken :: "nat \<Rightarrow> nat \<Rightarrow> int \<Rightarrow> u32 list \<Rightarrow> page_table_entry list \<Rightarrow> nat list
    \<Rightarrow> nat \<times> nat \<times> u32 list \<times> page_table_entry list \<Rightarrow> bool" where
  "taken i j k pl t fs r \<longleftrightarrow>
     (case r of (i', j', pl', t') \<Rightarrow>
        j' = j + length fs \<and> int j' \<le> k \<and> distinct fs
        \<and> (\<forall>x \<in> set fs. i \<le> x \<and> x < MAX_PM_SIZE \<and> \<not> valid_bit (t ! x))
        \<and> pl' = take j pl @ map (\<lambda>x. physical_addr (t ! x)) fs @ drop j' pl
        \<and> length t' = length t
        \<and> (\<forall>x < length t. t' ! x = (if x \<in> set fs then take_frame (t ! x) else t ! x))
        \<and> (int j' < k \<longrightarrow> i' = MAX_PM_SIZE
            \<and> (\<forall>x. i \<le> x \<longrightarrow> x < MAX_PM_SIZE \<longrightarrow> \<not> valid_bit (t ! x) \<longrightarrow> x \<in> set fs)))"

lemma takenD:
  assumes "taken i j k pl t fs (i', j', pl', t')"
  shows "j' = j + length fs" "int j' \<le> k" "distinct fs"
    "x \<in> set fs \<Longrightarrow> i \<le> x \<and> x < MAX_PM_SIZE \<and> \<not> valid_bit (t ! x)"
    "pl' = take j pl @ map (\<lambda>x. physical_addr (t ! x)) fs @ drop j' pl"
    "length t' = length t"
    "x < length t \<Longrightarrow> t' ! x = (if x \<in> set fs then take_frame (t ! x) else t ! x)"
    "int j' < k \<Longrightarrow> i' = MAX_PM_SIZE"
    "int j' < k \<Longrightarrow> i \<le> x \<Longrightarrow> x < MAX_PM_SIZE \<Longrightarrow> \<not> valid_bit (t ! x) \<Longrightarrow> x \<in> set fs"
  using assms unfolding taken_def prod.case by blast+

lemma takenI:
  assumes "j' = j + length fs" "int j' \<le> k" "distinct fs"
    "\<And>x. x \<in> set fs \<Longrightarrow> i \<le> x \<and> x < MAX_PM_SIZE \<and> \<not> valid_bit (t ! x)"
    "pl' = take j pl @ map (\<lambda>x. physical_addr (t ! x)) fs @ drop j' pl"
    "length t' = length t"
    "\<And>x. x < length t \<Longrightarrow> t' ! x = (if x \<in> set fs then take_frame (t ! x) else t ! x)"
    "int j' < k \<Longrightarrow> i' = MAX_PM_SIZE"
    "\<And>x. int j' < k \<Longrightarrow> i \<le> x \<Longrightarrow> x < MAX_PM_SIZE \<Longrightarrow> \<not> valid_bit (t ! x) \<Longrightarrow> x \<in> set fs"
  shows "taken i j k pl t fs (i', j', pl', t')"
  using assms unfolding taken_def prod.case by blast

lemma taken_skip:
  assumes "taken (Suc i) j k pl t fs r" "valid_bit (t ! i)"
  shows "taken i j k pl t fs r"
proof (cases r)
  case (fields i' j' pl' t')
  note D = takenD [OF assms(1) [unfolded fields]]
  show ?thesis
    unfolding fields
  proof (rule takenI [OF D(1-3) _ D(5-8)])
    show "i \<le> x \<and> x < MAX_PM_SIZE \<and> \<not> valid_bit (t ! x)" if "x \<in> set fs" for x
      using D(4) [OF that] by simp
  next
    fix x
    assume "int j' < k" "i \<le> x" "x < MAX_PM_SIZE" "\<not> valid_bit (t ! x)"
    moreover from this assms(2) have "Suc i \<le> x" by (metis Suc_leI le_neq_implies_less)
    ultimately show "x \<in> set fs" using D(9) by blast
  qed
qed

lemma taken_step:
  assumes tk: "taken (Suc i) (Suc j) k (pl[j := physical_addr (t ! i)]) (t[i := take_frame (t ! i)]) fs r"
    and i: "i < MAX_PM_SIZE" "length t = MAX_PM_SIZE" "\<not> valid_bit (t ! i)" "j < length pl"
  shows "taken i j k pl t (i # fs) r"
proof (cases r)
  case (fields i' j' pl' t')
  let ?t = "t[i := take_frame (t ! i)]"
  note D = takenD [OF tk [unfolded fields]]
  have notin: "i \<notin> set fs" using D(4) [of i] by auto
  have other: "?t ! x = t ! x" if "x \<in> set fs" for x using that notin by (metis nth_list_update_neq)
  show ?thesis
    unfolding fields
  proof (rule takenI)
    show "j' = j + length (i # fs)" using D(1) by simp
    show "int j' \<le> k" by (rule D(2))
    show "distinct (i # fs)" using D(3) notin by simp
    show "length t' = length t" using D(6) by simp
    show "i' = MAX_PM_SIZE" if "int j' < k" using D(8) that .
    show "i \<le> x \<and> x < MAX_PM_SIZE \<and> \<not> valid_bit (t ! x)" if "x \<in> set (i # fs)" for x
      using that D(4) [of x] other [of x] i by auto
    have "map (\<lambda>x. physical_addr (?t ! x)) fs = map (\<lambda>x. physical_addr (t ! x)) fs"
      using other by simp
    then show "pl' = take j pl @ map (\<lambda>x. physical_addr (t ! x)) (i # fs) @ drop j' pl"
      using D(5) D(1) i(4) by (simp add: take_Suc_conv_app_nth)
    show "t' ! x = (if x \<in> set (i # fs) then take_frame (t ! x) else t ! x)" if "x < length t" for x
      using D(7) [of x] that notin by (cases "x = i") simp_all
    show "x \<in> set (i # fs)" if "int j' < k" "i \<le> x" "x < MAX_PM_SIZE" "\<not> valid_bit (t ! x)" for x
      using D(9) [OF that(1), of x] that by (cases "x = i") simp_all
  qed
qed

lemma alloc_free_taken:
  assumes "p \<noteq> 0" "length t = MAX_PM_SIZE" "length pl = nat k" "int j \<le> k" "i \<le> MAX_PM_SIZE"
  shows "\<exists>fs r. alloc_free i j k p pl t = Inr r \<and> taken i j k pl t fs r"
  using assms
proof (induction i j k p pl t rule: alloc_free.induct)
  case (1 i j k p pl t)
  show ?case
  proof (cases "i < MAX_PM_SIZE \<and> int j < k")
    case False
    then have "alloc_free i j k p pl t = Inr (i, j, pl, t)" by (subst alloc_free.simps) auto
    moreover have "taken i j k pl t [] (i, j, pl, t)"
      using False 1(3-7) by (intro takenI) auto
    ultimately show ?thesis by blast
  next
    case True
    have get: "aget t i = Inr (t ! i)" using True 1(4) by simp
    show ?thesis
    proof (cases "valid_bit (t ! i)")
      case valid: True
      then have eq: "alloc_free i j k p pl t = alloc_free (Suc i) j k p pl t"
        using True get by (subst alloc_free.simps) simp
      have "\<exists>fs r. alloc_free (Suc i) j k p pl t = Inr r \<and> taken (Suc i) j k pl t fs r"
        using 1(2) [OF True, of "t ! i"] valid True 1(3-7) by simp
      then show ?thesis using taken_skip valid eq by metis
    next
      case free: False
      let ?pl = "pl[j := physical_addr (t ! i)]" and ?t = "t[i := take_frame (t ! i)]"
      have j: "j < length pl" using True 1(5) by linarith
      have put: "put_list p pl j (physical_addr (t ! i)) = Inr ?pl" using 1(3) j by (simp add: put_list_def)
      have eq: "alloc_free i j k p pl t = alloc_free (Suc i) (Suc j) k p ?pl ?t"
        using True get free put by (subst alloc_free.simps) (simp add: take_frame_def)
      have "\<exists>fs r. alloc_free (Suc i) (Suc j) k p ?pl ?t = Inr r \<and> taken (Suc i) (Suc j) k ?pl ?t fs r"
        using 1(1) [OF True, of "t ! i" ?pl, folded take_frame_def] free True 1(3-7) by simp
      then show ?thesis using taken_step True 1(4) free j eq by metis
    qed
  qed
qed

lemma vm_inv_same_frames:
  assumes "vm_inv H s" "same_frames s s'" "pool_ok s'"
  shows "vm_inv H s'"
proof -
  note sel = same_frames_sel [OF assms(2)]
  have len: "length (pft s) = MAX_PM_SIZE" using vm_inv_pool [OF assms(1)] by (simp add: pool_ok_def)
  have "tabs_wf s'" using vm_inv_tabs [OF assms(1)] sel by (simp add: tabs_wf_def)
  moreover have "pte_of s' x vb = pte_of s x vb" for x vb using sel by (intro pte_of_cong) simp_all
  moreover have "no_ref (pft s' ! j) = no_ref (pft s ! j)" if "j < MAX_PM_SIZE" for j
    using same_frames_nth [OF assms(2)] that len by simp
  then have "valid_bit (pft s' ! j) = valid_bit (pft s ! j) \<and> p_space (pft s' ! j) = p_space (pft s ! j)
      \<and> virtual_addr (pft s' ! j) = virtual_addr (pft s ! j)" if "j < MAX_PM_SIZE" for j
    using that no_ref_eqD by blast
  ultimately show ?thesis
    using assms(3) sel by (intro vm_inv_cong [OF assms(1)]) simp_all
qed

text \<open>Marking free frames as taken puts them in hand.\<close>

lemma vm_inv_take:
  assumes inv: "vm_inv H s" and fs: "\<forall>x \<in> set fs. x < MAX_PM_SIZE \<and> \<not> valid_bit (pft s ! x)"
    and len: "length t = length (pft s)"
    and t: "\<forall>x < length (pft s). t ! x = (if x \<in> set fs then take_frame (pft s ! x) else pft s ! x)"
  shows "vm_inv (H \<union> set fs) (s\<lparr>pft := t\<rparr>)"
proof -
  let ?s = "s\<lparr>pft := t\<rparr>"
  have n: "length (pft s) = MAX_PM_SIZE" using vm_inv_pool [OF inv] by (simp add: pool_ok_def)
  have pte: "pte_of ?s = pte_of s" by (intro ext pte_of_cong) simp_all
  have fa: "frame_addr ?s = frame_addr s" by (intro ext) (simp add: frame_addr_def)
  have pool: "pool_ok ?s"
    using vm_inv_pool [OF inv] len t n fa by (auto simp: pool_ok_def)
  have wf: "tabs_wf ?s" using vm_inv_tabs [OF inv] by (simp add: tabs_wf_def)
  have same: "t ! x = pft s ! x" if "x < MAX_PM_SIZE" "x \<notin> set fs" for x using that t n by simp
  show ?thesis
    unfolding vm_inv_def
  proof (intro conjI ballI allI impI)
    show "pool_ok ?s" "tabs_wf ?s" by fact+
    show "unat (physical_base_addr ?s) + MAX_PM_SIZE * 4096 \<le> unat (firstpaddr (kram (kh ?s)))"
      using vm_inv_below [OF inv] by simp
  next
    fix x
    assume x: "x \<in> H \<union> set fs"
    then show "x < MAX_PM_SIZE" using vm_inv_hole [OF inv] fs by auto
    then show "valid_bit (pft ?s ! x)" using x vm_inv_hole [OF inv, of x] t n by auto
  next
    fix x
    assume "x < MAX_PM_SIZE" "x \<notin> H \<union> set fs" "valid_bit (pft ?s ! x)"
    then show "owned ?s x" using same [of x] vm_inv_owned [OF inv, of x] pte fa by (simp add: owned_def)
  next
    fix asp va e
    assume "pte_of ?s asp va = Some e"
    then obtain x where x: "x \<notin> H" "owns s asp va (physical_addr e) x"
      using pte vm_inv_owns [OF inv] by metis
    then have "x \<notin> set fs" using fs by (auto simp: owns_def)
    then show "\<exists>x. x \<notin> H \<union> set fs \<and> owns ?s asp va (physical_addr e) x"
      using x same [of x] fa by (intro exI [of _ x]) (simp add: owns_def)
  qed
qed

text \<open>A change of the heap that only grows keeps the invariant.\<close>

lemma vm_inv_heap:
  assumes "vm_inv H s" "grows (kh s) h"
  shows "vm_inv H (s\<lparr>kh := h\<rparr>)"
proof (rule vm_inv_cong [OF assms(1)])
  show "tabs_wf (s\<lparr>kh := h\<rparr>)"
    using vm_inv_tabs [OF assms(1)] assms(2) unfolding tabs_wf_def grows_def by (auto intro: less_le_trans)
  show "pool_ok (s\<lparr>kh := h\<rparr>)"
    using vm_inv_pool [OF assms(1)] by (simp add: pool_ok_def frame_addr_def)
  show "map_option physical_addr (pte_of (s\<lparr>kh := h\<rparr>) x vb) = map_option physical_addr (pte_of s x vb)"
    for x vb by (rule arg_cong [OF pte_of_cong]) simp_all
qed (use assms(2) in \<open>simp_all add: grows_def\<close>)

definition free_frames :: "vm \<Rightarrow> nat set" where
  "free_frames s = {i. i < MAX_PM_SIZE \<and> \<not> valid_bit (pft s ! i)}"

lemma finite_free_frames [simp]: "finite (free_frames s)"
  by (simp add: free_frames_def)

lemma unat_list_size: "0 \<le> k \<Longrightarrow> k < 2 ^ 20 \<Longrightarrow> unat (4 * of_int k :: u32) < 2 ^ 31"
proof -
  assume k: "0 \<le> k" "k < 2 ^ 20"
  then obtain n where "k = int n" "n < 2 ^ 20" using nonneg_int_cases [OF k(1)] by force
  then show ?thesis by (simp add: unat_word_ariths unat_of_nat)
qed

text \<open>With enough free frames, the addresses of as many free frames are returned.\<close>

lemma virtual_alloc_kpages_free:
  assumes inv: "vm_inv H s" and km: "kmalloc (4 * of_int k) (kh s) = Inr (p, h)" "p \<noteq> 0"
    and k: "0 \<le> k" "k \<le> int (card (free_frames s))"
  obtains fs t where "virtual_alloc_kpages k s = Inr (p, map (frame_addr s) fs, s\<lparr>kh := h, pft := t\<rparr>)"
    "length fs = nat k" "distinct fs" "set fs \<subseteq> free_frames s" "set fs \<inter> H = {}"
    "vm_inv (H \<union> set fs) (s\<lparr>kh := h, pft := t\<rparr>)" "grows (kh s) h"
    "\<forall>x < MAX_PM_SIZE. t ! x = (if x \<in> set fs then take_frame (pft s ! x) else pft s ! x)"
proof -
  have pool: "pool_ok s" using vm_inv_pool [OF inv] .
  then have n: "length (pft s) = MAX_PM_SIZE" by (simp add: pool_ok_def)
  have "card (free_frames s) \<le> card {..<MAX_PM_SIZE}"
    by (rule card_mono) (auto simp: free_frames_def)
  then have "k < 2 ^ 20" using k by (simp add: MAX_PM_SIZE_def)
  then have gr: "grows (kh s) h"
    using kmalloc_grows [OF tabs_wf_ram [OF vm_inv_tabs [OF inv]] unat_list_size km(1)] k by simp
  let ?pl = "map (\<lambda>j. load32 (kmem h) (p + 4 * of_nat j)) [0..<nat k]"
  obtain fs r where r: "alloc_free 0 0 k p ?pl (pft s) = Inr r" "taken 0 0 k ?pl (pft s) fs r"
    using alloc_free_taken [of p "pft s" ?pl k 0 0] km(2) n k by auto
  obtain i' j' pl' t where rr: "r = (i', j', pl', t)" by (cases r)
  note D = takenD [OF r(2) [unfolded rr]]
  have sub: "set fs \<subseteq> free_frames s" and dist: "distinct fs"
    using D(3,4) by (auto simp: free_frames_def)
  have "j' = nat k"
  proof (rule ccontr)
    assume "j' \<noteq> nat k"
    moreover have "int j' \<le> k" by (rule D(2))
    ultimately have short: "int j' < k" by linarith
    then have "free_frames s \<subseteq> set fs" using D(9) by (auto simp: free_frames_def)
    then have "card (free_frames s) \<le> length fs"
      using card_mono [of "set fs" "free_frames s"] distinct_card [OF dist] by simp
    moreover have "j' = length fs" using D(1) by simp
    ultimately show False using short k by simp
  qed
  then have j': "nat k = j'" "length fs = nat k" using D(1) by simp_all
  have "pl' = map (\<lambda>x. physical_addr (pft s ! x)) fs"
    using D(5) j' by simp
  also have "\<dots> = map (frame_addr s) fs"
    using sub pool by (auto simp: free_frames_def pool_ok_def)
  finally have pl': "pl' = map (frame_addr s) fs" .
  have t: "\<forall>x < length (pft s). t ! x = (if x \<in> set fs then take_frame (pft s ! x) else pft s ! x)"
    "length t = length (pft s)"
    using D(6,7) by simp_all
  have "vm_inv (H \<union> set fs) (s\<lparr>kh := h\<rparr>\<lparr>pft := t\<rparr>)"
    using sub t by (intro vm_inv_take [OF vm_inv_heap [OF inv gr]]) (auto simp: free_frames_def)
  moreover have "virtual_alloc_kpages k s = Inr (p, map (frame_addr s) fs, s\<lparr>kh := h, pft := t\<rparr>)"
    using km r(1) pl' j' by (simp add: virtual_alloc_kpages_def vm_kmalloc_def rr Let_def)
  moreover have "set fs \<inter> H = {}" using sub vm_inv_hole [OF inv] by (auto simp: free_frames_def)
  ultimately show thesis using that [of fs t] sub dist j' gr t n by simp
qed

section \<open>Evicting under any policy\<close>

lemma same_frames_rest: "same_frames s s' \<Longrightarrow> rest_same s s'"
  by (cases s, cases s') (simp add: same_frames_def rest_same_def)

text \<open>
  What one round of replacement leaves: the frame \<open>i\<close> is in hand, the page that owned it is not
  mapped any more, its contents are in its slot of the swap device, its TLB entry is dropped.
\<close>

definition evicted :: "nat \<Rightarrow> vm \<Rightarrow> vm \<Rightarrow> bool" where
  "evicted i s s' \<longleftrightarrow>
     (let v = virtual_addr (pft s ! i); owner = p_space (pft s ! i)
      in i < MAX_PM_SIZE \<and> valid_bit (pft s ! i) \<and> vm_inv {i} s' \<and> rest_same s s'
         \<and> spaces s' = spaces s \<and> kh s' = kh s \<and> map no_ref (pft s') = map no_ref (pft s)
         \<and> ts s' = tlb_invalidate v (ts s)
         \<and> (\<exists>off. swap_offset v (swapspace s) = Some off \<and> swap_disk s' =
              copy_block off (swap_disk s) (frame_kva (frame_addr s i)) (kmem (kh s)) PAGE_SIZE)
         \<and> (\<forall>x vb. pte_of s' x vb =
              (if x = owner \<and> vpage vb = vpage v then None else pte_of s x vb)))"

context replacement_policy
begin

lemma policy_evicts:
  assumes inv: "vm_inv {} s" and full: "\<forall>i < MAX_PM_SIZE. valid_bit (pft s ! i)"
    and ready: "\<forall>i < MAX_PM_SIZE. swap_ready s (virtual_addr (pft s ! i))"
  shows "\<exists>i s1 s'. policy s = Inr (frame_addr s i, s1) \<and> evict_frame (frame_addr s i) s1 = Inr s'
    \<and> evicted i s s'"
proof -
  have pool: "pool_ok s" using vm_inv_pool [OF inv] .
  obtain i s1 where i: "i < MAX_PM_SIZE" and s1: "policy s = Inr (frame_addr s i, s1)"
      "same_frames s s1" "pool_ok s1"
    using policy_picks [OF pool] by blast
  note sel = same_frames_sel [OF s1(2)]
  have len: "i < length (pft s)" using pool i by (simp add: pool_ok_def)
  note f = no_ref_eqD [OF same_frames_nth [OF s1(2) len]]
  have inv1: "vm_inv {} s1" by (rule vm_inv_same_frames [OF inv s1(2,3)])
  have fa: "frame_addr s1 i = frame_addr s i" using sel by (simp add: frame_addr_def)
  have pte: "pte_of s1 = pte_of s" using sel by (intro ext pte_of_cong) simp_all
  have v1: "valid_bit (pft s1 ! i)" using full i f by simp
  have "swap_ready s (virtual_addr (pft s ! i))" using ready i by blast
  then have r1: "swap_ready s1 (virtual_addr (pft s1 ! i))" using f sel by (simp add: swap_ready_def)
  have "i \<notin> {}" by simp
  obtain s' off where
      s': "evict_frame (frame_addr s1 i) s1 = Inr s'" "vm_inv {i} s'" "rest_same s1 s'"
        "spaces s' = spaces s1" "kh s' = kh s1" "pft s' = pft s1"
        "ts s' = tlb_invalidate (virtual_addr (pft s1 ! i)) (ts s1)"
        "swap_offset (virtual_addr (pft s1 ! i)) (swapspace s1) = Some off"
        "swap_disk s' = copy_block off (swap_disk s1) (frame_kva (frame_addr s1 i)) (kmem (kh s1)) PAGE_SIZE"
      and pte': "\<And>x vb. pte_of s' x vb = (if x = p_space (pft s1 ! i) \<and> vpage vb = vpage (virtual_addr (pft s1 ! i))
          then None else pte_of s1 x vb)"
    by (rule evict_frame_spec [OF inv1 i \<open>i \<notin> {}\<close> v1 refl r1]) blast
  have "evicted i s s'"
    unfolding evicted_def Let_def
  proof (intro conjI)
    show "rest_same s s'" using rest_same_trans [OF same_frames_rest [OF s1(2)] s'(3)] .
    show "map no_ref (pft s') = map no_ref (pft s)" using s'(6) s1(2) by (simp add: same_frames_def)
    show "\<exists>off. swap_offset (virtual_addr (pft s ! i)) (swapspace s) = Some off \<and> swap_disk s' =
        copy_block off (swap_disk s) (frame_kva (frame_addr s i)) (kmem (kh s)) PAGE_SIZE"
      using s'(8,9) f sel fa by auto
    show "\<forall>x vb. pte_of s' x vb = (if x = p_space (pft s ! i) \<and> vpage vb = vpage (virtual_addr (pft s ! i))
        then None else pte_of s x vb)"
      using pte' pte f by simp
  qed (use i full s' sel f in simp_all)
  then show ?thesis using s1(1) s'(1) fa by auto
qed

end

section \<open>One frame\<close>

text \<open>
  \<open>virtual_alloc_kpages 1\<close>: a free frame when there is one, else the frame of an evicted page.
\<close>

definition took_free :: "nat \<Rightarrow> vm \<Rightarrow> vm \<Rightarrow> bool" where
  "took_free i s s' \<longleftrightarrow> i < MAX_PM_SIZE \<and> \<not> valid_bit (pft s ! i) \<and> vm_inv {i} s' \<and> rest_same s s'
     \<and> spaces s' = spaces s \<and> kh s' = kh s \<and> ts s' = ts s \<and> swap_disk s' = swap_disk s
     \<and> pte_of s' = pte_of s
     \<and> (\<forall>x < MAX_PM_SIZE. pft s' ! x = (if x = i then take_frame (pft s ! x) else pft s ! x))"

lemma virtual_alloc_one:
  assumes inv: "vm_inv {} s" and km: "kmalloc 4 (kh s) = Inr (p, h)" "p \<noteq> 0"
    and ready: "\<forall>i < MAX_PM_SIZE. valid_bit (pft s ! i) \<longrightarrow> swap_ready s (virtual_addr (pft s ! i))"
  shows "\<exists>i s'. virtual_alloc_kpages 1 s = Inr (p, [frame_addr s i], s')
    \<and> (took_free i (s\<lparr>kh := h\<rparr>) s' \<or> evicted i (s\<lparr>kh := h\<rparr>) s') \<and> grows (kh s) h"
proof (cases "free_frames s = {}")
  case False
  then have one: "1 \<le> int (card (free_frames s))" by (simp add: Suc_le_eq card_gt_0_iff)
  have km1: "kmalloc (4 * of_int 1) (kh s) = Inr (p, h)" using km(1) by simp
  obtain fs t where
      va: "virtual_alloc_kpages 1 s = Inr (p, map (frame_addr s) fs, s\<lparr>kh := h, pft := t\<rparr>)"
        "length fs = nat 1" "set fs \<subseteq> free_frames s" "vm_inv ({} \<union> set fs) (s\<lparr>kh := h, pft := t\<rparr>)"
        "grows (kh s) h"
      and t: "\<forall>x < MAX_PM_SIZE. t ! x = (if x \<in> set fs then take_frame (pft s ! x) else pft s ! x)"
    by (rule virtual_alloc_kpages_free [OF inv km1 km(2) zero_le_one one]) blast
  obtain i where i: "fs = [i]" using va(2) by (auto simp: length_Suc_conv)
  have "took_free i (s\<lparr>kh := h\<rparr>) (s\<lparr>kh := h, pft := t\<rparr>)"
    unfolding took_free_def
  proof (intro conjI)
    show "pte_of (s\<lparr>kh := h, pft := t\<rparr>) = pte_of (s\<lparr>kh := h\<rparr>)"
      by (intro ext pte_of_cong) simp_all
  qed (use va i t in \<open>simp_all add: free_frames_def rest_same_def\<close>)
  then show ?thesis using va i by auto
next
  case True
  have gr: "grows (kh s) h"
    using kmalloc_grows [OF tabs_wf_ram [OF vm_inv_tabs [OF inv]] _ km(1)] by simp
  have full: "\<forall>i < MAX_PM_SIZE. valid_bit (pft s ! i)" using True by (auto simp: free_frames_def)
  have n: "length (pft s) = MAX_PM_SIZE" using vm_inv_pool [OF inv] by (simp add: pool_ok_def)
  let ?s = "s\<lparr>kh := h\<rparr>"
  have inv': "vm_inv {} ?s" by (rule vm_inv_heap [OF inv gr])
  have ready': "\<forall>i < MAX_PM_SIZE. swap_ready ?s (virtual_addr (pft ?s ! i))"
    using ready full by (simp add: swap_ready_def)
  obtain i s1 s' where s': "replace_page ?s = Inr (frame_addr ?s i, s1)"
      "evict_frame (frame_addr ?s i) s1 = Inr s'" "evicted i ?s s'"
    using replace.policy_evicts [OF inv' _ ready'] full by auto
  have fa: "frame_addr ?s i = frame_addr s i" by (simp add: frame_addr_def)
  let ?pl = "map (\<lambda>j. load32 (kmem h) (p + 4 * of_nat j)) [0..<nat 1]"
  obtain fs r where r: "alloc_free 0 0 1 p ?pl (pft s) = Inr r" "taken 0 0 1 ?pl (pft s) fs r"
    using alloc_free_taken [of p "pft s" ?pl 1 0 0] km(2) n by auto
  obtain i' j' pl' t where rr: "r = (i', j', pl', t)" by (cases r)
  note D = takenD [OF r(2) [unfolded rr]]
  have fs: "fs = []" using D(4) full by (cases fs) auto
  then have "j' = 0" "i' = MAX_PM_SIZE" "pl' = ?pl" using D(1,5,8) by simp_all
  moreover have "t = pft s" using D(6,7) fs by (intro nth_equalityI) simp_all
  ultimately have r': "alloc_free 0 0 1 p ?pl (pft s) = Inr (MAX_PM_SIZE, 0, ?pl, pft s)"
    using r(1) rr by simp
  have s: "s\<lparr>kh := h, pft := pft s\<rparr> = s\<lparr>kh := h\<rparr>" by simp
  have "virtual_alloc_kpages 1 s = Inr (p, [frame_addr s i], s')"
    using km r' s'(1,2) fa s
    by (simp add: virtual_alloc_kpages_def vm_kmalloc_def evict_into_def put_list_def)
  then show ?thesis using s'(3) gr by blast
qed

end
