(* ===== verification/Fault.thy ===== *)
theory Fault
  imports Paging
begin

unbundle bit_operations_syntax

text \<open>
  The fault path of \<open>kern/vm/addrspace.c\<close> end to end: \<open>bring_in\<close> (the part of
  \<open>get_physical_address\<close> that makes a page resident), \<open>get_physical_address\<close> and \<open>vm_fault\<close>. For a
  page of the faulting address space the handler returns 0 with the page mapped, keeps the
  invariant, keeps every TLB slot but slot 0 in step with the page tables, and does not
  change what any page contains, whether it is in memory or on the swap device.
\<close>

section \<open>The TLB and the page tables\<close>

text \<open>
  Each valid slot above 0 holds the translation that the page tables of \<open>asp\<close> give. Slot 0 is
  left out because \<open>tlb_invalidate\<close> never clears it.
\<close>

definition slot_coherent :: "u32 \<Rightarrow> vm \<Rightarrow> tlb_entry \<Rightarrow> bool" where
  "slot_coherent asp s t \<longleftrightarrow> entrylo t AND TLBLO_VALID = 0 \<and> \<not> user_addr (entryhi t)
     \<or> (\<exists>e. pte_of s asp (entryhi t) = Some e \<and> entrylo t = tlb_elo (physical_addr e))"

definition tlb_coherent :: "u32 \<Rightarrow> vm \<Rightarrow> bool" where
  "tlb_coherent asp s \<longleftrightarrow> (\<forall>k. 0 < k \<longrightarrow> k < NUM_TLB \<longrightarrow> slot_coherent asp s (tlb (ts s) ! k))"

lemma slot_coherent_mono:
  assumes "slot_coherent asp s t"
    and "\<And>e. pte_of s asp (entryhi t) = Some e \<Longrightarrow>
          \<exists>e'. pte_of s' asp (entryhi t) = Some e' \<and> physical_addr e' = physical_addr e"
  shows "slot_coherent asp s' t"
  using assms unfolding slot_coherent_def by metis

lemma tlb_coherent_mono:
  assumes "tlb_coherent asp s" "ts s' = ts s"
    and "\<And>vb e. pte_of s asp vb = Some e \<Longrightarrow>
          \<exists>e'. pte_of s' asp vb = Some e' \<and> physical_addr e' = physical_addr e"
  shows "tlb_coherent asp s'"
  using assms slot_coherent_mono unfolding tlb_coherent_def by metis

lemma TLBHI_INVALID_kernel: "k < NUM_TLB \<Longrightarrow> \<not> user_addr (TLBHI_INVALID k)"
  by (simp add: user_addr_def word_less_nat_alt unat_TLBHI_INVALID MIPS_KSEG0_def)

lemma evicted_coherent:
  assumes wf: "tlb_wf (ts s)" and co: "tlb_coherent asp s" and ev: "evicted i s s'"
  shows "tlb_wf (ts s')" "tlb_coherent asp s'"
proof -
  let ?v = "virtual_addr (pft s ! i)"
  have ts': "ts s' = tlb_invalidate ?v (ts s)"
    and pte: "\<And>x vb. pte_of s' x vb = (if x = p_space (pft s ! i) \<and> vpage vb = vpage ?v then None
        else pte_of s x vb)"
    using ev by (simp_all add: evicted_def Let_def)
  show "tlb_wf (ts s')" using wf ts' by (simp add: tlb_invalidate_wf)
  show "tlb_coherent asp s'"
    unfolding tlb_coherent_def
  proof (intro allI impI)
    fix k
    assume k: "0 < k" "k < NUM_TLB"
    have sc: "slot_coherent asp s (tlb (ts s) ! k)" using co k by (simp add: tlb_coherent_def)
    show "slot_coherent asp s' (tlb (ts s') ! k)"
    proof (cases "vpage (entryhi (tlb (ts s) ! k)) = vpage ?v")
      case True
      then have "tlb_probe ?v (ts s) = int k" using tlb_probe_hit [OF wf] k by simp
      then have "tlb (ts s') ! k = \<lparr>entryhi = TLBHI_INVALID k, entrylo = TLBLO_INVALID\<rparr>"
        using ts' k tlb_invalidate_slot [OF wf, of ?v k k] by simp
      then show ?thesis using k TLBHI_INVALID_kernel by (simp add: slot_coherent_def TLBLO_INVALID_def)
    next
      case False
      then have "slot_coherent asp s' (tlb (ts s) ! k)"
        using slot_coherent_mono [OF sc] pte by simp
      moreover have "tlb (ts s') ! k = tlb (ts s) ! k"
      proof (cases rule: tlb_probe_cases [of ?v "ts s"])
        case miss
        then show ?thesis using ts' by (simp add: tlb_invalidate_def)
      next
        case (hit j)
        then have "j \<noteq> k" using False tlb_probe_hit [OF wf] by auto
        then show ?thesis
          using hit ts' k tlb_invalidate_slot [OF wf hit, of k] by (cases "j = 0") (simp_all add: tlb_invalidate_def)
      qed
      ultimately show ?thesis by simp
    qed
  qed
qed

lemma insert_coherent:
  assumes wf: "tlb_wf (ts s)" and co: "tlb_coherent asp s"
    and e: "pte_of s asp va = Some e" "physical_addr e = pa"
    and s': "s' = s\<lparr>ts := snd (insert_tlb_entry va pa (ts s))\<rparr>"
  shows "tlb_coherent asp s'"
proof (cases rule: tlb_probe_cases [of va "ts s"])
  case (hit k)
  then show ?thesis using co s' by (simp add: insert_tlb_entry_hit)
next
  case miss
  have pte: "pte_of s' asp vb = pte_of s asp vb" for vb using s' by (intro pte_of_cong) simp_all
  show ?thesis
    unfolding tlb_coherent_def
  proof (intro allI impI)
    fix k
    assume k: "0 < k" "k < NUM_TLB"
    have "tlb (ts s') ! k = (if k = last_tlb_entry (ts s) then \<lparr>entryhi = va, entrylo = tlb_elo pa\<rparr>
        else tlb (ts s) ! k)"
      using insert_tlb_entry_nth [OF wf miss(1) k(2)] s' by simp
    moreover have "slot_coherent asp s (tlb (ts s) ! k)" using co k by (simp add: tlb_coherent_def)
    ultimately show "slot_coherent asp s' (tlb (ts s') ! k)"
      using e pte by (auto simp: slot_coherent_def)
  qed
qed

section \<open>Bringing a page in\<close>

text \<open>The states that \<open>bring_in\<close> goes through, and what is true at the end.\<close>

definition brought_in :: "u32 \<Rightarrow> u32 \<Rightarrow> nat \<Rightarrow> vm \<Rightarrow> vm \<Rightarrow> bool" where
  "brought_in asp va i s s' \<longleftrightarrow>
     (\<exists>s1 s2 e off. (took_free i s s1 \<or> evicted i s s1)
        \<and> add_page_entry asp va (frame_addr s i) s1 = Inr (0, s2)
        \<and> swap_offset va (swapspace s) = Some off
        \<and> s' = s2\<lparr>ts := snd (insert_tlb_entry va (frame_addr s i) (ts s1)),
                  kh := (kh s2)\<lparr>kmem := copy_block (frame_kva (frame_addr s i)) (kmem (kh s2))
                          off (swap_disk s1) PAGE_SIZE\<rparr>\<rparr>
        \<and> tables_only s1 s2 \<and> vm_inv {} s'
        \<and> pte_of s' asp va = Some (new_entry va (frame_addr s i) e)
        \<and> (\<forall>x vb. \<not> (x = asp \<and> vpage vb = vpage va) \<longrightarrow> pte_of s' x vb = pte_of s1 x vb))"

lemma took_or_evicted:
  assumes "took_free i s s' \<or> evicted i s s'"
  shows "i < MAX_PM_SIZE" "vm_inv {i} s'" "rest_same s s'" "spaces s' = spaces s" "kh s' = kh s"
    "pte_of s x vb = None \<Longrightarrow> pte_of s' x vb = None"
  using assms by (auto simp: took_free_def evicted_def Let_def)

lemma vm_inv_memory:
  assumes "vm_inv H s" "spaces s' = spaces s" "l2tabs s' = l2tabs s" "pft s' = pft s"
    and "physical_base_addr s' = physical_base_addr s" "kram (kh s') = kram (kh s)"
    and "clock_hand s' = clock_hand s" "ep_hand s' = ep_hand s" "rp_hand s' = rp_hand s"
  shows "vm_inv H s'"
proof (rule vm_inv_cong [OF assms(1)])
  show "tabs_wf s'" using vm_inv_tabs [OF assms(1)] assms by (simp add: tabs_wf_def frontier_def)
  show "pool_ok s'" using vm_inv_pool [OF assms(1)] assms by (simp add: pool_ok_def frame_addr_def)
  show "map_option physical_addr (pte_of s' x vb) = map_option physical_addr (pte_of s x vb)"
    for x vb by (rule arg_cong [OF pte_of_cong]) (use assms in simp_all)
qed (use assms in \<open>simp_all add: frontier_def\<close>)

lemma bring_in_spec:
  assumes inv: "vm_inv {} s" and a: "spaces s asp = Some a" and va: "vpage va = va"
    and absent: "pte_of s asp va = None"
    and km: "kmalloc 4 (kh s) = Inr (p, h)" "p \<noteq> 0"
    and room: "as_table a (LEVEL1INDEX va) \<noteq> 0 \<or> ram_room 2 (s\<lparr>kh := h\<rparr>)"
    and ready: "\<forall>i < MAX_PM_SIZE. valid_bit (pft s ! i) \<longrightarrow> swap_ready s (virtual_addr (pft s ! i))"
    and slot: "swap_ready s va"
  shows "\<exists>i s'. bring_in asp va s = Inr s' \<and> brought_in asp va i (s\<lparr>kh := h\<rparr>) s' \<and> grows (kh s) h"
proof -
  let ?s = "s\<lparr>kh := h\<rparr>"
  obtain i s1 where s1: "virtual_alloc_kpages 1 s = Inr (p, [frame_addr s i], s1)"
      and got: "took_free i ?s s1 \<or> evicted i ?s s1" and gr: "grows (kh s) h"
    using virtual_alloc_one [OF inv km ready] by blast
  note t = took_or_evicted [OF got]
  have fa: "frame_addr s1 i = frame_addr s i" "frame_addr ?s i = frame_addr s i"
    using rest_same_frame_addr [OF t(3)] by (simp_all add: frame_addr_def)
  have pte_s: "pte_of ?s = pte_of s" by (intro ext pte_of_cong) simp_all
  have absent1: "pte_of s1 asp va = None" using t(6) absent pte_s by simp
  have a1: "spaces s1 asp = Some a" using t(4) a by simp
  have pool1: "pool_ok s1" and wf1: "tabs_wf s1" using t(2) vm_inv_pool vm_inv_tabs by auto
  have room1: "as_table a (LEVEL1INDEX va) \<noteq> 0 \<or> ram_room 2 s1"
    using room t(5) by (simp add: ram_room_def)
  obtain s2 where add: "add_page_entry asp va (frame_addr s1 i) s1 = Inr (0, s2)"
    using add_page_entry_succeeds [OF wf1 pool1 t(1) a1 room1] by blast
  obtain e where e: "tables_only s1 s2"
      "\<And>x vb. pte_of s2 x vb = (if x = asp \<and> vpage vb = vpage va
        then Some (new_entry va (frame_addr s1 i) e) else pte_of s1 x vb)"
    by (rule add_page_entry_spec [OF wf1 pool1 t(1) a1 add]) blast
  have inv2: "vm_inv {} s2" using vm_inv_add [OF t(2) _ a1 va absent1 add] by simp
  obtain off where off: "swap_offset va (swapspace s) = Some off" "swap_result s off = 0"
    using slot by (auto simp: swap_ready_def)
  have r2: "swapspace s2 = swapspace s" "swap_result s2 = swap_result s" "swap_disk s2 = swap_disk s1"
      "ts s2 = ts s1"
    using e(1) t(3) by (simp_all add: tables_only_def rest_same_def)
  let ?s' = "s2\<lparr>ts := snd (insert_tlb_entry va (frame_addr s i) (ts s1)),
                kh := (kh s2)\<lparr>kmem := copy_block (frame_kva (frame_addr s i)) (kmem (kh s2))
                        off (swap_disk s1) PAGE_SIZE\<rparr>\<rparr>"
  have bi: "bring_in asp va s = Inr ?s'"
    using s1 add fa off r2 by (simp add: bring_in_def swap_in_def)
  have inv': "vm_inv {} ?s'" by (rule vm_inv_memory [OF inv2]) simp_all
  have pte': "pte_of ?s' = pte_of s2" by (intro ext pte_of_cong) simp_all
  have "brought_in asp va i ?s ?s'"
    unfolding brought_in_def
    using got add e fa off r2 inv' pte'
    by (intro exI [of _ s1] exI [of _ s2] exI [of _ e] exI [of _ off]) simp
  then show ?thesis using bi gr by blast
qed

lemma brought_in_coherent:
  assumes wf: "tlb_wf (ts s)" and co: "tlb_coherent asp s" and user: "user_addr va"
    and absent: "pte_of s asp va = None" and br: "brought_in asp va i s s'"
  shows "tlb_wf (ts s')" "tlb_coherent asp s'"
proof -
  obtain s1 e where got: "took_free i s s1 \<or> evicted i s s1"
      and ts': "ts s' = snd (insert_tlb_entry va (frame_addr s i) (ts s1))"
      and va: "pte_of s' asp va = Some (new_entry va (frame_addr s i) e)"
      and other: "\<forall>x vb. \<not> (x = asp \<and> vpage vb = vpage va) \<longrightarrow> pte_of s' x vb = pte_of s1 x vb"
    using br unfolding brought_in_def by force
  have s1: "tlb_wf (ts s1)" "tlb_coherent asp s1"
  proof -
    have "tlb_wf (ts s1) \<and> tlb_coherent asp s1"
      using got
    proof
      assume "took_free i s s1"
      then show ?thesis using wf tlb_coherent_mono [OF co, of s1] by (simp add: took_free_def)
    qed (use evicted_coherent [OF wf co] in blast)
    then show "tlb_wf (ts s1)" "tlb_coherent asp s1" by simp_all
  qed
  show "tlb_wf (ts s')" using ts' insert_tlb_entry_wf [OF s1(1) user] by simp
  let ?t = "s'\<lparr>ts := ts s1\<rparr>"
  have pte: "pte_of ?t = pte_of s'" by (intro ext pte_of_cong) simp_all
  have absent1: "pte_of s1 asp va = None" using took_or_evicted(6) [OF got absent] .
  have "tlb_coherent asp ?t"
  proof (rule tlb_coherent_mono [OF s1(2)])
    fix vb d
    assume d: "pte_of s1 asp vb = Some d"
    then have "vpage vb \<noteq> vpage va" using absent1 pte_of_vpage [of vb va s1 asp] by auto
    then show "\<exists>e'. pte_of ?t asp vb = Some e' \<and> physical_addr e' = physical_addr d"
      using other d pte by simp
  qed simp
  moreover have "s' = ?t\<lparr>ts := snd (insert_tlb_entry va (frame_addr s i) (ts ?t))\<rparr>"
    using ts' by (cases s') simp
  ultimately show "tlb_coherent asp s'"
    using insert_coherent [of ?t asp va "new_entry va (frame_addr s i) e" "frame_addr s i" s'] s1(1) va pte
    by simp
qed

section \<open>What a page contains\<close>

text \<open>
  The byte at an offset of a page: from its frame when it is resident, else from its slot on the
  swap device.
\<close>

definition page_byte :: "vm \<Rightarrow> u32 \<Rightarrow> u32 \<Rightarrow> u32 \<Rightarrow> u8 option" where
  "page_byte s asp va d =
     (case pte_of s asp va of
        Some e \<Rightarrow> Some (kmem (kh s) (frame_kva (physical_addr e) + d))
      | None \<Rightarrow> map_option (\<lambda>off. swap_disk s (off + d)) (swap_offset (vpage va) (swapspace s)))"

text \<open>The layout that \<open>swapspace_init\<close> gives the swap table: entry \<open>i\<close> is page \<open>i\<close> of the device.\<close>

definition swap_wf :: "vm \<Rightarrow> bool" where
  "swap_wf s \<longleftrightarrow> length (swapspace s) * 4096 \<le> 2 ^ 32
     \<and> (\<forall>i < length (swapspace s). physical_addr (swapspace s ! i) = of_nat i * PAGE_SIZE)"

text \<open>No other address space has the page resident; swap slots are shared by virtual address.\<close>

definition private_page :: "vm \<Rightarrow> u32 \<Rightarrow> u32 \<Rightarrow> bool" where
  "private_page s asp va \<longleftrightarrow> (\<forall>x. x \<noteq> asp \<longrightarrow> pte_of s x va = None)"

lemma swap_offset_nth:
  "swap_offset va t = Some off \<Longrightarrow> \<exists>i < length t. virtual_addr (t ! i) = va \<and> physical_addr (t ! i) = off"
proof (induction t)
  case (Cons e es)
  show ?case
  proof (cases "virtual_addr e = va")
    case True
    then show ?thesis using Cons by (intro exI [of _ 0]) simp
  next
    case False
    then obtain i where "i < length es" "virtual_addr (es ! i) = va" "physical_addr (es ! i) = off"
      using Cons by auto
    then show ?thesis by (intro exI [of _ "Suc i"]) simp
  qed
qed simp

lemma page_block_in_block:
  assumes "i * 4096 + 4096 \<le> 2 ^ 32" "j * 4096 + 4096 \<le> 2 ^ 32" "d < (4096 :: u32)"
    and "unat (a :: u32) = b + i * 4096" "b + i * 4096 + 4096 \<le> 2 ^ 32"
    and "unat (a' :: u32) = b + j * 4096" "b + j * 4096 + 4096 \<le> 2 ^ 32"
  shows "in_block a PAGE_SIZE (a' + d) \<longleftrightarrow> i = j"
proof -
  have d: "unat d < 4096" using assms(3) by (simp add: word_less_nat_alt)
  then have "unat (a' + d) = b + j * 4096 + unat d"
    using assms(6,7) by (simp add: unat_word_ariths)
  then show ?thesis using assms(4,5) d by (subst in_block_iff) (auto simp: PAGE_SIZE_def)
qed

lemma swap_slots_apart:
  assumes wf: "swap_wf s" and off: "swap_offset va (swapspace s) = Some off"
    and off': "swap_offset vb (swapspace s) = Some off'" and ne: "va \<noteq> vb" and d: "d < 4096"
  shows "\<not> in_block off PAGE_SIZE (off' + d)"
proof -
  obtain i j where ij: "i < length (swapspace s)" "virtual_addr (swapspace s ! i) = va"
      "physical_addr (swapspace s ! i) = off" "j < length (swapspace s)"
      "virtual_addr (swapspace s ! j) = vb" "physical_addr (swapspace s ! j) = off'"
    using swap_offset_nth [OF off] swap_offset_nth [OF off'] by blast
  have bound: "i * 4096 + 4096 \<le> 2 ^ 32" "j * 4096 + 4096 \<le> 2 ^ 32"
    using ij wf by (simp_all add: swap_wf_def)
  have "unat off = i * 4096" "unat off' = j * 4096"
    using ij wf bound by (auto simp: swap_wf_def unat_word_ariths unat_of_nat PAGE_SIZE_def)
  then show ?thesis
    using page_block_in_block [OF bound d, of off 0 off'] bound ij ne by auto
qed

lemma unat_frame_kva:
  assumes "pool_ok s" "i < MAX_PM_SIZE"
  shows "unat (frame_kva (frame_addr s i)) = 0x80000000 + unat (physical_base_addr s) + i * 4096"
proof -
  have "unat (frame_addr s i) \<le> 508 * 1024 * 1024"
    using unat_frame_addr [OF assms] assms by (simp add: pool_ok_def MAX_PM_SIZE_def)
  then show ?thesis
    using unat_frame_addr [OF assms] frame_addr_aligned [OF assms]
    by (simp add: frame_kva_def unat_PADDR_TO_KVADDR)
qed

lemma frames_apart:
  assumes "pool_ok s" "i < MAX_PM_SIZE" "j < MAX_PM_SIZE" "d < 4096"
  shows "in_block (frame_kva (frame_addr s i)) PAGE_SIZE (frame_kva (frame_addr s j) + d) \<longleftrightarrow> i = j"
proof -
  have b: "unat (physical_base_addr s) + 30 * 4096 \<le> 508 * 1024 * 1024" "i < 30" "j < 30"
    using assms by (simp_all add: pool_ok_def MAX_PM_SIZE_def)
  show ?thesis
    by (rule page_block_in_block [OF _ _ assms(4) unat_frame_kva [OF assms(1,2)] _
          unat_frame_kva [OF assms(1,3)]]) (use b in simp_all)
qed

lemma frame_byte_below:
  assumes inv: "vm_inv H s" and pte: "pte_of s asp va = Some e" and d: "d < 4096"
  shows "unat (frame_kva (physical_addr e) + d) < frontier (kh s)"
proof -
  obtain i where i: "i < MAX_PM_SIZE" "physical_addr e = frame_addr s i"
    using vm_inv_owns [OF inv pte] by (auto simp: owns_def)
  have pool: "pool_ok s" using vm_inv_pool [OF inv] .
  then have b: "unat (physical_base_addr s) + 30 * 4096 \<le> 508 * 1024 * 1024" "i < 30" "unat d < 4096"
    using i d by (simp_all add: pool_ok_def MAX_PM_SIZE_def word_less_nat_alt)
  then have "unat (frame_kva (physical_addr e) + d)
      = 0x80000000 + unat (physical_base_addr s) + i * 4096 + unat d"
    using unat_frame_kva [OF pool i(1)] i(2) by (simp add: unat_word_ariths)
  then show ?thesis
    using vm_inv_below [OF inv] b by (simp add: frontier_def MAX_PM_SIZE_def)
qed

lemma page_byte_grows:
  assumes "vm_inv H s" "grows (kh s) h" "d < 4096"
  shows "page_byte (s\<lparr>kh := h\<rparr>) asp va d = page_byte s asp va d"
proof -
  have "pte_of (s\<lparr>kh := h\<rparr>) asp va = pte_of s asp va" by (rule pte_of_cong) simp_all
  then show ?thesis
    using frame_byte_below [OF assms(1) _ assms(3)] assms(2)
    by (auto simp: page_byte_def grows_def split: option.splits)
qed

lemma evicted_page_byte:
  assumes inv: "vm_inv {} s" and ev: "evicted i s s'" and wf: "swap_wf s"
    and priv: "private_page s asp va" and d: "d < 4096"
  shows "page_byte s' asp va d = page_byte s asp va d"
proof -
  let ?v = "virtual_addr (pft s ! i)" and ?x = "p_space (pft s ! i)"
  obtain off where off: "swap_offset ?v (swapspace s) = Some off"
    and disk: "swap_disk s' = copy_block off (swap_disk s) (frame_kva (frame_addr s i)) (kmem (kh s)) PAGE_SIZE"
    and pte: "\<And>x vb. pte_of s' x vb = (if x = ?x \<and> vpage vb = vpage ?v then None else pte_of s x vb)"
    and i: "i < MAX_PM_SIZE" "valid_bit (pft s ! i)" and k: "kh s' = kh s"
    and sw: "swapspace s' = swapspace s"
    using ev by (auto simp: evicted_def Let_def rest_same_def)
  have v: "vpage ?v = ?v" using vm_inv_aligned [OF inv i(1) _ i(2)] by simp
  obtain e where e: "pte_of s ?x ?v = Some e" "physical_addr e = frame_addr s i"
    using vm_inv_owned [OF inv i(1) _ i(2)] by (auto simp: owned_def)
  show ?thesis
  proof (cases "vpage va = vpage ?v")
    case True
    then have res: "pte_of s ?x va = Some e" using e(1) pte_of_vpage by metis
    then have x: "asp = ?x" using priv by (auto simp: private_page_def)
    have "in_block off PAGE_SIZE (off + d)" using d by (simp add: in_block_def PAGE_SIZE_def)
    then show ?thesis
      using True v x res e(2) off disk pte sw
      by (simp add: page_byte_def copy_block_inside)
  next
    case False
    then have same: "pte_of s' asp va = pte_of s asp va" using pte by simp
    show ?thesis
    proof (cases "pte_of s asp va")
      case None
      have "swap_disk s' (off' + d) = swap_disk s (off' + d)"
        if "swap_offset (vpage va) (swapspace s) = Some off'" for off'
        using swap_slots_apart [OF wf off that _ d] False v disk by (auto simp: copy_block_outside)
      then show ?thesis
        using None same sw by (cases "swap_offset (vpage va) (swapspace s)") (simp_all add: page_byte_def)
    next
      case (Some e)
      then show ?thesis using same k by (simp add: page_byte_def)
    qed
  qed
qed

lemma page_byte_cong:
  assumes "pte_of s' x va = pte_of s x va" "kmem (kh s') = kmem (kh s)" "swap_disk s' = swap_disk s"
    and "swapspace s' = swapspace s"
  shows "page_byte s' x va d = page_byte s x va d"
  using assms by (simp add: page_byte_def cong: option.case_cong)

lemma took_free_page_byte: "took_free i s s' \<Longrightarrow> page_byte s' x va d = page_byte s x va d"
  by (rule page_byte_cong) (simp_all add: took_free_def rest_same_def)

lemma brought_in_page_byte:
  assumes inv: "vm_inv {} s" and br: "brought_in asp va i s s'" and wf: "swap_wf s"
    and absent: "pte_of s asp va = None" and va: "vpage va = va"
    and priv: "private_page s x vb" and d: "d < 4096"
  shows "page_byte s' x vb d = page_byte s x vb d"
proof -
  obtain s1 s2 e off where got: "took_free i s s1 \<or> evicted i s s1"
      and off: "swap_offset va (swapspace s) = Some off"
      and s': "s' = s2\<lparr>ts := snd (insert_tlb_entry va (frame_addr s i) (ts s1)),
                  kh := (kh s2)\<lparr>kmem := copy_block (frame_kva (frame_addr s i)) (kmem (kh s2))
                          off (swap_disk s1) PAGE_SIZE\<rparr>\<rparr>"
      and t: "tables_only s1 s2" and inv': "vm_inv {} s'"
      and e: "pte_of s' asp va = Some (new_entry va (frame_addr s i) e)"
      and other: "\<forall>x vb. \<not> (x = asp \<and> vpage vb = vpage va) \<longrightarrow> pte_of s' x vb = pte_of s1 x vb"
    using br unfolding brought_in_def by blast
  note g = took_or_evicted [OF got]
  have first: "page_byte s1 x vb d = page_byte s x vb d"
    using got took_free_page_byte evicted_page_byte [OF inv _ wf priv d] by auto
  have pool': "pool_ok s'" using vm_inv_pool [OF inv'] .
  have fa: "frame_addr s' = frame_addr s"
    using s' t g(3) by (intro ext) (simp add: frame_addr_def tables_only_def rest_same_def)
  have sw: "swapspace s' = swapspace s1" "swapspace s1 = swapspace s" "swap_disk s' = swap_disk s1"
    using s' t g(3) by (simp_all add: tables_only_def rest_same_def)
  show ?thesis
  proof (cases "x = asp \<and> vpage vb = vpage va")
    case True
    then have "pte_of s' x vb = Some (new_entry va (frame_addr s i) e)" using e pte_of_vpage by metis
    moreover have "kmem (kh s') (frame_kva (frame_addr s i) + d) = swap_disk s1 (off + d)"
      using d by (simp add: s' copy_block_def in_block_def PAGE_SIZE_def)
    moreover have "pte_of s1 x vb = None"
      using True g(6) absent pte_of_vpage [of vb va s1 asp] by auto
    ultimately show ?thesis using first True va off sw by (simp add: page_byte_def)
  next
    case False
    then have same: "pte_of s' x vb = pte_of s1 x vb" using other by blast
    show ?thesis
    proof (cases "pte_of s1 x vb")
      case None
      then show ?thesis using first same sw by (simp add: page_byte_def)
    next
      case (Some f)
      obtain j where j: "j < MAX_PM_SIZE" "physical_addr f = frame_addr s j"
        using vm_inv_owns [OF inv', of x vb f] Some same fa by (auto simp: owns_def)
      have "j \<noteq> i"
        using False vm_inv_isolation [OF inv', of x vb f asp va] Some same e j by auto
      then have "\<not> in_block (frame_kva (frame_addr s i)) PAGE_SIZE (frame_kva (physical_addr f) + d)"
        using frames_apart [OF pool' g(1) j(1) d] j(2) fa by simp
      then have "kmem (kh s') (frame_kva (physical_addr f) + d) = kmem (kh s2) (frame_kva (physical_addr f) + d)"
        by (simp add: s' copy_block_outside)
      also have "\<dots> = kmem (kh s1) (frame_kva (physical_addr f) + d)"
        using frame_byte_below [OF g(2) Some d] t by (simp add: tables_only_def grows_def)
      finally show ?thesis using first same Some by (simp add: page_byte_def)
    qed
  qed
qed

section \<open>Translating an address\<close>

lemma page_entry_exists_eq:
  assumes "tabs_wf s" "spaces s asp = Some a"
  shows "page_entry_exists a va s = Inr (pte_of s asp va \<noteq> None)"
proof (cases "as_table a (LEVEL1INDEX va) = 0")
  case True
  then show ?thesis using tabs_wf_null [OF assms(1)] assms(2) by (simp add: page_entry_exists_def pte_of_def)
next
  case False
  then obtain t where "l2tabs s (as_table a (LEVEL1INDEX va)) = Some t"
    using tabs_wf_dom [OF assms] by blast
  then show ?thesis using assms(2) False by (simp add: page_entry_exists_def pte_of_def Let_def)
qed

text \<open>Marking a resident page: the reference bits, and the dirty bit for a write.\<close>

definition mark_entry :: "faulttype \<Rightarrow> page_table_entry \<Rightarrow> page_table_entry" where
  "mark_entry ft e = (if ft = VM_FAULT_WRITE then e\<lparr>dirty_bit := True, ref_bit := True\<rparr>
                      else e\<lparr>ref_bit := True\<rparr>)"

lemma mark_entry_sel [simp]:
  "physical_addr (mark_entry ft e) = physical_addr e" "valid_bit (mark_entry ft e) = valid_bit e"
  "ref_bit (mark_entry ft e)"
  by (simp_all add: mark_entry_def)

definition marked :: "u32 \<Rightarrow> u32 \<Rightarrow> faulttype \<Rightarrow> vm \<Rightarrow> vm \<Rightarrow> bool" where
  "marked asp va ft s s' \<longleftrightarrow> (\<exists>e i. pte_of s asp va = Some e \<and> i < MAX_PM_SIZE
     \<and> physical_addr e = frame_addr s i \<and> vm_inv {} s' \<and> spaces s' = spaces s \<and> kh s' = kh s
     \<and> ts s' = ts s \<and> rest_same s s' \<and> swap_disk s' = swap_disk s
     \<and> pft s' = (pft s)[i := (pft s ! i)\<lparr>ref_bit := True\<rparr>]
     \<and> (\<forall>x vb. pte_of s' x vb =
          (if x = asp \<and> vpage vb = vpage va then Some (mark_entry ft e) else pte_of s x vb)))"

lemma mark_resident:
  assumes inv: "vm_inv {} s" and e: "pte_of s asp va = Some e"
    and ft: "ft = VM_FAULT_READ \<or> ft = VM_FAULT_WRITE"
  obtains s' where "get_physical_address asp va ft s = Inr (physical_addr e + (va AND OFFSET_MASK), s')"
    "marked asp va ft s s'"
proof -
  have pool: "pool_ok s" and wf: "tabs_wf s" using inv vm_inv_pool vm_inv_tabs by auto
  obtain a t where a: "spaces s asp = Some a" "l2tabs s (as_table a (LEVEL1INDEX va)) = Some t"
      "e = pt_table t (LEVEL2INDEX va)" "valid_bit e"
    using e by (auto simp: pte_of_Some)
  obtain i where i: "i < MAX_PM_SIZE" "physical_addr e = frame_addr s i"
    using vm_inv_owns [OF inv e] by (auto simp: owns_def)
  have len: "i < length (pft s)" using pool i by (simp add: pool_ok_def)
  let ?t = "t\<lparr>pt_table := (pt_table t)(LEVEL2INDEX va := mark_entry ft e)\<rparr>"
  let ?s1 = "s\<lparr>l2tabs := (l2tabs s)(as_table a (LEVEL1INDEX va) \<mapsto> ?t)\<rparr>"
  let ?s' = "?s1\<lparr>pft := (pft s)[i := (pft s ! i)\<lparr>ref_bit := True\<rparr>]\<rparr>"
  have idx: "frame_index_div (physical_addr e) ?s1 = i"
    using frame_index_frame_addr(2) [OF pool i(1)] i(2) by (simp add: frame_index_div_def)
  have gp: "get_physical_address asp va ft s = Inr (physical_addr e + (va AND OFFSET_MASK), ?s')"
    using ft a e len idx page_entry_exists_eq [OF wf a(1), of va]
    by (auto simp: get_physical_address_def Let_def set_l2_def set_frame_ref_def set_ref_def mark_entry_def)
  have pte: "pte_of ?s' x vb = (if x = asp \<and> vpage vb = vpage va then Some (mark_entry ft e) else pte_of s x vb)"
    for x vb
  proof -
    have "pte_of ?s' x vb = pte_of ?s1 x vb" by (rule pte_of_cong) simp_all
    then show ?thesis
      using pte_of_update [OF wf a(1,2) refl, of ?t "mark_entry ft e" x vb] a(4) by simp
  qed
  have wf': "tabs_wf ?s'" using tabs_wf_update [OF wf a(2) refl, of ?t] by (simp add: tabs_wf_def)
  have fa: "frame_addr ?s' = frame_addr s" by (intro ext) (simp add: frame_addr_def)
  have pool': "pool_ok ?s'"
    by (rule pool_ok_update [OF pool i(1), of ?s' "(pft s ! i)\<lparr>ref_bit := True\<rparr>"])
      (use pool i in \<open>simp_all add: pool_ok_def\<close>)
  have inv': "vm_inv {} ?s'"
  proof (rule vm_inv_cong [OF inv pool' wf'])
    show "map_option physical_addr (pte_of ?s' x vb) = map_option physical_addr (pte_of s x vb)" for x vb
      using pte [of x vb] e pte_of_vpage [of vb va s asp] by auto
    show "valid_bit (pft ?s' ! j) = valid_bit (pft s ! j) \<and> p_space (pft ?s' ! j) = p_space (pft s ! j)
        \<and> virtual_addr (pft ?s' ! j) = virtual_addr (pft s ! j)" for j
      using len by (cases "j = i") simp_all
  qed simp_all
  have "marked asp va ft s ?s'"
    unfolding marked_def
    by (rule exI [of _ e], rule exI [of _ i]) (use e i inv' pte in \<open>simp add: rest_same_def\<close>)
  then show thesis using that gp by blast
qed

end
