(* ===== verification/KHeap.thy ===== *)
theory KHeap
  imports Kmalloc
begin

unbundle bit_operations_syntax

text \<open>
  Correctness of the kernel heap \<open>kern/vm/kmalloc.c\<close>: the invariant of its page table, lists and
  free lists, and what \<open>kmalloc\<close> and \<open>kfree\<close> do to the set of allocated blocks. The free list
  of a page is read off the memory; the lists of \<open>pageref\<close>s are read off the link fields.
\<close>

section \<open>The bitmap of pagerefs\<close>

definition used :: "kheap \<Rightarrow> nat set" where
  "used h = {p. p < NPAGEREFS \<and> bit (pagerefs_inuse h ! (p div 32)) (p mod 32)}"

lemma finite_used [simp]: "finite (used h)"
  by (simp add: used_def)

lemma card_used: "card (used h) \<le> NPAGEREFS"
  using card_mono [of "{..<NPAGEREFS}" "used h"] by (auto simp: used_def)

lemma used_cong: "pagerefs_inuse h' = pagerefs_inuse h \<Longrightarrow> used h' = used h"
  by (simp add: used_def)

lemma and_push_bit_0: "j < 32 \<Longrightarrow> (w :: u32) AND push_bit j 1 = 0 \<longleftrightarrow> \<not> bit w j"
proof
  assume "j < 32" "w AND push_bit j 1 = 0"
  then have "\<not> bit (w AND push_bit j 1) j" by simp
  then show "\<not> bit w j" using \<open>j < 32\<close> by (simp add: bit_and_iff bit_push_bit_iff bit_exp_iff)
next
  assume "\<not> bit w j"
  then show "w AND push_bit j 1 = 0"
    by (intro bit_word_eqI) (auto simp: bit_and_iff bit_push_bit_iff bit_exp_iff)
qed

lemma alloc_bit_spec:
  assumes "j \<le> i" "i < 32" "\<not> bit w i"
  shows "\<exists>k < 32. \<not> bit w k \<and> alloc_bit w (push_bit j 1) j = Some (push_bit k 1, k)"
  using assms(1)
proof (induction "i - j" arbitrary: j)
  case 0
  then have "j = i" by simp
  moreover have "push_bit i 1 \<noteq> (0 :: u32)" using assms by (auto simp: bit_eq_iff bit_push_bit_iff bit_1_iff bit_exp_iff)
  ultimately show ?case using assms and_push_bit_0 [of i w] by (subst alloc_bit.simps) auto
next
  case (Suc d)
  then have j: "j < 32" "Suc j \<le> i" using assms by simp_all
  have nz: "push_bit j 1 \<noteq> (0 :: u32)" using j by (auto simp: bit_eq_iff bit_push_bit_iff bit_1_iff bit_exp_iff)
  have nxt: "push_bit 1 (push_bit j (1 :: u32)) = push_bit (Suc j) 1" by (simp add: push_bit_push_bit)
  show ?case
  proof (cases "bit w j")
    case True
    then have "alloc_bit w (push_bit j 1) j = alloc_bit w (push_bit (Suc j) 1) (Suc j)"
      using nz and_push_bit_0 [OF j(1), of w] nxt
      by (subst alloc_bit.simps) (simp add: mult.commute)
    then show ?thesis using Suc(1) [of "Suc j"] Suc(2) j by simp
  next
    case False
    then show ?thesis using nz and_push_bit_0 [OF j(1), of w] j by (subst alloc_bit.simps) auto
  qed
qed

lemma not_all_ones: "w \<noteq> 0xffffffff \<Longrightarrow> \<exists>i < 32. \<not> bit (w :: u32) i"
proof (rule ccontr)
  assume w: "w \<noteq> 0xffffffff" "\<not> (\<exists>i < 32. \<not> bit w i)"
  have "w = mask 32" using w(2) by (intro bit_word_eqI) (simp add: bit_mask_iff)
  then show False using w(1) by (simp add: mask_eq_exp_minus_1)
qed

text \<open>A free \<open>pageref\<close> is found exactly when one is free.\<close>

lemma allocpageref_from_spec:
  assumes "length (pagerefs_inuse h) = INUSE_WORDS" "i \<le> INUSE_WORDS"
  shows "(allocpageref_from i h = Inr (None, h) \<and> (\<forall>p < NPAGEREFS. i \<le> p div 32 \<longrightarrow> p \<in> used h))
    \<or> (\<exists>p u. allocpageref_from i h = Inr (Some p, h\<lparr>pagerefs_inuse := u\<rparr>) \<and> length u = INUSE_WORDS
        \<and> p < NPAGEREFS \<and> p \<notin> used h \<and> used (h\<lparr>pagerefs_inuse := u\<rparr>) = insert p (used h))"
  using assms
proof (induction i h rule: allocpageref_from.induct)
  case (1 i h)
  let ?w = "pagerefs_inuse h ! i"
  show ?case
  proof (cases "i < INUSE_WORDS")
    case False
    then have "allocpageref_from i h = Inr (None, h)" by (subst allocpageref_from.simps) simp
    then show ?thesis using False by (auto simp: INUSE_WORDS_def NPAGEREFS_def)
  next
    case i: True
    have get: "aget (pagerefs_inuse h) i = Inr ?w" using i 1 by simp
    show ?thesis
    proof (cases "?w = 0xffffffff")
      case True
      then have eq: "allocpageref_from i h = allocpageref_from (Suc i) h"
        using i get by (subst allocpageref_from.simps) simp
      have ones: "(0xffffffff :: u32) = mask 32" by (simp add: mask_eq_exp_minus_1)
      have "bit ?w n" if "n < 32" for n unfolding True ones using that by (simp add: bit_mask_iff)
      then have here: "p \<in> used h" if "p < NPAGEREFS" "p div 32 = i" for p
        using that by (simp add: used_def)
      have "i \<le> p div 32 \<longleftrightarrow> p div 32 = i \<or> Suc i \<le> p div 32" for p :: nat by auto
      then show ?thesis using 1(1) [OF i _ _] get True i 1(2) here unfolding eq by auto
    next
      case False
      then obtain n where "n < 32" "\<not> bit ?w n" using not_all_ones by blast
      then obtain k where k: "k < 32" "\<not> bit ?w k" "alloc_bit ?w (push_bit 0 1) 0 = Some (push_bit k 1, k)"
        using alloc_bit_spec [of 0 n ?w] by auto
      let ?u = "(pagerefs_inuse h)[i := ?w OR push_bit k 1]" and ?p = "i * 32 + k"
      have "allocpageref_from i h = Inr (Some ?p, h\<lparr>pagerefs_inuse := ?u\<rparr>)"
        using i get False k(3) by (subst allocpageref_from.simps) simp
      moreover have p: "?p < NPAGEREFS" using i k by (simp add: INUSE_WORDS_def NPAGEREFS_def)
      moreover have "?p \<notin> used h" using k by (simp add: used_def)
      moreover have "used (h\<lparr>pagerefs_inuse := ?u\<rparr>) = insert ?p (used h)"
      proof (rule set_eqI)
        fix q
        show "q \<in> used (h\<lparr>pagerefs_inuse := ?u\<rparr>) \<longleftrightarrow> q \<in> insert ?p (used h)"
        proof (cases "q div 32 = i")
          case True
          then have "q = ?p \<longleftrightarrow> q mod 32 = k" by (metis add.commute k(1) mod_div_trivial mod_less mod_mult_self1 div_mult_mod_eq)
          moreover have "bit (?w OR push_bit k 1) (q mod 32) \<longleftrightarrow> bit ?w (q mod 32) \<or> q mod 32 = k"
            using k(1) by (auto simp: bit_or_iff bit_push_bit_iff bit_1_iff bit_exp_iff)
          ultimately show ?thesis using True i 1(2) p by (auto simp: used_def)
        next
          case False
          then have "q \<noteq> ?p" using k(1) by auto
          then show ?thesis using False by (simp add: used_def)
        qed
      qed
      ultimately show ?thesis using 1(2) by auto
    qed
  qed
qed

lemma freepageref_spec:
  assumes "length (pagerefs_inuse h) = INUSE_WORDS" "p \<in> used h"
  shows "\<exists>u. freepageref p h = Inr (h\<lparr>pagerefs_inuse := u\<rparr>) \<and> length u = INUSE_WORDS
    \<and> used (h\<lparr>pagerefs_inuse := u\<rparr>) = used h - {p}"
proof -
  let ?i = "p div 32" and ?k = "p mod 32"
  let ?w = "pagerefs_inuse h ! ?i"
  let ?u = "(pagerefs_inuse h)[?i := ?w AND NOT (push_bit ?k 1)]"
  have p: "p < NPAGEREFS" "bit ?w ?k" using assms(2) by (simp_all add: used_def)
  have i: "?i < length (pagerefs_inuse h)" using p assms(1) by (simp add: NPAGEREFS_def INUSE_WORDS_def)
  have "?w AND push_bit ?k 1 \<noteq> 0" using p(2) and_push_bit_0 [of ?k ?w] by simp
  then have "freepageref p h = Inr (h\<lparr>pagerefs_inuse := ?u\<rparr>)"
    using p i by (simp add: freepageref_def Let_def)
  moreover have "used (h\<lparr>pagerefs_inuse := ?u\<rparr>) = used h - {p}"
  proof (rule set_eqI)
    fix q
    show "q \<in> used (h\<lparr>pagerefs_inuse := ?u\<rparr>) \<longleftrightarrow> q \<in> used h - {p}"
    proof (cases "q div 32 = ?i")
      case True
      then have "q = p \<longleftrightarrow> q mod 32 = ?k" by (metis div_mult_mod_eq)
      moreover have "bit (?w AND NOT (push_bit ?k 1)) (q mod 32) \<longleftrightarrow> bit ?w (q mod 32) \<and> q mod 32 \<noteq> ?k"
        by (auto simp: bit_and_iff bit_not_iff bit_push_bit_iff bit_1_iff bit_exp_iff)
      ultimately show ?thesis using True i by (auto simp: used_def)
    next
      case False
      then show ?thesis by (auto simp: used_def)
    qed
  qed
  ultimately show ?thesis using assms(1) by auto
qed

section \<open>Linked lists\<close>

text \<open>The list of indices reached from a link.\<close>

fun chain :: "(nat \<Rightarrow> nat option) \<Rightarrow> nat option \<Rightarrow> nat list \<Rightarrow> bool" where
  "chain nx p [] \<longleftrightarrow> p = None"
| "chain nx p (x # xs) \<longleftrightarrow> p = Some x \<and> chain nx (nx x) xs"

definition same_next :: "kheap \<Rightarrow> nat \<Rightarrow> nat option" where
  "same_next h q = next_samesize (pagerefs h ! q)"

definition all_next :: "kheap \<Rightarrow> nat \<Rightarrow> nat option" where
  "all_next h q = next_all (pagerefs h ! q)"

lemma chain_cong:
  "(\<And>q. q \<in> set xs \<Longrightarrow> nx q = nx' q) \<Longrightarrow> chain nx p xs = chain nx' p xs"
  by (induction xs arbitrary: p) auto

lemma chain_unique: "chain nx p xs \<Longrightarrow> chain nx p ys \<Longrightarrow> xs = ys"
proof (induction xs arbitrary: p ys)
  case Nil
  then show ?case by (cases ys) auto
next
  case (Cons x xs)
  then show ?case by (cases ys) auto
qed

text \<open>
  The two loops of \<open>remove_lists\<close> are one algorithm over two link fields. Its contract: reading and
  writing a link act on that link only and keep the relation \<open>keeps\<close> on the rest of the heap.
\<close>

locale linked_list =
  fixes remove :: "nat \<Rightarrow> nat \<Rightarrow> link \<Rightarrow> kheap \<Rightarrow> kheap res"
    and get_link :: "link \<Rightarrow> kheap \<Rightarrow> nat option res"
    and set_link :: "link \<Rightarrow> nat option \<Rightarrow> kheap \<Rightarrow> kheap res"
    and link_at :: "link \<Rightarrow> kheap \<Rightarrow> nat option"
    and link_ok :: "link \<Rightarrow> kheap \<Rightarrow> bool"
    and keeps :: "kheap \<Rightarrow> kheap \<Rightarrow> bool"
  assumes remove_Suc: "remove (Suc f) p guy h =
      rbind (get_link guy h) (\<lambda>cur. case cur of None \<Rightarrow> Inr h
        | Some q \<Rightarrow> if q = p then rbind (get_link (Link p) h) (\<lambda>nxt. set_link guy nxt h)
                    else remove f p (Link q) h)"
    and get_link_at: "link_ok guy h \<Longrightarrow> get_link guy h = Inr (link_at guy h)"
    and set_link_at: "link_ok guy h \<Longrightarrow> \<exists>h'. set_link guy v h = Inr h' \<and> link_at guy h' = v
      \<and> (\<forall>g. g \<noteq> guy \<longrightarrow> link_at g h' = link_at g h) \<and> keeps h h'"
begin

lemma remove_spec:
  assumes "chain (\<lambda>q. link_at (Link q) h) (link_at guy h) ys" "p \<in> set ys" "distinct ys"
    and "link_ok guy h" "\<forall>q \<in> set ys. link_ok (Link q) h \<and> Link q \<noteq> guy" "length ys \<le> fuel"
  shows "\<exists>h'. remove fuel p guy h = Inr h' \<and> keeps h h'
    \<and> chain (\<lambda>q. link_at (Link q) h') (link_at guy h') (remove1 p ys)
    \<and> (\<forall>g. g \<noteq> guy \<longrightarrow> (\<forall>q \<in> set ys. g \<noteq> Link q) \<longrightarrow> link_at g h' = link_at g h)"
  using assms
proof (induction ys arbitrary: fuel guy)
  case (Cons y ys)
  obtain f where fuel: "fuel = Suc f" using Cons.prems(6) by (cases fuel) auto
  have cur: "get_link guy h = Inr (Some y)" using get_link_at Cons.prems(1,4) by simp
  have tail: "chain (\<lambda>q. link_at (Link q) h) (link_at (Link y) h) ys" using Cons.prems by simp
  show ?case
  proof (cases "y = p")
    case True
    obtain h' where h': "set_link guy (link_at (Link p) h) h = Inr h'" "link_at guy h' = link_at (Link p) h"
        "\<forall>g. g \<noteq> guy \<longrightarrow> link_at g h' = link_at g h" "keeps h h'"
      using set_link_at [OF Cons.prems(4)] by blast
    have nxt: "get_link (Link p) h = Inr (link_at (Link p) h)" using get_link_at Cons.prems(5) True by simp
    have "chain (\<lambda>q. link_at (Link q) h') (link_at (Link p) h) ys"
      using tail True h'(3) Cons.prems(5)
      by (subst chain_cong [of ys _ "\<lambda>q. link_at (Link q) h"]) auto
    then show ?thesis using True fuel cur nxt h' by (simp add: remove_Suc)
  next
    case False
    then obtain h' where h': "remove f p (Link y) h = Inr h'" "keeps h h'"
        "chain (\<lambda>q. link_at (Link q) h') (link_at (Link y) h') (remove1 p ys)"
        "\<forall>g. g \<noteq> Link y \<longrightarrow> (\<forall>q \<in> set ys. g \<noteq> Link q) \<longrightarrow> link_at g h' = link_at g h"
      using Cons.IH [of "Link y" f] tail Cons.prems fuel by auto
    have "guy \<noteq> Link y" "\<forall>q \<in> set ys. guy \<noteq> Link q" using Cons.prems(5) by auto
    then have "link_at guy h' = link_at guy h" using h'(4) by blast
    then show ?thesis using False fuel cur h' Cons.prems(1) by (simp add: remove_Suc)
  qed
qed simp

end

definition no_same :: "pageref \<Rightarrow> pageref" where
  "no_same r = r\<lparr>next_samesize := None\<rparr>"

definition no_all :: "pageref \<Rightarrow> pageref" where
  "no_all r = r\<lparr>next_all := None\<rparr>"

definition same_at :: "nat \<Rightarrow> link \<Rightarrow> kheap \<Rightarrow> nat option" where
  "same_at b guy h = (case guy of Base \<Rightarrow> sizebases h ! b | Link g \<Rightarrow> same_next h g)"

definition all_at :: "link \<Rightarrow> kheap \<Rightarrow> nat option" where
  "all_at guy h = (case guy of Base \<Rightarrow> allbase h | Link g \<Rightarrow> all_next h g)"

definition same_ok :: "nat \<Rightarrow> link \<Rightarrow> kheap \<Rightarrow> bool" where
  "same_ok b guy h = (case guy of Base \<Rightarrow> b < length (sizebases h) | Link g \<Rightarrow> g < length (pagerefs h))"

definition all_ok :: "link \<Rightarrow> kheap \<Rightarrow> bool" where
  "all_ok guy h = (case guy of Base \<Rightarrow> True | Link g \<Rightarrow> g < length (pagerefs h))"

definition keeps_same :: "nat \<Rightarrow> kheap \<Rightarrow> kheap \<Rightarrow> bool" where
  "keeps_same b h h' \<longleftrightarrow>
     (\<exists>prs bs. h' = h\<lparr>pagerefs := prs, sizebases := bs\<rparr> \<and> map no_same prs = map no_same (pagerefs h)
        \<and> length bs = length (sizebases h) \<and> (\<forall>b'. b' \<noteq> b \<longrightarrow> bs ! b' = sizebases h ! b'))"

definition keeps_all :: "kheap \<Rightarrow> kheap \<Rightarrow> bool" where
  "keeps_all h h' \<longleftrightarrow>
     (\<exists>prs a. h' = h\<lparr>pagerefs := prs, allbase := a\<rparr> \<and> map no_all prs = map no_all (pagerefs h))"

lemma map_no_same_update:
  "i < length t \<Longrightarrow> map no_same (t[i := (t ! i)\<lparr>next_samesize := v\<rparr>]) = map no_same t"
  by (rule nth_equalityI) (auto simp: nth_list_update no_same_def)

lemma map_no_all_update:
  "i < length t \<Longrightarrow> map no_all (t[i := (t ! i)\<lparr>next_all := v\<rparr>]) = map no_all t"
  by (rule nth_equalityI) (auto simp: nth_list_update no_all_def)

interpretation same_links: linked_list "\<lambda>f p. remove_same f b p" "get_same b" "set_same b"
  "same_at b" "same_ok b" "keeps_same b" for b
proof unfold_locales
  fix guy h v
  assume ok: "same_ok b guy h"
  show "get_same b guy h = Inr (same_at b guy h)"
    using ok by (cases guy) (auto simp: get_same_def same_at_def same_ok_def same_next_def)
  show "\<exists>h'. set_same b guy v h = Inr h' \<and> same_at b guy h' = v
      \<and> (\<forall>g. g \<noteq> guy \<longrightarrow> same_at b g h' = same_at b g h) \<and> keeps_same b h h'"
  proof (cases guy)
    case Base
    let ?h = "h\<lparr>sizebases := (sizebases h)[b := v]\<rparr>"
    have "keeps_same b h ?h"
      unfolding keeps_same_def
      by (intro exI [of _ "pagerefs h"] exI [of _ "(sizebases h)[b := v]"]) simp
    then show ?thesis
      using ok Base by (auto simp: set_same_def same_at_def same_ok_def same_next_def split: link.splits)
  next
    case (Link g)
    let ?prs = "(pagerefs h)[g := (pagerefs h ! g)\<lparr>next_samesize := v\<rparr>]"
    have g: "g < length (pagerefs h)" using ok Link by (simp add: same_ok_def)
    have "keeps_same b h (h\<lparr>pagerefs := ?prs\<rparr>)"
      unfolding keeps_same_def
      by (intro exI [of _ ?prs] exI [of _ "sizebases h"]) (simp add: g map_no_same_update)
    then show ?thesis
      using g Link by (auto simp: set_same_def same_at_def same_next_def split: link.splits)
  qed
qed simp

interpretation all_links: linked_list remove_all get_all set_all all_at all_ok keeps_all
proof unfold_locales
  fix guy h v
  assume ok: "all_ok guy h"
  show "get_all guy h = Inr (all_at guy h)"
    using ok by (cases guy) (auto simp: get_all_def all_at_def all_ok_def all_next_def)
  show "\<exists>h'. set_all guy v h = Inr h' \<and> all_at guy h' = v
      \<and> (\<forall>g. g \<noteq> guy \<longrightarrow> all_at g h' = all_at g h) \<and> keeps_all h h'"
  proof (cases guy)
    case Base
    have "keeps_all h (h\<lparr>allbase := v\<rparr>)"
      unfolding keeps_all_def by (intro exI [of _ "pagerefs h"] exI [of _ v]) simp
    then show ?thesis using Base by (auto simp: set_all_def all_at_def all_next_def split: link.splits)
  next
    case (Link g)
    let ?prs = "(pagerefs h)[g := (pagerefs h ! g)\<lparr>next_all := v\<rparr>]"
    have g: "g < length (pagerefs h)" using ok Link by (simp add: all_ok_def)
    have "keeps_all h (h\<lparr>pagerefs := ?prs\<rparr>)"
      unfolding keeps_all_def
      by (intro exI [of _ ?prs] exI [of _ "allbase h"]) (simp add: g map_no_all_update)
    then show ?thesis
      using g Link by (auto simp: set_all_def all_at_def all_next_def split: link.splits)
  qed
qed simp

section \<open>Free lists in memory\<close>

text \<open>The offsets of the free blocks of a page, in the order of its free list.\<close>

fun free_list :: "mem \<Rightarrow> u32 \<Rightarrow> u32 \<Rightarrow> u32 list \<Rightarrow> bool" where
  "free_list m page ptr [] \<longleftrightarrow> ptr = 0"
| "free_list m page ptr (d # ds) \<longleftrightarrow>
     ptr = page + d \<and> ptr \<noteq> 0 \<and> free_list m page (load32 m ptr) ds"

fun read_free :: "nat \<Rightarrow> mem \<Rightarrow> u32 \<Rightarrow> u32 \<Rightarrow> u32 list" where
  "read_free 0 m page ptr = []"
| "read_free (Suc n) m page ptr =
     (if ptr = 0 then [] else (ptr - page) # read_free n m page (load32 m ptr))"

lemma read_free_list: "free_list m page ptr ds \<Longrightarrow> length ds \<le> n \<Longrightarrow> read_free n m page ptr = ds"
proof (induction ds arbitrary: n ptr)
  case Nil
  then show ?case by (cases n) auto
next
  case (Cons d ds)
  then show ?case by (cases n) auto
qed

lemma free_list_cong:
  "(\<And>d. d \<in> set ds \<Longrightarrow> load32 m (page + d) = load32 m' (page + d)) \<Longrightarrow>
   free_list m page ptr ds = free_list m' page ptr ds"
  by (induction ds arbitrary: ptr) auto

definition fl_ptr :: "pageref \<Rightarrow> u32" where
  "fl_ptr r = (if freelist_offset r = INVALID_OFFSET then 0
               else PR_PAGEADDR r + ucast (freelist_offset r))"

definition block_size :: "pageref \<Rightarrow> u32" where
  "block_size r = sizes ! unat (PR_BLOCKTYPE r)"

definition free_offs :: "kheap \<Rightarrow> nat \<Rightarrow> u32 list" where
  "free_offs h p =
     (let r = pagerefs h ! p in read_free NPAGEREFS (kmem h) (PR_PAGEADDR r) (fl_ptr r))"

text \<open>The offsets at which blocks of a size start.\<close>

definition block_offs :: "u32 \<Rightarrow> u32 set" where
  "block_offs sz = {d. unat d < 4096 \<and> unat d mod unat sz = 0}"

definition page_ok :: "kheap \<Rightarrow> nat \<Rightarrow> bool" where
  "page_ok h p \<longleftrightarrow>
     (let r = pagerefs h ! p; ds = free_offs h p
      in unat (PR_BLOCKTYPE r) < NSIZES
         \<and> unat MIPS_KSEG0 < unat (PR_PAGEADDR r) \<and> unat (PR_PAGEADDR r) + 4096 \<le> frontier h
         \<and> free_list (kmem h) (PR_PAGEADDR r) (fl_ptr r) ds
         \<and> distinct ds \<and> set ds \<subseteq> block_offs (block_size r) \<and> unat (nfree r) = length ds)"

definition lists_ok :: "kheap \<Rightarrow> bool" where
  "lists_ok h \<longleftrightarrow>
     (\<exists>ys. chain (all_next h) (allbase h) ys \<and> distinct ys \<and> set ys = used h)
     \<and> (\<forall>b < NSIZES. \<exists>ys. chain (same_next h) (sizebases h ! b) ys \<and> distinct ys
          \<and> set ys = {p \<in> used h. unat (PR_BLOCKTYPE (pagerefs h ! p)) = b})"

definition heap_inv :: "kheap \<Rightarrow> bool" where
  "heap_inv h \<longleftrightarrow> ram_wf (kram h) \<and> length (pagerefs h) = NPAGEREFS
     \<and> length (pagerefs_inuse h) = INUSE_WORDS \<and> length (sizebases h) = NSIZES
     \<and> (\<forall>p \<in> used h. page_ok h p) \<and> lists_ok h
     \<and> inj_on (\<lambda>p. PR_PAGEADDR (pagerefs h ! p)) (used h)"

text \<open>The blocks handed out: every block of a page that is not in its free list.\<close>

definition page_blocks :: "kheap \<Rightarrow> nat \<Rightarrow> (u32 \<times> u32) set" where
  "page_blocks h p =
     (let r = pagerefs h ! p
      in (\<lambda>d. (PR_PAGEADDR r + d, block_size r)) ` (block_offs (block_size r) - set (free_offs h p)))"

definition allocated :: "kheap \<Rightarrow> (u32 \<times> u32) set" where
  "allocated h = (\<Union>p \<in> used h. page_blocks h p)"

text \<open>The pages the heap is made of; an allocation adds at most one, of memory that was free.\<close>

definition heap_pages :: "kheap \<Rightarrow> u32 set" where
  "heap_pages h = (\<lambda>p. PR_PAGEADDR (pagerefs h ! p)) ` used h"

definition new_pages :: "kheap \<Rightarrow> kheap \<Rightarrow> bool" where
  "new_pages h h' \<longleftrightarrow> heap_pages h' \<subseteq> heap_pages h \<union> {a. frontier h \<le> unat a}
     \<and> unat (firstpaddr (kram h')) \<le> unat (firstpaddr (kram h)) + 4096
     \<and> lastpaddr (kram h') = lastpaddr (kram h) \<and> card (used h') \<le> Suc (card (used h))"

lemma heap_invD:
  assumes "heap_inv h"
  shows "ram_wf (kram h)" "length (pagerefs h) = NPAGEREFS"
    "length (pagerefs_inuse h) = INUSE_WORDS" "length (sizebases h) = NSIZES"
    "p \<in> used h \<Longrightarrow> page_ok h p" "lists_ok h"
    "inj_on (\<lambda>p. PR_PAGEADDR (pagerefs h ! p)) (used h)"
  using assms by (auto simp: heap_inv_def)

section \<open>Geometry of blocks\<close>

lemma block_size_sizes:
  assumes "unat (PR_BLOCKTYPE r) < NSIZES"
  shows "aget sizes (unat (PR_BLOCKTYPE r)) = Inr (block_size r)"
  using assms by (simp add: block_size_def NSIZES_def sizes_def)

lemma block_size_bounds:
  assumes "unat (PR_BLOCKTYPE r) < NSIZES"
  shows "16 \<le> unat (block_size r)" "unat (block_size r) \<le> 2048" "16 dvd unat (block_size r)"
    "unat (block_size r) dvd 4096"
proof -
  note sz = sizes_nth [OF block_size_sizes [OF assms]]
  have "(2 :: nat) ^ unat (PR_BLOCKTYPE r) \<le> 2 ^ 7"
    using sz(1) by (intro power_increasing) simp_all
  then show "unat (block_size r) \<le> 2048" using sz(2) by simp
  show "16 \<le> unat (block_size r)" "16 dvd unat (block_size r)" using sz(2) by simp_all
  show "unat (block_size r) dvd 4096" using sz(3) by (metis dvd_triv_right)
qed

lemma PR_PAGEADDR_aligned: "unat (PR_PAGEADDR r) mod 4096 = 0"
  by (simp add: PR_PAGEADDR_def unat_and_PAGE_FRAME)

lemma unat_page_add:
  assumes "unat (page :: u32) + 4096 \<le> 2 ^ 32" "unat d < 4096"
  shows "unat (page + d) = unat page + unat d"
  using assms by (simp add: unat_word_ariths)

lemma frontier_bound: "ram_wf (kram h) \<Longrightarrow> frontier h \<le> 0x80000000 + 508 * 1024 * 1024"
  by (simp add: frontier_def ram_wf_def)

lemma page_okD:
  assumes "page_ok h p"
  shows "unat (PR_BLOCKTYPE (pagerefs h ! p)) < NSIZES"
    "unat MIPS_KSEG0 < unat (PR_PAGEADDR (pagerefs h ! p))"
    "unat (PR_PAGEADDR (pagerefs h ! p)) + 4096 \<le> frontier h"
    "free_list (kmem h) (PR_PAGEADDR (pagerefs h ! p)) (fl_ptr (pagerefs h ! p)) (free_offs h p)"
    "distinct (free_offs h p)" "set (free_offs h p) \<subseteq> block_offs (block_size (pagerefs h ! p))"
    "unat (nfree (pagerefs h ! p)) = length (free_offs h p)"
  using assms by (simp_all add: page_ok_def Let_def)

text \<open>A page has at most as many blocks as fit, so its free list is short.\<close>

lemma block_offs_finite [simp]: "finite (block_offs sz)"
  by simp

lemma card_block_offs:
  assumes "unat sz dvd 4096"
  shows "card (block_offs sz) = 4096 div unat sz"
proof -
  let ?n = "4096 div unat sz"
  have sz: "0 < unat sz" "unat sz \<le> 4096" using assms by (auto intro!: Nat.gr0I dvd_imp_le)
  have n: "?n * unat sz = 4096" using assms by simp
  have "bij_betw (\<lambda>i. of_nat i * sz) {..<?n} (block_offs sz)"
  proof (rule bij_betw_byWitness [where f' = "\<lambda>d. unat d div unat sz"])
    have val: "unat (of_nat i * sz) = i * unat sz" if "i < ?n" for i
    proof -
      have "i * unat sz < 4096" using that sz n by (metis mult_less_cancel2)
      moreover have "i < 4096" using that sz by (meson div_le_dividend less_le_trans)
      ultimately show ?thesis by (simp add: unat_word_ariths unat_of_nat)
    qed
    then show "\<forall>i \<in> {..<?n}. unat (of_nat i * sz) div unat sz = i" using sz by simp
    show "\<forall>d \<in> block_offs sz. of_nat (unat d div unat sz) * sz = d"
    proof
      fix d
      assume d: "d \<in> block_offs sz"
      then have dv: "unat d div unat sz * unat sz = unat d" by (auto simp: block_offs_def)
      have "unat d div unat sz < ?n" using d n sz dv
        by (metis (no_types, lifting) block_offs_def mem_Collect_eq mult_less_cancel2)
      then have "unat (of_nat (unat d div unat sz) * sz) = unat d" using val dv by simp
      then show "of_nat (unat d div unat sz) * sz = d" by (simp add: word_unat_eq_iff)
    qed
    show "(\<lambda>i. of_nat i * sz) ` {..<?n} \<subseteq> block_offs sz"
    proof
      fix d
      assume "d \<in> (\<lambda>i. of_nat i * sz) ` {..<?n}"
      then obtain i where i: "i < ?n" "d = of_nat i * sz" by auto
      then have "i * unat sz < 4096" using sz n by (metis mult_less_cancel2)
      then show "d \<in> block_offs sz" using val i by (simp add: block_offs_def)
    qed
    show "(\<lambda>d. unat d div unat sz) ` block_offs sz \<subseteq> {..<?n}"
    proof
      fix i
      assume "i \<in> (\<lambda>d. unat d div unat sz) ` block_offs sz"
      then obtain d where d: "d \<in> block_offs sz" "i = unat d div unat sz" by auto
      then have "i * unat sz < ?n * unat sz" unfolding n by (auto simp: block_offs_def)
      then show "i \<in> {..<?n}" by simp
    qed
  qed
  then show ?thesis using bij_betw_same_card by fastforce
qed

lemma free_offs_length:
  assumes "page_ok h p"
  shows "length (free_offs h p) \<le> 4096 div unat (block_size (pagerefs h ! p))"
proof -
  note D = page_okD [OF assms]
  have "length (free_offs h p) = card (set (free_offs h p))" using D(5) by (simp add: distinct_card)
  also have "\<dots> \<le> card (block_offs (block_size (pagerefs h ! p)))" using D(6) by (intro card_mono) simp_all
  finally show ?thesis using card_block_offs block_size_bounds(4) [OF D(1)] by simp
qed

text \<open>Offsets within a page fit the 16-bit field they are kept in.\<close>

lemma unat_ucast_u16 [simp]: "unat (ucast (x :: u16) :: u32) = unat x"
proof -
  have "unat x < 2 ^ 16" using unsigned_less [of x, where 'a = nat] by simp
  then show ?thesis by (simp add: unsigned_ucast_eq take_bit_eq_mod)
qed

lemma unat_ucast_u32: "unat (d :: u32) < 2 ^ 16 \<Longrightarrow> unat (ucast d :: u16) = unat d"
  by (simp add: unsigned_ucast_eq take_bit_eq_mod)

lemma ucast_offset:
  assumes "unat (d :: u32) < 4096"
  shows "ucast (ucast d :: u16) = d" "(ucast d :: u16) \<noteq> INVALID_OFFSET"
proof -
  have e: "unat (ucast d :: u16) = unat d" using assms by (simp add: unat_ucast_u32)
  then have "unat (ucast (ucast d :: u16) :: u32) = unat d" by simp
  then show "ucast (ucast d :: u16) = d" by (simp add: word_unat_eq_iff)
  show "(ucast d :: u16) \<noteq> INVALID_OFFSET"
    using e assms by (auto simp: INVALID_OFFSET_def)
qed

section \<open>Changing one page\<close>

definition page_view :: "pageref \<Rightarrow> u32 \<times> u16 \<times> u16" where
  "page_view r = (pageaddr_and_blocktype r, freelist_offset r, nfree r)"

lemma page_view_eqD:
  assumes "page_view r' = page_view r"
  shows "PR_PAGEADDR r' = PR_PAGEADDR r" "PR_BLOCKTYPE r' = PR_BLOCKTYPE r" "fl_ptr r' = fl_ptr r"
    "block_size r' = block_size r" "nfree r' = nfree r"
  using assms by (simp_all add: page_view_def PR_PAGEADDR_def PR_BLOCKTYPE_def fl_ptr_def block_size_def)

lemma page_okI:
  assumes r: "r = pagerefs h ! p" and "unat (PR_BLOCKTYPE r) < NSIZES"
    and "unat MIPS_KSEG0 < unat (PR_PAGEADDR r)" "unat (PR_PAGEADDR r) + 4096 \<le> frontier h"
    and fl: "free_list (kmem h) (PR_PAGEADDR r) (fl_ptr r) ds"
    and ds: "distinct ds" "set ds \<subseteq> block_offs (block_size r)" "unat (nfree r) = length ds"
  shows "page_ok h p" "free_offs h p = ds"
proof -
  note sz = block_size_bounds [OF assms(2)]
  have "length ds = card (set ds)" using ds(1) by (simp add: distinct_card)
  also have "\<dots> \<le> card (block_offs (block_size r))" using ds(2) by (intro card_mono) simp_all
  also have "\<dots> = 4096 div unat (block_size r)" by (rule card_block_offs [OF sz(4)])
  also have "\<dots> \<le> 4096 div 16" using sz(1) by (rule div_le_mono2 [rotated]) simp
  finally have "length ds \<le> NPAGEREFS" by (simp add: NPAGEREFS_def)
  then show fo: "free_offs h p = ds" using read_free_list [OF fl] r by (simp add: free_offs_def Let_def)
  show "page_ok h p" using assms fo by (simp add: page_ok_def Let_def)
qed

lemma page_ok_transfer:
  assumes ok: "page_ok h p" and view: "page_view (pagerefs h' ! p) = page_view (pagerefs h ! p)"
    and "frontier h \<le> frontier h'"
    and "\<And>d. d \<in> set (free_offs h p) \<Longrightarrow>
      load32 (kmem h') (PR_PAGEADDR (pagerefs h ! p) + d) = load32 (kmem h) (PR_PAGEADDR (pagerefs h ! p) + d)"
  shows "page_ok h' p" "free_offs h' p = free_offs h p" "page_blocks h' p = page_blocks h p"
proof -
  note D = page_okD [OF ok] and V = page_view_eqD [OF view]
  have fl: "free_list (kmem h') (PR_PAGEADDR (pagerefs h' ! p)) (fl_ptr (pagerefs h' ! p)) (free_offs h p)"
    using D(4) V assms(4) free_list_cong [of "free_offs h p" "kmem h'" "PR_PAGEADDR (pagerefs h ! p)" "kmem h"]
    by simp
  show "page_ok h' p" "free_offs h' p = free_offs h p"
    using page_okI [OF refl _ _ _ fl] D V assms(3) by simp_all
  then show "page_blocks h' p = page_blocks h p" using V by (simp add: page_blocks_def Let_def)
qed

lemma lists_ok_cong:
  assumes "lists_ok h" "used h' = used h" "allbase h' = allbase h" "sizebases h' = sizebases h"
    and "\<And>q. q \<in> used h \<Longrightarrow> next_all (pagerefs h' ! q) = next_all (pagerefs h ! q)
      \<and> next_samesize (pagerefs h' ! q) = next_samesize (pagerefs h ! q)
      \<and> PR_BLOCKTYPE (pagerefs h' ! q) = PR_BLOCKTYPE (pagerefs h ! q)"
  shows "lists_ok h'"
proof -
  have all: "chain (all_next h') x ys = chain (all_next h) x ys" if "set ys \<subseteq> used h" for x ys
    using that assms(5) by (intro chain_cong) (auto simp: all_next_def)
  have same: "chain (same_next h') x ys = chain (same_next h) x ys" if "set ys \<subseteq> used h" for x ys
    using that assms(5) by (intro chain_cong) (auto simp: same_next_def)
  have sets: "{p \<in> used h. unat (PR_BLOCKTYPE (pagerefs h' ! p)) = b}
      = {p \<in> used h. unat (PR_BLOCKTYPE (pagerefs h ! p)) = b}" for b
    using assms(5) by auto
  have "\<exists>ys. chain (all_next h') (allbase h') ys \<and> distinct ys \<and> set ys = used h'"
    using assms(1-3) all unfolding lists_ok_def by (metis order_refl)
  moreover have "\<exists>ys. chain (same_next h') (sizebases h' ! b) ys \<and> distinct ys
      \<and> set ys = {p \<in> used h'. unat (PR_BLOCKTYPE (pagerefs h' ! p)) = b}" if "b < NSIZES" for b
  proof -
    obtain ys where ys: "chain (same_next h) (sizebases h ! b) ys" "distinct ys"
        "set ys = {p \<in> used h. unat (PR_BLOCKTYPE (pagerefs h ! p)) = b}"
      using assms(1) \<open>b < NSIZES\<close> unfolding lists_ok_def by blast
    then have "set ys \<subseteq> used h" by auto
    then show ?thesis using ys same sets assms(2,4) by (intro exI [of _ ys]) simp
  qed
  ultimately show ?thesis unfolding lists_ok_def by blast
qed

text \<open>A new record and new memory contents for one page, the others undisturbed.\<close>

lemma heap_inv_page:
  assumes inv: "heap_inv h" and p: "p \<in> used h"
    and h': "h' = h\<lparr>kmem := m, pagerefs := (pagerefs h)[p := r]\<rparr>"
    and r: "next_all r = next_all (pagerefs h ! p)" "next_samesize r = next_samesize (pagerefs h ! p)"
      "pageaddr_and_blocktype r = pageaddr_and_blocktype (pagerefs h ! p)"
    and ok: "page_ok h' p"
    and other: "\<And>q d. q \<in> used h \<Longrightarrow> q \<noteq> p \<Longrightarrow> d \<in> set (free_offs h q) \<Longrightarrow>
      load32 m (PR_PAGEADDR (pagerefs h ! q) + d) = load32 (kmem h) (PR_PAGEADDR (pagerefs h ! q) + d)"
  shows "heap_inv h'" "allocated h' = (\<Union>q \<in> used h - {p}. page_blocks h q) \<union> page_blocks h' p"
    "used h' = used h"
proof -
  note D = heap_invD [OF inv]
  have u: "used h' = used h" using h' by (simp add: used_def)
  show "used h' = used h" by (rule u)
  have plen: "p < length (pagerefs h)" using p D(2) by (simp add: used_def)
  have q: "page_ok h' q \<and> page_blocks h' q = page_blocks h q" if "q \<in> used h" "q \<noteq> p" for q
  proof -
    have v: "page_view (pagerefs h' ! q) = page_view (pagerefs h ! q)" using h' that by simp
    have f: "frontier h \<le> frontier h'" using h' by (simp add: frontier_def)
    have l: "load32 (kmem h') (PR_PAGEADDR (pagerefs h ! q) + d)
        = load32 (kmem h) (PR_PAGEADDR (pagerefs h ! q) + d)" if "d \<in> set (free_offs h q)" for d
      using other [OF \<open>q \<in> used h\<close> \<open>q \<noteq> p\<close> that] h' by simp
    show ?thesis using page_ok_transfer [OF D(5) [OF that(1)] v f l] by simp
  qed
  have pab: "pageaddr_and_blocktype (pagerefs h' ! q) = pageaddr_and_blocktype (pagerefs h ! q)" for q
    using h' r(3) plen by (cases "q = p") simp_all
  have "lists_ok h'"
  proof (rule lists_ok_cong [OF D(6) u])
    fix q
    show "next_all (pagerefs h' ! q) = next_all (pagerefs h ! q)
      \<and> next_samesize (pagerefs h' ! q) = next_samesize (pagerefs h ! q)
      \<and> PR_BLOCKTYPE (pagerefs h' ! q) = PR_BLOCKTYPE (pagerefs h ! q)"
      using pab [of q] h' r plen by (cases "q = p") (simp_all add: PR_BLOCKTYPE_def)
  qed (use h' in simp_all)
  moreover have "inj_on (\<lambda>q. PR_PAGEADDR (pagerefs h' ! q)) (used h)"
    using D(7) pab by (simp add: PR_PAGEADDR_def inj_on_def)
  moreover have "\<forall>q \<in> used h. page_ok h' q" using q ok by blast
  ultimately show "heap_inv h'" using D h' u by (simp add: heap_inv_def)
  show "allocated h' = (\<Union>q \<in> used h - {p}. page_blocks h q) \<union> page_blocks h' p"
    using q p u unfolding allocated_def by auto
qed

lemma allocated_page:
  "p \<in> used h \<Longrightarrow> allocated h = (\<Union>q \<in> used h - {p}. page_blocks h q) \<union> page_blocks h p"
  by (auto simp: allocated_def)

section \<open>Taking a block\<close>

lemma doalloc_spec:
  assumes inv: "heap_inv h" and p: "p \<in> used h" and free: "free_offs h p = d # ds"
    and r: "r = pagerefs h ! p"
  shows "\<exists>h'. doalloc p h = Inr (PR_PAGEADDR r + d, h') \<and> heap_inv h' \<and> kmem h' = kmem h
    \<and> kram h' = kram h \<and> used h' = used h \<and> heap_pages h' = heap_pages h
    \<and> allocated h' = insert (PR_PAGEADDR r + d, block_size r) (allocated h)
    \<and> (PR_PAGEADDR r + d, block_size r) \<notin> page_blocks h p \<and> PR_PAGEADDR r + d \<noteq> 0"
proof -
  note D = heap_invD [OF inv]
  note P = page_okD [OF D(5) [OF p], folded r]
  let ?page = "PR_PAGEADDR r"
  have plen: "p < length (pagerefs h)" using p D(2) by (simp add: used_def)
  have page: "unat ?page + 4096 \<le> 2 ^ 32" using P(3) frontier_bound [OF D(1)] by simp
  have dd: "unat d < 4096" using P(6) free by (auto simp: block_offs_def)
  have ptr: "fl_ptr r = ?page + d" "?page + d \<noteq> 0" and tl: "free_list (kmem h) ?page (load32 (kmem h) (?page + d)) ds"
    using P(4) free by auto
  have off: "freelist_offset r \<noteq> INVALID_OFFSET" "ucast (freelist_offset r) = d"
    using ptr by (auto simp: fl_ptr_def split: if_splits)
  then have off': "unat (freelist_offset r) < 4096" using dd by (metis unat_ucast_u16)
  have nf: "unat (nfree r) = Suc (length ds)" using P(7) free by simp
  then have nf': "unat (nfree r - 1) = length ds" by (simp add: unat_sub word_le_nat_alt)
  let ?r = "r\<lparr>nfree := nfree r - 1,
      freelist_offset := (if ds = [] then INVALID_OFFSET else ucast (hd ds))\<rparr>"
  let ?h = "h\<lparr>kmem := kmem h, pagerefs := (pagerefs h)[p := ?r]\<rparr>"
  have hd: "unat (hd ds) < 4096" "load32 (kmem h) (?page + d) = ?page + hd ds"
      "load32 (kmem h) (?page + d) \<noteq> 0" if "ds \<noteq> []"
    using that tl P(6) free by (cases ds; auto simp: block_offs_def)+
  have da: "doalloc p h = Inr (?page + d, ?h)"
  proof (cases "ds = []")
    case True
    then have "nfree r - 1 = 0" using nf' by (simp add: word_unat_eq_iff)
    then show ?thesis using True tl off' off(2) plen r by (simp add: doalloc_def Let_def)
  next
    case False
    then have "nfree r - 1 > 0" using nf' by (simp add: word_less_nat_alt)
    then show ?thesis
      using False hd off' off(2) plen r
      by (simp add: doalloc_def Let_def word_less_nat_alt)
  qed
  have fp: "fl_ptr ?r = load32 (kmem h) (?page + d)"
    using hd tl ucast_offset [of "hd ds"] by (cases "ds = []") (simp_all add: fl_ptr_def PR_PAGEADDR_def)
  have view: "PR_PAGEADDR ?r = ?page" "PR_BLOCKTYPE ?r = PR_BLOCKTYPE r" "block_size ?r = block_size r"
    by (simp_all add: PR_PAGEADDR_def PR_BLOCKTYPE_def block_size_def)
  have fr: "frontier ?h = frontier h" by (simp add: frontier_def)
  have at: "pagerefs ?h ! p = ?r" using plen by simp
  have ok: "page_ok ?h p" "free_offs ?h p = ds"
    using page_okI [of ?r ?h p ds] at view fr fp tl P free nf' by (auto simp: view)
  note hp = heap_inv_page [OF inv p refl _ _ _ ok(1)]
  have inv': "heap_inv ?h" and u: "used ?h = used h"
    and al: "allocated ?h = (\<Union>q \<in> used h - {p}. page_blocks h q) \<union> page_blocks ?h p"
    by (rule hp; simp add: r)+
  have "page_blocks ?h p = insert (?page + d, block_size r) (page_blocks h p)"
  proof -
    have "block_offs (block_size r) - set ds = insert d (block_offs (block_size r) - set (free_offs h p))"
      using P(5,6) free by auto
    then show ?thesis using at view ok(2) r by (simp add: page_blocks_def Let_def)
  qed
  then have "allocated ?h = insert (?page + d, block_size r) (allocated h)"
    using al allocated_page [OF p] by auto
  moreover have "(?page + d, block_size r) \<notin> page_blocks h p"
    using free r by (auto simp: page_blocks_def Let_def)
  moreover have "heap_pages ?h = heap_pages h"
    unfolding heap_pages_def u
  proof (rule image_cong [OF refl])
    show "PR_PAGEADDR (pagerefs ?h ! q) = PR_PAGEADDR (pagerefs h ! q)" for q
      using at view r by (cases "q = p") simp_all
  qed
  ultimately show ?thesis using da inv' u ptr(2) by (intro exI [of _ ?h]) simp
qed

section \<open>A fresh page\<close>

lemma find_samesize_spec:
  assumes "chain (same_next h) pr ys" "length ys < fuel"
    and "\<forall>q \<in> set ys. q < length (pagerefs h) \<and> PR_BLOCKTYPE (pagerefs h ! q) = of_nat b"
  shows "find_samesize fuel b pr h = Inr (find (\<lambda>q. nfree (pagerefs h ! q) > 0) ys)"
  using assms
proof (induction ys arbitrary: pr fuel)
  case Nil
  then show ?case by (cases fuel) auto
next
  case (Cons y ys)
  then obtain f where "fuel = Suc f" by (cases fuel) auto
  then show ?case using Cons by (simp add: same_next_def)
qed

definition block_seq :: "u32 \<Rightarrow> nat \<Rightarrow> u32 list" where
  "block_seq sz n = rev (map (\<lambda>k. of_nat k * sz) [0..<n])"

lemma block_seq_Suc: "block_seq sz (Suc n) = of_nat n * sz # block_seq sz n"
  by (simp add: block_seq_def)

lemma unat_block:
  assumes "k * unat sz < 4096"
  shows "unat (of_nat k * sz :: u32) = k * unat sz"
  using unat_block_offset [of 0 k sz 0] assms by simp

lemma block_seq_mem:
  assumes "n * unat sz \<le> 4096" "0 < unat sz" "d \<in> set (block_seq sz n)"
  obtains k where "k < n" "d = of_nat k * sz" "unat d = k * unat sz"
proof -
  obtain k where k: "k < n" "d = of_nat k * sz" using assms(3) by (auto simp: block_seq_def)
  then have "k * unat sz < 4096" using assms(1,2) by (metis less_le_trans mult_less_cancel2)
  then show thesis using that k unat_block by simp
qed

lemma aligned4_block:
  assumes "unat fla mod 4096 = 0" "unat fla + 4096 \<le> 2 ^ 32" "k * unat sz < 4096" "4 dvd unat sz"
  shows "aligned4 (fla + of_nat k * sz)"
proof -
  have "unat (fla + of_nat k * sz) = unat fla + k * unat sz"
    using unat_block_offset [OF assms(2), of k sz 0] assms(3) by simp
  moreover have "4 dvd unat fla"
  proof (rule dvd_trans)
    show "4096 dvd unat fla" using assms(1) by (simp add: mod_eq_0_iff_dvd)
  qed simp
  ultimately show ?thesis using assms(4) by (simp add: aligned4_def mod_eq_0_iff_dvd)
qed

lemma chain_blocks_spec:
  assumes fla: "unat fla mod 4096 = 0" "unat fla + 4096 \<le> 2 ^ 32" "0 < unat fla"
    and sz: "4 dvd unat sz" "0 < unat sz"
  shows "(Suc i + n) * unat sz \<le> 4096 \<Longrightarrow> free_list m fla (fla + of_nat i * sz) (block_seq sz (Suc i)) \<Longrightarrow>
    \<exists>m'. chain_blocks n (Suc i) fla sz (fla + of_nat i * sz) m = Inr (fla + of_nat (i + n) * sz, m')
      \<and> free_list m' fla (fla + of_nat (i + n) * sz) (block_seq sz (Suc (i + n)))"
proof (induction n arbitrary: i m)
  case (Suc n)
  let ?new = "fla + of_nat (Suc i) * sz" and ?old = "fla + of_nat i * sz"
  let ?m = "store32 m ?new ?old"
  have i1: "Suc i * unat sz < 4096" "i * unat sz < 4096"
    using Suc.prems(1) sz(2) by (auto simp: add_mult_distrib)
  have val: "unat ?new = unat fla + Suc i * unat sz" "unat ?old = unat fla + i * unat sz"
    using unat_block_offset [OF fla(2), of "Suc i" sz 0] unat_block_offset [OF fla(2), of i sz 0] i1 by simp_all
  have ne: "?new \<noteq> ?old" "?new \<noteq> 0" using val sz(2) fla(3) by auto
  have al: "aligned4 ?new" using aligned4_block [OF fla(1,2) i1(1) sz(1)] by simp
  have keep: "load32 ?m (fla + d) = load32 m (fla + d)" if d: "d \<in> set (block_seq sz (Suc i))" for d
  proof -
    have b: "Suc i * unat sz \<le> 4096" using i1 by simp
    obtain k where k: "k < Suc i" "d = of_nat k * sz" "unat d = k * unat sz"
      by (rule block_seq_mem [OF b sz(2) d])
    have k4: "k * unat sz < 4096" using k(1) i1(1) sz(2) by (meson less_trans mult_less_cancel2)
    have "unat (fla + of_nat k * sz) = unat fla + k * unat sz"
      using unat_block_offset [OF fla(2), of k sz 0] k4 by simp
    moreover have "k * unat sz < Suc i * unat sz" using k(1) sz(2) by (simp only: mult_less_cancel2)
    ultimately have "?new \<noteq> fla + of_nat k * sz" using val by auto
    then show ?thesis using al aligned4_block [OF fla(1,2) k4 sz(1)] k(2) by simp
  qed
  have fl: "free_list ?m fla ?new (block_seq sz (Suc (Suc i)))"
    using Suc.prems(2) keep ne free_list_cong [of "block_seq sz (Suc i)" ?m fla m]
    by (subst block_seq_Suc) simp
  have nxt: "fla + (of_nat (Suc i) - 1) * sz = ?old" by simp
  have "chain_blocks (Suc n) (Suc i) fla sz ?old m = chain_blocks n (Suc (Suc i)) fla sz ?new ?m"
    using ne nxt by (simp add: Let_def)
  moreover have "(Suc (Suc i) + n) * unat sz \<le> 4096" using Suc.prems(1) by simp
  ultimately show ?case using Suc.IH [of "Suc i" ?m] fl by simp
qed simp

lemma load32_below:
  assumes "\<And>x. unat x < N \<Longrightarrow> m' x = m x" "unat a + 4 \<le> N" "unat a + 4 \<le> 2 ^ 32"
  shows "load32 m' a = load32 m a"
proof (rule load32_cong)
  fix i :: nat
  assume "i < 4"
  then have "unat (a + of_nat i) = unat a + i" using assms(3) by (simp add: unat_word_ariths unat_of_nat)
  then show "m' (a + of_nat i) = m (a + of_nat i)" using assms(1,2) \<open>i < 4\<close> by simp
qed

lemma block_within:
  assumes "unat sz dvd 4096" "d \<in> block_offs sz"
  shows "unat d + unat sz \<le> 4096"
proof -
  obtain n where n: "4096 = unat sz * n" using assms(1) unfolding dvd_def by blast
  obtain k where k: "unat d = unat sz * k" "unat d < 4096" using assms(2) by (auto simp: block_offs_def)
  then have "k < n" using n by (metis mult_less_cancel1)
  then have "unat sz * Suc k \<le> unat sz * n" by (intro mult_le_mono) simp_all
  then show ?thesis using n k by simp
qed

lemma free_block_below:
  assumes inv: "heap_inv h" and q: "q \<in> used h" and d: "d \<in> block_offs (block_size (pagerefs h ! q))"
    and m: "\<And>x. unat x < N \<Longrightarrow> m x = kmem h x" and N: "unat (PR_PAGEADDR (pagerefs h ! q)) + 4096 \<le> N"
  shows "load32 m (PR_PAGEADDR (pagerefs h ! q) + d) = load32 (kmem h) (PR_PAGEADDR (pagerefs h ! q) + d)"
proof -
  note D = heap_invD [OF inv] and P = page_okD [OF heap_invD(5) [OF inv q]]
  note sz = block_size_bounds [OF P(1)]
  have dd: "unat d < 4096" using d by (simp add: block_offs_def)
  have d4: "unat d + 16 \<le> 4096" using block_within [OF sz(4) d] sz(1) by simp
  have page: "unat (PR_PAGEADDR (pagerefs h ! q)) + 4096 \<le> 2 ^ 32"
    using P(3) frontier_bound [OF D(1)] by simp
  have "unat (PR_PAGEADDR (pagerefs h ! q) + d) = unat (PR_PAGEADDR (pagerefs h ! q)) + unat d"
    by (rule unat_page_add [OF page dd])
  then have "unat (PR_PAGEADDR (pagerefs h ! q) + d) + 4 \<le> N"
      "unat (PR_PAGEADDR (pagerefs h ! q) + d) + 4 \<le> 2 ^ 32"
    using N d4 page by linarith+
  then show ?thesis using load32_below m by blast
qed

lemma heap_inv_grows:
  assumes inv: "heap_inv h" and gr: "grows h h'" and h': "h' = h\<lparr>kram := kram h'\<rparr>"
  shows "heap_inv h'" "allocated h' = allocated h" "used h' = used h"
proof -
  note D = heap_invD [OF inv]
  have f: "frontier h \<le> frontier h'" "ram_wf (kram h')" using gr by (simp_all add: grows_def)
  have sel: "pagerefs h' = pagerefs h" "kmem h' = kmem h" "pagerefs_inuse h' = pagerefs_inuse h"
    "sizebases h' = sizebases h" "allbase h' = allbase h"
    by (subst h', simp)+
  show u: "used h' = used h" by (rule used_cong [OF sel(3)])
  have q: "page_ok h' q" "page_blocks h' q = page_blocks h q" if "q \<in> used h" for q
    using page_ok_transfer [OF D(5) [OF that], of h'] sel f by simp_all
  have "lists_ok h'" by (rule lists_ok_cong [OF D(6) u]) (simp_all add: sel)
  then show "heap_inv h'" using D sel f u q by (simp add: heap_inv_def)
  show "allocated h' = allocated h" using q u by (simp add: allocated_def)
qed

text \<open>Bytes outside the pages of the heap do not matter to it.\<close>

lemma free_block_load:
  assumes inv: "heap_inv h" and q: "q \<in> used h" and d: "d \<in> block_offs (block_size (pagerefs h ! q))"
    and m: "\<And>x. unat (PR_PAGEADDR (pagerefs h ! q)) \<le> unat x \<Longrightarrow>
      unat x < unat (PR_PAGEADDR (pagerefs h ! q)) + 4096 \<Longrightarrow> m x = kmem h x"
  shows "load32 m (PR_PAGEADDR (pagerefs h ! q) + d) = load32 (kmem h) (PR_PAGEADDR (pagerefs h ! q) + d)"
proof (rule load32_cong)
  fix i :: nat
  assume i: "i < 4"
  let ?a = "PR_PAGEADDR (pagerefs h ! q)"
  note P = page_okD [OF heap_invD(5) [OF inv q]]
  note sz = block_size_bounds [OF P(1)]
  have d4: "unat d + 16 \<le> 4096" using block_within [OF sz(4) d] sz(1) by simp
  have page: "unat ?a + 4096 \<le> 2 ^ 32" using P(3) frontier_bound [OF heap_invD(1) [OF inv]] by simp
  have "unat (d + of_nat i) = unat d + i" using d4 i by (simp add: unat_word_ariths unat_of_nat)
  moreover from this have "unat (?a + (d + of_nat i)) = unat ?a + (unat d + i)"
    using unat_page_add [OF page, of "d + of_nat i"] d4 i by simp
  ultimately show "m (?a + d + of_nat i) = kmem h (?a + d + of_nat i)"
    using m [of "?a + (d + of_nat i)"] d4 i by (simp add: add.assoc)
qed

lemma heap_inv_free:
  assumes inv: "heap_inv h"
    and m: "\<And>q d. q \<in> used h \<Longrightarrow> d \<in> set (free_offs h q) \<Longrightarrow>
      load32 m (PR_PAGEADDR (pagerefs h ! q) + d) = load32 (kmem h) (PR_PAGEADDR (pagerefs h ! q) + d)"
  shows "heap_inv (h\<lparr>kmem := m\<rparr>)" "allocated (h\<lparr>kmem := m\<rparr>) = allocated h"
proof -
  note D = heap_invD [OF inv]
  let ?h = "h\<lparr>kmem := m\<rparr>"
  have u: "used ?h = used h" by (rule used_cong) simp
  have q: "page_ok ?h q" "page_blocks ?h q = page_blocks h q" if qu: "q \<in> used h" for q
    using page_ok_transfer [OF D(5) [OF qu], of ?h] m [OF qu] by (simp_all add: frontier_def)
  have "lists_ok ?h" by (rule lists_ok_cong [OF D(6) u]) simp_all
  then show "heap_inv ?h" using D u q by (simp add: heap_inv_def)
  show "allocated ?h = allocated h" using q u by (simp add: allocated_def)
qed

lemma heap_inv_mem:
  assumes inv: "heap_inv h"
    and m: "\<And>a x. a \<in> heap_pages h \<Longrightarrow> unat a \<le> unat x \<Longrightarrow> unat x < unat a + 4096 \<Longrightarrow> m x = kmem h x"
  shows "heap_inv (h\<lparr>kmem := m\<rparr>)" "allocated (h\<lparr>kmem := m\<rparr>) = allocated h"
proof -
  have "load32 m (PR_PAGEADDR (pagerefs h ! q) + d) = load32 (kmem h) (PR_PAGEADDR (pagerefs h ! q) + d)"
    if q: "q \<in> used h" and d: "d \<in> set (free_offs h q)" for q d
    using free_block_load [OF inv q, of d m] d page_okD(6) [OF heap_invD(5) [OF inv q]] m q
    by (auto simp: heap_pages_def)
  then show "heap_inv (h\<lparr>kmem := m\<rparr>)" "allocated (h\<lparr>kmem := m\<rparr>) = allocated h"
    using heap_inv_free [OF inv, of m] by blast+
qed

lemma PR_MKPAB:
  assumes "pageaddr_and_blocktype r = MKPAB a (of_nat b)" "unat a mod 4096 = 0" "b < NSIZES"
  shows "PR_PAGEADDR r = a" "PR_BLOCKTYPE r = of_nat b" "block_size r = sizes ! b"
proof -
  have a: "a AND PAGE_FRAME = a" using assms(2) by (simp add: page_aligned_iff)
  have "(of_nat b :: u32) AND mask 12 = of_nat b"
    using assms(3) by (simp add: take_bit_eq_mask [symmetric] NSIZES_def word_unat_eq_iff
        unsigned_take_bit_eq unat_of_nat take_bit_eq_mod unat_mod_distrib)
  then have b: "(of_nat b :: u32) AND NOT PAGE_FRAME = of_nat b" by (simp add: PAGE_FRAME_not_mask)
  have pf: "(x AND NOT PAGE_FRAME) AND PAGE_FRAME = 0" "(x AND PAGE_FRAME) AND NOT PAGE_FRAME = 0" for x
    by (simp_all add: and.assoc)
  have bz: "(of_nat b :: u32) AND PAGE_FRAME = 0" using pf(1) [of "of_nat b"] unfolding b .
  show "PR_PAGEADDR r = a"
    using a assms(1) by (simp add: PR_PAGEADDR_def MKPAB_def bit.conj_disj_distrib2 b bz)
  show t: "PR_BLOCKTYPE r = of_nat b"
    using pf(2) [of a] assms(1) b by (simp add: PR_BLOCKTYPE_def MKPAB_def bit.conj_disj_distrib2 a)
  show "block_size r = sizes ! b"
    using t assms(3) by (simp add: block_size_def NSIZES_def unat_of_nat)
qed

text \<open>Linking a new page in front of the lists.\<close>

lemma lists_ok_insert:
  assumes lists: "lists_ok h" and p: "p \<notin> used h" "p < length (pagerefs h)" and b: "b < NSIZES" "length (sizebases h) = NSIZES"
    and u: "used h' = insert p (used h)" and prs: "pagerefs h' = (pagerefs h)[p := r]"
    and r: "next_all r = allbase h" "next_samesize r = sizebases h ! b" "unat (PR_BLOCKTYPE r) = b"
    and bases: "sizebases h' = (sizebases h)[b := Some p]" "allbase h' = Some p"
  shows "lists_ok h'"
proof -
  have other: "pagerefs h' ! q = pagerefs h ! q" if "q \<in> used h" for q
    using that p prs by (metis nth_list_update_neq)
  have at: "pagerefs h' ! p = r" using prs p by simp
  have all: "chain (all_next h') x ys = chain (all_next h) x ys" if "set ys \<subseteq> used h" for x ys
    using that other by (intro chain_cong) (auto simp: all_next_def)
  have same: "chain (same_next h') x ys = chain (same_next h) x ys" if "set ys \<subseteq> used h" for x ys
    using that other by (intro chain_cong) (auto simp: same_next_def)
  obtain ys where ys: "chain (all_next h) (allbase h) ys" "distinct ys" "set ys = used h"
    using lists by (auto simp: lists_ok_def)
  have "chain (all_next h') (allbase h') (p # ys)"
    using ys all at r bases by (simp add: all_next_def)
  moreover have "distinct (p # ys)" "set (p # ys) = used h'" using ys p u by auto
  moreover have "\<exists>ys. chain (same_next h') (sizebases h' ! c) ys \<and> distinct ys
      \<and> set ys = {q \<in> used h'. unat (PR_BLOCKTYPE (pagerefs h' ! q)) = c}" if c: "c < NSIZES" for c
  proof -
    obtain zs where zs: "chain (same_next h) (sizebases h ! c) zs" "distinct zs"
        "set zs = {q \<in> used h. unat (PR_BLOCKTYPE (pagerefs h ! q)) = c}"
      using lists c unfolding lists_ok_def by blast
    have sub: "set zs \<subseteq> used h" using zs by auto
    have sets: "{q \<in> used h'. unat (PR_BLOCKTYPE (pagerefs h' ! q)) = c}
        = (if c = b then insert p (set zs) else set zs)"
      using u other at r(3) p(1) unfolding zs(3) by auto
    show ?thesis
    proof (cases "c = b")
      case True
      then have "chain (same_next h') (sizebases h' ! c) (p # zs)"
        using zs same [OF sub] at r bases b by (simp add: same_next_def)
      moreover have "distinct (p # zs)" using zs sub p by auto
      ultimately show ?thesis using sets True by (intro exI [of _ "p # zs"]) simp
    next
      case False
      then show ?thesis using zs same [OF sub] bases sets by (intro exI [of _ zs]) simp
    qed
  qed
  ultimately show ?thesis unfolding lists_ok_def by blast
qed

lemma block_seq_props:
  assumes "n * unat sz = 4096"
  shows "distinct (block_seq sz n)" "set (block_seq sz n) = block_offs sz" "length (block_seq sz n) = n"
proof -
  have "unat sz \<noteq> 0" using assms by (metis mult_0_right zero_neq_numeral)
  then have sz: "0 < unat sz" "unat sz dvd 4096" using assms by (simp, metis dvd_triv_right)
  show len: "length (block_seq sz n) = n" by (simp add: block_seq_def)
  have sub: "set (block_seq sz n) \<subseteq> block_offs sz"
  proof
    fix d
    assume "d \<in> set (block_seq sz n)"
    then obtain k where "k < n" "unat d = k * unat sz"
      using block_seq_mem [of n sz d] assms sz(1) by auto
    moreover from this have "k * unat sz < n * unat sz" using sz(1) by simp
    ultimately show "d \<in> block_offs sz" using assms by (simp add: block_offs_def)
  qed
  have "inj_on (\<lambda>k. of_nat k * sz) {0..<n}"
  proof (rule inj_onI)
    fix i j
    assume ij: "i \<in> {0..<n}" "j \<in> {0..<n}" "of_nat i * sz = of_nat j * sz"
    then have "i * unat sz < 4096" "j * unat sz < 4096" using sz(1) assms by (metis atLeastLessThan_iff mult_less_cancel2)+
    then have "i * unat sz = j * unat sz" using ij(3) unat_block by metis
    then show "i = j" using sz(1) by simp
  qed
  then show dist: "distinct (block_seq sz n)" by (simp add: block_seq_def distinct_map)
  have "card (set (block_seq sz n)) = n" using dist len by (simp add: distinct_card)
  also have "\<dots> = card (block_offs sz)" using card_block_offs [OF sz(2)] assms sz(1) by (metis nonzero_mult_div_cancel_right not_gr0)
  finally show "set (block_seq sz n) = block_offs sz" using card_subset_eq [OF block_offs_finite sub] by simp
qed

lemma newpage_spec:
  assumes inv: "heap_inv h" and b: "b < NSIZES"
    and below: "\<And>q. q \<in> used h \<Longrightarrow> unat (PR_PAGEADDR (pagerefs h ! q)) + 4096 \<le> unat a"
    and a: "unat a + 4096 \<le> frontier h" "unat MIPS_KSEG0 < unat a" "unat a mod 4096 = 0"
  shows "newpage b a h = Inr (None, h) \<and> used h = {..<NPAGEREFS} \<or>
    (\<exists>p h'. newpage b a h = Inr (Some p, h') \<and> heap_inv h' \<and> p \<in> used h' \<and> allocated h' = allocated h
      \<and> free_offs h' p \<noteq> [] \<and> block_size (pagerefs h' ! p) = sizes ! b \<and> kram h' = kram h
      \<and> heap_pages h' = insert a (heap_pages h) \<and> used h' = insert p (used h))"
proof -
  note D = heap_invD [OF inv]
  have a32: "unat a + 4096 \<le> 2 ^ 32" using a(1) frontier_bound [OF D(1)] by simp
  let ?sz = "sizes ! b"
  have get: "aget sizes b = Inr ?sz" using b by (simp add: NSIZES_def sizes_def)
  note sz = sizes_nth [OF get]
  let ?n = "unat (PAGE_SIZE div ?sz)"
  have szb: "16 \<le> unat ?sz" "4 dvd unat ?sz" using sz(2) by simp_all
  have n: "1 < ?n"
  proof (rule ccontr)
    assume "\<not> 1 < ?n"
    then have "?n * unat ?sz \<le> 1 * unat ?sz" by (intro mult_le_mono1) simp
    moreover have "(2 :: nat) ^ b \<le> 2 ^ 7" using sz(1) by (intro power_increasing) simp_all
    then have "unat ?sz \<le> 2048" using sz(2) by simp
    ultimately show False using sz(3) by linarith
  qed
  have nn: "unat (ucast (PAGE_SIZE div ?sz) :: u16) = ?n" using sz(4) by (simp add: unat_ucast_u32)
  consider (none) "allocpageref h = Inr (None, h)" "\<forall>p < NPAGEREFS. p \<in> used h"
    | (some) p u where "allocpageref h = Inr (Some p, h\<lparr>pagerefs_inuse := u\<rparr>)" "length u = INUSE_WORDS"
        "p < NPAGEREFS" "p \<notin> used h" "used (h\<lparr>pagerefs_inuse := u\<rparr>) = insert p (used h)"
    using allocpageref_from_spec [OF D(3), of 0] unfolding allocpageref_def by auto
  then show ?thesis
  proof cases
    case none
    then have "used h = {..<NPAGEREFS}" by (auto simp: used_def)
    then show ?thesis using none by (simp add: newpage_def free_kpages_def)
  next
    case (some p u)
    let ?m0 = "store32 (kmem h) a 0"
    have fl0: "free_list ?m0 a (a + of_nat 0 * ?sz) (block_seq ?sz (Suc 0))"
      using a(2) by (auto simp: block_seq_def)
    obtain m where m: "chain_blocks (?n - 1) (Suc 0) a ?sz (a + of_nat 0 * ?sz) ?m0
          = Inr (a + of_nat (0 + (?n - 1)) * ?sz, m)"
        "free_list m a (a + of_nat (0 + (?n - 1)) * ?sz) (block_seq ?sz (Suc (0 + (?n - 1))))"
      using chain_blocks_spec [OF a(3) a32 _ szb(2), of 0 "?n - 1" ?m0] fl0 a(2) szb(1) sz(3) n by auto
    have nS: "Suc (?n - 1) = ?n" using n by simp
    have chain: "chain_blocks (unat (ucast (PAGE_SIZE div ?sz) :: u16) - 1) 1 a ?sz a ?m0
        = Inr (a + of_nat (?n - 1) * ?sz, m)"
      and fl: "free_list m a (a + of_nat (?n - 1) * ?sz) (block_seq ?sz ?n)"
      using m nS nn by simp_all
    have lastoff: "unat (of_nat (?n - 1) * ?sz) = (?n - 1) * unat ?sz" "(?n - 1) * unat ?sz < 4096"
    proof -
      have "?n - 1 < ?n" "0 < unat ?sz" using n szb(1) by linarith+
      then have "(?n - 1) * unat ?sz < ?n * unat ?sz" by (simp only: mult_less_cancel2)
      then show "(?n - 1) * unat ?sz < 4096" unfolding sz(3) .
      then show "unat (of_nat (?n - 1) * ?sz) = (?n - 1) * unat ?sz" by (rule unat_block)
    qed
    have outside: "m x = kmem h x" if "unat x < unat a" for x
    proof -
      have "m x = ?m0 x"
      proof (rule chain_blocks_outside [OF chain _ _ a32])
        show "(1 + (unat (ucast (PAGE_SIZE div ?sz) :: u16) - 1)) * unat ?sz \<le> 4096"
          using sz(3) nn n by simp
      qed (use szb that in simp_all)
      also have "\<dots> = kmem h x"
        using unat_block_offset [OF a32, of 0 ?sz] that by (intro store32_outside) auto
      finally show ?thesis .
    qed
    let ?r = "(pagerefs h ! p)\<lparr>pageaddr_and_blocktype := MKPAB a (of_nat b), nfree := ucast (PAGE_SIZE div ?sz),
        freelist_offset := ucast (of_nat (?n - 1) * ?sz), next_samesize := sizebases h ! b, next_all := allbase h\<rparr>"
    let ?h = "h\<lparr>kmem := m, pagerefs_inuse := u, pagerefs := (pagerefs h)[p := ?r],
        sizebases := (sizebases h)[b := Some p], allbase := Some p\<rparr>"
    have plen: "p < length (pagerefs h)" using some(3) D(2) by simp
    have off: "(ucast (ucast (of_nat (?n - 1) * ?sz) :: u16) :: u32) = of_nat (?n - 1) * ?sz"
        "(ucast (of_nat (?n - 1) * ?sz) :: u16) \<noteq> INVALID_OFFSET"
      using ucast_offset [of "of_nat (?n - 1) * ?sz"] lastoff by simp_all
    have nu: "(ucast (ucast (PAGE_SIZE div ?sz) :: u16) :: u32) = PAGE_SIZE div ?sz"
      using nn by (simp add: word_unat_eq_iff)
    have assert: "(ucast (ucast (PAGE_SIZE div ?sz) :: u16) :: u32) - 1 = of_nat (?n - 1)"
      unfolding nu using n by (simp add: of_nat_diff)
    have np: "newpage b a h = Inr (Some p, ?h)"
      using some(1) get plen chain off assert b D(4)
      by (simp add: newpage_def Let_def)
    note pr = PR_MKPAB [of ?r a b, OF _ a(3) b, simplified]
    have fp: "fl_ptr ?r = a + of_nat (?n - 1) * ?sz" using off pr by (simp add: fl_ptr_def)
    have fr: "frontier ?h = frontier h" by (simp add: frontier_def)
    have at: "pagerefs ?h ! p = ?r" using plen by simp
    note seq = block_seq_props [OF sz(3)]
    have ok: "page_ok ?h p" "free_offs ?h p = block_seq ?sz ?n"
    proof -
      have fl': "free_list (kmem ?h) (PR_PAGEADDR ?r) (fl_ptr ?r) (block_seq ?sz ?n)"
        using fl fp pr by simp
      have bt: "unat (PR_BLOCKTYPE ?r) < NSIZES" using pr b by (simp add: NSIZES_def unat_of_nat)
      show "page_ok ?h p" "free_offs ?h p = block_seq ?sz ?n"
        using page_okI [OF at [symmetric] bt _ _ fl' seq(1)] seq pr a fr nn by simp_all
    qed
    have u: "used ?h = insert p (used h)" using some(5) by (simp add: used_def)
    have q: "page_ok ?h q" "page_blocks ?h q = page_blocks h q" if qu: "q \<in> used h" for q
    proof -
      have qp: "q \<noteq> p" using qu some(4) by auto
      have "page_view (pagerefs ?h ! q) = page_view (pagerefs h ! q)" using qp by simp
      moreover have "load32 (kmem ?h) (PR_PAGEADDR (pagerefs h ! q) + d)
          = load32 (kmem h) (PR_PAGEADDR (pagerefs h ! q) + d)" if "d \<in> set (free_offs h q)" for d
        using free_block_below [OF inv qu, of d "unat a" m] that page_okD(6) [OF D(5) [OF qu]] below [OF qu] outside
        by auto
      ultimately show "page_ok ?h q" "page_blocks ?h q = page_blocks h q"
        using page_ok_transfer [OF D(5) [OF qu], of ?h] fr by simp_all
    qed
    have "page_blocks ?h p = {}" using ok(2) seq(2) at pr by (simp add: page_blocks_def Let_def)
    then have al: "allocated ?h = allocated h" using u q by (simp add: allocated_def)
    have same: "PR_PAGEADDR (pagerefs ?h ! q) = PR_PAGEADDR (pagerefs h ! q)" if "q \<in> used h" for q
      using that some(4) by (cases "q = p") simp_all
    have hp: "heap_pages ?h = insert a (heap_pages h)"
      unfolding heap_pages_def u image_insert at using same pr(1) by (simp cong: image_cong)
    have inj: "inj_on (\<lambda>q. PR_PAGEADDR (pagerefs ?h ! q)) (insert p (used h))"
    proof -
      have "PR_PAGEADDR (pagerefs h ! q) \<noteq> a" if "q \<in> used h" for q using below [OF that] by auto
      then show ?thesis using D(7) same at pr some(4) by (auto simp: inj_on_def)
    qed
    have li: "lists_ok ?h"
      by (rule lists_ok_insert [OF D(6) some(4) plen b D(4) u, of ?r])
        (use pr b in \<open>simp_all add: NSIZES_def unat_of_nat\<close>)
    have "heap_inv ?h" using D some(2) ok q u inj li by (simp add: heap_inv_def)
    moreover have "free_offs ?h p \<noteq> []" using ok(2) seq(3) n by auto
    ultimately show ?thesis
      using np u al at pr hp by (intro disjI2 exI [of _ p] exI [of _ ?h]) simp
  qed
qed

section \<open>Allocation\<close>

lemma blocktype_from_spec:
  "\<exists>s \<in> set ss. sz \<le> s \<Longrightarrow> \<exists>b < length ss. blocktype_from i ss sz = Inr (i + b) \<and> sz \<le> ss ! b"
proof (induction ss arbitrary: i)
  case (Cons s ss)
  show ?case
  proof (cases "sz \<le> s")
    case True
    then show ?thesis by (intro exI [of _ 0]) simp
  next
    case False
    then obtain b where "b < length ss" "blocktype_from (Suc i) ss sz = Inr (Suc i + b)" "sz \<le> ss ! b"
      using Cons.IH [of "Suc i"] Cons.prems by auto
    then show ?thesis using False by (intro exI [of _ "Suc b"]) simp
  qed
qed simp

lemma blocktype_spec:
  assumes "unat sz \<le> 2048"
  shows "\<exists>b < NSIZES. blocktype sz = Inr b \<and> unat sz \<le> unat (sizes ! b)"
proof -
  have "\<exists>s \<in> set sizes. sz \<le> s" using assms by (simp add: word_le_nat_alt sizes_def)
  then obtain b where "b < length sizes" "blocktype_from 0 sizes sz = Inr (0 + b)" "sz \<le> sizes ! b"
    using blocktype_from_spec by blast
  moreover have "length sizes = NSIZES" by (simp add: sizes_def NSIZES_def)
  ultimately show ?thesis by (intro exI [of _ b]) (simp add: blocktype_def word_le_nat_alt)
qed

lemma block_page:
  assumes inv: "heap_inv h" and pq: "p \<in> used h" "q \<in> used h" and d: "unat d < 4096" "unat e < 4096"
    and eq: "PR_PAGEADDR (pagerefs h ! p) + d = PR_PAGEADDR (pagerefs h ! q) + e"
  shows "p = q \<and> d = e"
proof -
  note D = heap_invD [OF inv]
  let ?P = "unat (PR_PAGEADDR (pagerefs h ! p))" and ?Q = "unat (PR_PAGEADDR (pagerefs h ! q))"
  have fit: "?P + 4096 \<le> 2 ^ 32" "?Q + 4096 \<le> 2 ^ 32"
    using page_okD(3) [OF D(5) [OF pq(1)]] page_okD(3) [OF D(5) [OF pq(2)]] frontier_bound [OF D(1)] by simp_all
  have "?P + unat d = ?Q + unat e"
    using arg_cong [OF eq, of unat] unat_page_add [OF fit(1) d(1)] unat_page_add [OF fit(2) d(2)] by simp
  moreover have kl: "?P = 4096 * (?P div 4096)" "?Q = 4096 * (?Q div 4096)"
    using PR_PAGEADDR_aligned [of "pagerefs h ! p"] PR_PAGEADDR_aligned [of "pagerefs h ! q"]
      mult_div_mod_eq [of 4096 ?P] mult_div_mod_eq [of 4096 ?Q] by linarith+
  ultimately have "?P div 4096 = ?Q div 4096" using d by linarith
  then have "PR_PAGEADDR (pagerefs h ! p) = PR_PAGEADDR (pagerefs h ! q)" using kl by (simp add: word_unat_eq_iff)
  moreover from this have "p = q" using D(7) pq by (auto dest: inj_onD)
  ultimately show ?thesis using eq by simp
qed

lemma page_blocks_mem:
  "(a, z) \<in> page_blocks h p \<longleftrightarrow>
    (\<exists>d. a = PR_PAGEADDR (pagerefs h ! p) + d \<and> z = block_size (pagerefs h ! p)
      \<and> d \<in> block_offs z \<and> d \<notin> set (free_offs h p))"
  by (auto simp: page_blocks_def Let_def)

text \<open>Taking a block from a page with a free one; \<open>gained\<close> is what a successful call achieves.\<close>

definition gained :: "u32 \<Rightarrow> kheap \<Rightarrow> u32 \<Rightarrow> kheap \<Rightarrow> bool" where
  "gained sz h a h' \<longleftrightarrow> a \<noteq> 0 \<and> (\<exists>z. unat sz \<le> unat z \<and> (a, z) \<notin> allocated h
     \<and> allocated h' = insert (a, z) (allocated h))"

lemma doalloc_gains:
  assumes inv: "heap_inv h" and p: "p \<in> used h" and free: "free_offs h p \<noteq> []"
    and z: "unat sz \<le> unat (block_size (pagerefs h ! p))"
  shows "\<exists>a h'. doalloc p h = Inr (a, h') \<and> heap_inv h' \<and> gained sz h a h'
    \<and> kram h' = kram h \<and> used h' = used h \<and> heap_pages h' = heap_pages h"
proof -
  obtain d ds where fd: "free_offs h p = d # ds" using free by (cases "free_offs h p") auto
  let ?r = "pagerefs h ! p"
  let ?a = "PR_PAGEADDR ?r + d"
  obtain h' where h': "doalloc p h = Inr (?a, h')" "heap_inv h'"
      "allocated h' = insert (?a, block_size ?r) (allocated h)"
      "(?a, block_size ?r) \<notin> page_blocks h p" "?a \<noteq> 0"
      "kram h' = kram h" "used h' = used h" "heap_pages h' = heap_pages h"
    using doalloc_spec [OF inv p fd refl] by blast
  have dd: "unat d < 4096" using page_okD(6) [OF heap_invD(5) [OF inv p]] fd by (auto simp: block_offs_def)
  have "(?a, block_size ?r) \<notin> page_blocks h q" if q: "q \<in> used h" for q
  proof
    assume "(?a, block_size ?r) \<in> page_blocks h q"
    then obtain e where e: "?a = PR_PAGEADDR (pagerefs h ! q) + e" "unat e < 4096"
      by (auto simp: page_blocks_mem block_offs_def)
    then have "p = q" using block_page [OF inv p q dd] by blast
    then show False using h'(4) \<open>(?a, block_size ?r) \<in> page_blocks h q\<close> by simp
  qed
  then have "(?a, block_size ?r) \<notin> allocated h" by (auto simp: allocated_def)
  then show ?thesis using h' z unfolding gained_def by blast
qed

lemma subpage_kmalloc_spec:
  assumes inv: "heap_inv h" and sz: "unat sz \<le> 2048"
  shows "\<exists>a h'. subpage_kmalloc sz h = Inr (a, h') \<and> heap_inv h' \<and> new_pages h h' \<and>
    (gained sz h a h' \<or> a = 0 \<and> allocated h' = allocated h
      \<and> (used h = {..<NPAGEREFS} \<or> unat (lastpaddr (kram h)) < unat (firstpaddr (kram h)) + 4096))"
proof -
  note D = heap_invD [OF inv]
  obtain b where b: "b < NSIZES" "blocktype sz = Inr b" "unat sz \<le> unat (sizes ! b)"
    using blocktype_spec [OF sz] by blast
  obtain ys where ys: "chain (same_next h) (sizebases h ! b) ys" "distinct ys"
      "set ys = {p \<in> used h. unat (PR_BLOCKTYPE (pagerefs h ! p)) = b}"
    using D(6) b(1) unfolding lists_ok_def by blast
  have "length ys \<le> NPAGEREFS"
    using distinct_card [OF ys(2)] card_mono [of "used h" "set ys"] ys(3) card_used [of h] by auto
  then have fuel: "length ys < LIST_FUEL" by (simp add: LIST_FUEL_def)
  have "q < length (pagerefs h) \<and> PR_BLOCKTYPE (pagerefs h ! q) = of_nat b" if "q \<in> set ys" for q
  proof -
    have "q \<in> used h" and t: "unat (PR_BLOCKTYPE (pagerefs h ! q)) = b" using that ys(3) by blast+
    moreover have "of_nat b = PR_BLOCKTYPE (pagerefs h ! q)" unfolding t [symmetric] by simp
    ultimately show ?thesis using D(2) by (simp add: used_def)
  qed
  note find = find_samesize_spec [OF ys(1) fuel ballI [OF this]]
  have bs: "block_size (pagerefs h ! p) = sizes ! b" if "p \<in> set ys" for p
    using that ys(3) by (auto simp: block_size_def)
  show ?thesis
  proof (cases "find (\<lambda>q. nfree (pagerefs h ! q) > 0) ys")
    case (Some p)
    then have p: "p \<in> set ys" "nfree (pagerefs h ! p) > 0" by (auto simp: find_Some_iff)
    have pu: "p \<in> used h" using p ys by auto
    have "free_offs h p \<noteq> []" using page_okD(7) [OF D(5) [OF pu]] p(2) by (auto simp: word_less_nat_alt)
    then obtain a h' where "doalloc p h = Inr (a, h')" "heap_inv h'" "gained sz h a h'"
        "kram h' = kram h" "used h' = used h" "heap_pages h' = heap_pages h"
      using doalloc_gains [OF inv pu, of sz] bs [OF p(1)] b(3) by auto
    then show ?thesis using b find Some D(4) by (simp add: subpage_kmalloc_def new_pages_def)
  next
    case None
    have one: "unat (1 :: u32) \<le> 2 ^ 19" by simp
    show ?thesis
    proof (cases rule: ram_stealmem_cases [OF D(1) one])
      case 1
      then have "alloc_kpages 1 h = (0, h)" by (simp add: alloc_kpages_def getppages_def)
      then show ?thesis using 1 b find None D(4) inv by (simp add: subpage_kmalloc_def new_pages_def)
    next
      case (2 r')
      then have steal: "alloc_kpages 1 h = (PADDR_TO_KVADDR (firstpaddr (kram h)), h\<lparr>kram := r'\<rparr>)"
        using D(1) by (auto simp: alloc_kpages_def getppages_def ram_wf_def)
      let ?a = "PADDR_TO_KVADDR (firstpaddr (kram h))"
      have az: "?a \<noteq> 0"
        using unat_PADDR_TO_KVADDR [of "firstpaddr (kram h)"] D(1) by (auto simp: ram_wf_def)
      have "?a \<noteq> 0 \<and> unat ?a = frontier h \<and> unat ?a mod 4096 = 0
          \<and> frontier (h\<lparr>kram := r'\<rparr>) = frontier h + 4096 \<and> grows h (h\<lparr>kram := r'\<rparr>)"
        by (rule alloc_kpages_cases [OF D(1) one])
          (use steal az 2(2-4) D(1) in \<open>auto simp: frontier_def ram_wf_def\<close>)
      then have a: "?a \<noteq> 0" "unat ?a = frontier h" "unat ?a mod 4096 = 0"
          "frontier (h\<lparr>kram := r'\<rparr>) = frontier h + 4096" "grows h (h\<lparr>kram := r'\<rparr>)" by blast+
      let ?h = "h\<lparr>kram := r'\<rparr>"
      have g: "heap_inv ?h" "allocated ?h = allocated h" "used ?h = used h"
        using heap_inv_grows [OF inv a(5)] by simp_all
      have pages: "heap_pages ?h = heap_pages h" by (simp add: heap_pages_def g(3))
      have "unat (PR_PAGEADDR (pagerefs ?h ! q)) + 4096 \<le> unat ?a" if "q \<in> used ?h" for q
        using page_okD(3) [OF D(5)] that g(3) a(2) by simp
      moreover have "unat MIPS_KSEG0 < unat ?a" using a(2) D(1) by (simp add: frontier_def ram_wf_def)
      ultimately consider (none) "newpage b ?a ?h = Inr (None, ?h)" "used ?h = {..<NPAGEREFS}"
        | (some) p h' where "newpage b ?a ?h = Inr (Some p, h')" "heap_inv h'" "p \<in> used h'"
            "allocated h' = allocated h" "free_offs h' p \<noteq> []" "block_size (pagerefs h' ! p) = sizes ! b"
            "kram h' = r'" "heap_pages h' = insert ?a (heap_pages ?h)" "used h' = insert p (used h)"
        using newpage_spec [OF g(1) b(1), of ?a] a g(2,3) by auto
      then show ?thesis
      proof cases
        case none
        then show ?thesis
          using b find None D(4) steal a(1) g pages 2(2,3) by (simp add: subpage_kmalloc_def new_pages_def)
      next
        case (some p h')
        then obtain x h'' where "doalloc p h' = Inr (x, h'')" "heap_inv h''" "gained sz h' x h''"
            "kram h'' = kram h'" "used h'' = used h'" "heap_pages h'' = heap_pages h'"
          using doalloc_gains [of h' p sz] b(3) by auto
        moreover from this have "gained sz h x h''" using some(4) by (simp add: gained_def)
        moreover from calculation have "new_pages h h''"
          using some(7-9) pages 2(2,3) a(2) by (auto simp: new_pages_def card_insert_if)
        ultimately show ?thesis using b find None D(4) steal a(1) some(1) by (simp add: subpage_kmalloc_def)
      qed
    qed
  qed
qed

section \<open>Removing a page\<close>

lemma keeps_same_sel:
  assumes "keeps_same b h h'"
  shows "kmem h' = kmem h" "kram h' = kram h" "pagerefs_inuse h' = pagerefs_inuse h" "allbase h' = allbase h"
    "length (sizebases h') = length (sizebases h)" "length (pagerefs h') = length (pagerefs h)"
    "b' \<noteq> b \<Longrightarrow> sizebases h' ! b' = sizebases h ! b'"
    "q < length (pagerefs h) \<Longrightarrow> no_same (pagerefs h' ! q) = no_same (pagerefs h ! q)"
proof -
  obtain prs bs where h': "h' = h\<lparr>pagerefs := prs, sizebases := bs\<rparr>" "map no_same prs = map no_same (pagerefs h)"
      "length bs = length (sizebases h)" "\<forall>b'. b' \<noteq> b \<longrightarrow> bs ! b' = sizebases h ! b'"
    using assms unfolding keeps_same_def by blast
  show len: "length (pagerefs h') = length (pagerefs h)" using map_eq_imp_length_eq [OF h'(2)] h'(1) by simp
  show "no_same (pagerefs h' ! q) = no_same (pagerefs h ! q)" if "q < length (pagerefs h)"
    using arg_cong [OF h'(2), of "\<lambda>xs. xs ! q"] that len h'(1) by simp
qed (use assms in \<open>auto simp: keeps_same_def\<close>)

lemma keeps_all_sel:
  assumes "keeps_all h h'"
  shows "kmem h' = kmem h" "kram h' = kram h" "pagerefs_inuse h' = pagerefs_inuse h"
    "sizebases h' = sizebases h" "length (pagerefs h') = length (pagerefs h)"
    "q < length (pagerefs h) \<Longrightarrow> no_all (pagerefs h' ! q) = no_all (pagerefs h ! q)"
proof -
  obtain prs a where h': "h' = h\<lparr>pagerefs := prs, allbase := a\<rparr>" "map no_all prs = map no_all (pagerefs h)"
    using assms unfolding keeps_all_def by blast
  show len: "length (pagerefs h') = length (pagerefs h)" using map_eq_imp_length_eq [OF h'(2)] h'(1) by simp
  show "no_all (pagerefs h' ! q) = no_all (pagerefs h ! q)" if "q < length (pagerefs h)"
    using arg_cong [OF h'(2), of "\<lambda>xs. xs ! q"] that len h'(1) by simp
qed (use assms in \<open>auto simp: keeps_all_def\<close>)

lemma no_same_eqD:
  "no_same r = no_same r' \<Longrightarrow> page_view r = page_view r' \<and> next_all r = next_all r'"
  by (cases r, cases r') (simp add: no_same_def page_view_def)

lemma no_all_eqD:
  "no_all r = no_all r' \<Longrightarrow> page_view r = page_view r' \<and> next_samesize r = next_samesize r'"
  by (cases r, cases r') (simp add: no_all_def page_view_def)

lemma remove_lists_spec:
  assumes lists: "lists_ok h" and len: "length (pagerefs h) = NPAGEREFS" "length (sizebases h) = NSIZES"
    and p: "p \<in> used h" and b: "b = unat (PR_BLOCKTYPE (pagerefs h ! p))" "b < NSIZES"
  shows "\<exists>h'. remove_lists p b h = Inr h' \<and> kmem h' = kmem h \<and> kram h' = kram h
    \<and> pagerefs_inuse h' = pagerefs_inuse h \<and> length (pagerefs h') = NPAGEREFS
    \<and> length (sizebases h') = NSIZES \<and> (\<forall>q < NPAGEREFS. page_view (pagerefs h' ! q) = page_view (pagerefs h ! q))
    \<and> (\<exists>ys. chain (all_next h') (allbase h') ys \<and> distinct ys \<and> set ys = used h - {p})
    \<and> (\<forall>c < NSIZES. \<exists>ys. chain (same_next h') (sizebases h' ! c) ys \<and> distinct ys
         \<and> set ys = {q \<in> used h - {p}. unat (PR_BLOCKTYPE (pagerefs h ! q)) = c})"
proof -
  obtain zs where zs: "chain (all_next h) (allbase h) zs" "distinct zs" "set zs = used h"
    using lists by (auto simp: lists_ok_def)
  have ex: "\<exists>ys. chain (same_next h) (sizebases h ! c) ys \<and> distinct ys
      \<and> set ys = {q \<in> used h. unat (PR_BLOCKTYPE (pagerefs h ! q)) = c}" if "c < NSIZES" for c
    using lists that unfolding lists_ok_def by blast
  then obtain ys where ys: "chain (same_next h) (sizebases h ! b) ys" "distinct ys"
      "set ys = {q \<in> used h. unat (PR_BLOCKTYPE (pagerefs h ! q)) = b}"
    using b(2) by blast
  have ul: "q < NPAGEREFS" if "q \<in> used h" for q using that by (simp add: used_def)
  have l1: "length ys \<le> LIST_FUEL" "length zs \<le> LIST_FUEL"
    using distinct_card [OF ys(2)] distinct_card [OF zs(2)] card_mono [of "used h" "set ys"] ys(3) zs(3)
      card_used [of h] by (auto simp: LIST_FUEL_def)
  have "\<exists>h1. remove_same LIST_FUEL b p Base h = Inr h1 \<and> keeps_same b h h1
      \<and> chain (\<lambda>q. same_at b (Link q) h1) (same_at b Base h1) (remove1 p ys)
      \<and> (\<forall>g. g \<noteq> Base \<longrightarrow> (\<forall>q \<in> set ys. g \<noteq> Link q) \<longrightarrow> same_at b g h1 = same_at b g h)"
    by (rule same_links.remove_spec)
      (use ys p b len ul l1 in \<open>auto simp: same_at_def same_ok_def same_next_def [abs_def]\<close>)
  then obtain h1 where h1: "remove_same LIST_FUEL b p Base h = Inr h1" "keeps_same b h h1"
      "chain (same_next h1) (sizebases h1 ! b) (remove1 p ys)"
      and h1g: "\<forall>g. g \<noteq> Base \<longrightarrow> (\<forall>q \<in> set ys. g \<noteq> Link q) \<longrightarrow> same_at b g h1 = same_at b g h"
    by (auto simp: same_at_def)
  have h1n: "same_next h1 q = same_next h q" if "q \<notin> set ys" for q
    using h1g [rule_format, of "Link q"] that by (auto simp: same_at_def)
  note K1 = keeps_same_sel [OF h1(2)]
  have an1: "all_next h1 q = all_next h q" if "q < NPAGEREFS" for q
    using no_same_eqD [OF K1(8)] that len(1) by (simp add: all_next_def)
  have zs1: "chain (all_next h1) (allbase h1) zs"
    using zs chain_cong [of zs "all_next h1" "all_next h"] an1 ul K1(4) by simp
  have "\<exists>h2. remove_all LIST_FUEL p Base h1 = Inr h2 \<and> keeps_all h1 h2
      \<and> chain (\<lambda>q. all_at (Link q) h2) (all_at Base h2) (remove1 p zs)
      \<and> (\<forall>g. g \<noteq> Base \<longrightarrow> (\<forall>q \<in> set zs. g \<noteq> Link q) \<longrightarrow> all_at g h2 = all_at g h1)"
    by (rule all_links.remove_spec)
      (use zs zs1 p len ul l1 K1(6) in \<open>auto simp: all_at_def all_ok_def all_next_def [abs_def]\<close>)
  then obtain h2 where h2: "remove_all LIST_FUEL p Base h1 = Inr h2" "keeps_all h1 h2"
      "chain (all_next h2) (allbase h2) (remove1 p zs)"
    by (auto simp: all_at_def)
  note K2 = keeps_all_sel [OF h2(2)]
  have sn2: "same_next h2 q = same_next h1 q" if "q < NPAGEREFS" for q
    using no_all_eqD [OF K2(6)] that len(1) K1(6) by (simp add: same_next_def)
  have view: "page_view (pagerefs h2 ! q) = page_view (pagerefs h ! q)" if "q < NPAGEREFS" for q
    using no_all_eqD [OF K2(6), of q] no_same_eqD [OF K1(8), of q] that len(1) K1(6) by simp
  have "\<exists>xs. chain (same_next h2) (sizebases h2 ! c) xs \<and> distinct xs
      \<and> set xs = {q \<in> used h - {p}. unat (PR_BLOCKTYPE (pagerefs h ! q)) = c}" if c: "c < NSIZES" for c
  proof (cases "c = b")
    case True
    have sub: "set (remove1 p ys) \<subseteq> used h" using ys set_remove1_subset by fastforce
    have "chain (same_next h2) (sizebases h2 ! b) (remove1 p ys)"
      using h1(3) chain_cong [of "remove1 p ys" "same_next h2" "same_next h1"] sn2 ul sub K2(4) by auto
    then show ?thesis using True ys p b by (intro exI [of _ "remove1 p ys"]) auto
  next
    case False
    obtain xs where xs: "chain (same_next h) (sizebases h ! c) xs" "distinct xs"
        "set xs = {q \<in> used h. unat (PR_BLOCKTYPE (pagerefs h ! q)) = c}"
      using ex [OF c] by blast
    have "same_next h2 q = same_next h q" if "q \<in> set xs" for q
      using that xs(3) ys(3) False h1n sn2 ul by auto
    then have "chain (same_next h2) (sizebases h2 ! c) xs"
      using xs(1) chain_cong [of xs "same_next h2" "same_next h"] K2(4) K1(7) [OF False] by simp
    then show ?thesis using xs False b by (intro exI [of _ xs]) auto
  qed
  moreover have "distinct (remove1 p zs)" "set (remove1 p zs) = used h - {p}" using zs by auto
  moreover have "remove_lists p b h = Inr h2" using h1(1) h2(1) b(2) by (simp add: remove_lists_def)
  ultimately show ?thesis using h2(3) view K1 K2 len by (intro exI [of _ h2]) auto
qed

lemma remove_page_spec:
  assumes inv: "heap_inv h" and p: "p \<in> used h" and free: "page_blocks h p = {}"
    and b: "b = unat (PR_BLOCKTYPE (pagerefs h ! p))"
  shows "\<exists>h1 h'. remove_lists p b h = Inr h1 \<and> freepageref p h1 = Inr h' \<and> heap_inv h'
    \<and> allocated h' = allocated h \<and> kmem h' = kmem h \<and> kram h' = kram h \<and> heap_pages h' \<subseteq> heap_pages h"
proof -
  note D = heap_invD [OF inv]
  have b8: "b < NSIZES" using page_okD(1) [OF D(5) [OF p]] b by simp
  obtain h1 where h1: "remove_lists p b h = Inr h1" "kmem h1 = kmem h" "kram h1 = kram h"
      "pagerefs_inuse h1 = pagerefs_inuse h" "length (pagerefs h1) = NPAGEREFS" "length (sizebases h1) = NSIZES"
      and view: "\<forall>q < NPAGEREFS. page_view (pagerefs h1 ! q) = page_view (pagerefs h ! q)"
      and all: "\<exists>ys. chain (all_next h1) (allbase h1) ys \<and> distinct ys \<and> set ys = used h - {p}"
      and same: "\<forall>c < NSIZES. \<exists>ys. chain (same_next h1) (sizebases h1 ! c) ys \<and> distinct ys
         \<and> set ys = {q \<in> used h - {p}. unat (PR_BLOCKTYPE (pagerefs h ! q)) = c}"
    using remove_lists_spec [OF D(6,2,4) p b b8] by blast
  have u1: "used h1 = used h" by (rule used_cong [OF h1(4)])
  obtain u where u: "freepageref p h1 = Inr (h1\<lparr>pagerefs_inuse := u\<rparr>)" "length u = INUSE_WORDS"
      "used (h1\<lparr>pagerefs_inuse := u\<rparr>) = used h - {p}"
    using freepageref_spec [of h1 p] D(3) h1(4) p u1 by auto
  let ?h = "h1\<lparr>pagerefs_inuse := u\<rparr>"
  have ul: "q < NPAGEREFS" if "q \<in> used h" for q using that by (simp add: used_def)
  have v: "page_view (pagerefs ?h ! q) = page_view (pagerefs h ! q)" if "q \<in> used h" for q
    using view ul [OF that] by simp
  have fr: "frontier ?h = frontier h" using h1(3) by (simp add: frontier_def)
  have q: "page_ok ?h q" "page_blocks ?h q = page_blocks h q" if "q \<in> used h" for q
    using page_ok_transfer [OF D(5) [OF that] v [OF that]] fr h1(2) by simp_all
  have n: "all_next ?h = all_next h1" "same_next ?h = same_next h1"
    by (simp_all add: all_next_def [abs_def] same_next_def [abs_def])
  have bt: "PR_BLOCKTYPE (pagerefs ?h ! q) = PR_BLOCKTYPE (pagerefs h ! q)"
      "PR_PAGEADDR (pagerefs ?h ! q) = PR_PAGEADDR (pagerefs h ! q)" if "q \<in> used h" for q
    using page_view_eqD [OF v [OF that]] by simp_all
  have "lists_ok ?h"
    unfolding lists_ok_def u(3) n
  proof (intro conjI allI impI)
    show "\<exists>ys. chain (all_next h1) (allbase ?h) ys \<and> distinct ys \<and> set ys = used h - {p}" using all by simp
    fix c
    assume "c < NSIZES"
    moreover have "{q \<in> used h - {p}. unat (PR_BLOCKTYPE (pagerefs ?h ! q)) = c}
        = {q \<in> used h - {p}. unat (PR_BLOCKTYPE (pagerefs h ! q)) = c}" using bt by auto
    ultimately show "\<exists>ys. chain (same_next h1) (sizebases ?h ! c) ys \<and> distinct ys
        \<and> set ys = {q \<in> used h - {p}. unat (PR_BLOCKTYPE (pagerefs ?h ! q)) = c}" using same by simp
  qed
  moreover have "inj_on (\<lambda>q. PR_PAGEADDR (pagerefs ?h ! q)) (used h - {p})"
    using D(7) bt by (auto simp: inj_on_def)
  ultimately have "heap_inv ?h" using D h1 u q by (simp add: heap_inv_def)
  moreover have "allocated ?h = allocated h"
    using allocated_page [OF p] free q u(3) by (simp add: allocated_def)
  moreover have "heap_pages ?h \<subseteq> heap_pages h"
    unfolding heap_pages_def u(3) using bt(2) by auto
  ultimately show ?thesis using h1 u(1) by auto
qed

section \<open>Freeing a block\<close>

lemma find_page_spec:
  assumes "chain (all_next h) pr ys" "length ys < fuel"
    and "\<forall>q \<in> set ys. q < length (pagerefs h) \<and> PR_BLOCKTYPE (pagerefs h ! q) < of_nat NSIZES"
  shows "find_page fuel a pr h = Inr (find (\<lambda>q. PR_PAGEADDR (pagerefs h ! q) \<le> a
    \<and> a < PR_PAGEADDR (pagerefs h ! q) + PAGE_SIZE) ys)"
  using assms
proof (induction ys arbitrary: pr fuel)
  case Nil
  then show ?case by (cases fuel) auto
next
  case (Cons y ys)
  then obtain f where "fuel = Suc f" by (cases fuel) auto
  then show ?case using Cons by (simp add: all_next_def)
qed

lemma fill_words_outside:
  assumes "unat ptr + 4 * n < 2 ^ 32" "unat x < unat ptr \<or> unat ptr + 4 * n \<le> unat x"
  shows "fill_words n ptr m x = m x"
  using assms
proof (induction n arbitrary: ptr m)
  case (Suc n)
  have p4: "unat (ptr + 4) = unat ptr + 4" using Suc.prems(1) by (simp add: unat_word_ariths)
  have "x \<noteq> ptr + of_nat i" if "i < 4" for i
    using Suc.prems that by (auto simp: unat_word_ariths unat_of_nat)
  then have "store32 m ptr v x = m x" for v by (intro store32_outside) blast
  then show ?case using Suc.IH [of "ptr + 4" "store32 m ptr 0xdeadbeef"] Suc.prems p4 by auto
qed simp

text \<open>Two blocks of a page do not overlap.\<close>

lemma blocks_apart:
  assumes "d \<in> block_offs z" "e \<in> block_offs z" "d \<noteq> e"
  shows "unat d + unat z \<le> unat e \<or> unat e + unat z \<le> unat d"
proof -
  have "unat d \<noteq> unat e" using assms(3) by (simp add: word_unat_eq_iff)
  then consider "unat d < unat e" | "unat e < unat d" by linarith
  then show ?thesis
    using assms(1,2) multiples_apart [of "unat d" "unat z" "unat e"] multiples_apart [of "unat e" "unat z" "unat d"]
    by cases (auto simp: block_offs_def)
qed

text \<open>The bytes of distinct blocks, of one page or of two, are apart.\<close>

lemma allocated_apart:
  assumes inv: "heap_inv h" and p: "p \<in> used h" "d \<in> block_offs (block_size (pagerefs h ! p))"
    and q: "q \<in> used h" "e \<in> block_offs (block_size (pagerefs h ! q))" and ne: "p \<noteq> q \<or> d \<noteq> e"
  shows "unat (PR_PAGEADDR (pagerefs h ! p) + d) + unat (block_size (pagerefs h ! p))
      \<le> unat (PR_PAGEADDR (pagerefs h ! q) + e)
    \<or> unat (PR_PAGEADDR (pagerefs h ! q) + e) + unat (block_size (pagerefs h ! q))
      \<le> unat (PR_PAGEADDR (pagerefs h ! p) + d)"
proof -
  note D = heap_invD [OF inv]
  let ?P = "unat (PR_PAGEADDR (pagerefs h ! p))" and ?Q = "unat (PR_PAGEADDR (pagerefs h ! q))"
  note sp = block_size_bounds [OF page_okD(1) [OF D(5) [OF p(1)]]]
  note sq = block_size_bounds [OF page_okD(1) [OF D(5) [OF q(1)]]]
  have dw: "unat d + unat (block_size (pagerefs h ! p)) \<le> 4096" by (rule block_within [OF sp(4) p(2)])
  have ew: "unat e + unat (block_size (pagerefs h ! q)) \<le> 4096" by (rule block_within [OF sq(4) q(2)])
  have fit: "?P + 4096 \<le> 2 ^ 32" "?Q + 4096 \<le> 2 ^ 32"
    using page_okD(3) [OF D(5) [OF p(1)]] page_okD(3) [OF D(5) [OF q(1)]] frontier_bound [OF D(1)] by simp_all
  have vp: "unat (PR_PAGEADDR (pagerefs h ! p) + d) = ?P + unat d"
    using p(2) by (intro unat_page_add [OF fit(1)]) (simp add: block_offs_def)
  have vq: "unat (PR_PAGEADDR (pagerefs h ! q) + e) = ?Q + unat e"
    using q(2) by (intro unat_page_add [OF fit(2)]) (simp add: block_offs_def)
  show ?thesis
  proof (cases "p = q")
    case True
    then show ?thesis using blocks_apart [of d _ e] p q ne vp vq by force
  next
    case False
    then have "PR_PAGEADDR (pagerefs h ! p) \<noteq> PR_PAGEADDR (pagerefs h ! q)" using D(7) p q by (auto dest: inj_onD)
    then have "?P \<noteq> ?Q" by (simp add: word_unat_eq_iff)
    then consider "?P < ?Q" | "?Q < ?P" by linarith
    then show ?thesis
    proof cases
      case 1
      then have "?P + 4096 \<le> ?Q" by (intro multiples_apart PR_PAGEADDR_aligned)
      then show ?thesis using dw vp vq by simp
    next
      case 2
      then have "?Q + 4096 \<le> ?P" by (intro multiples_apart PR_PAGEADDR_aligned)
      then show ?thesis using ew vp vq by simp
    qed
  qed
qed

text \<open>The owner of a block may write to it.\<close>

lemma heap_inv_block:
  assumes inv: "heap_inv h" and blk: "(a, z) \<in> allocated h"
    and m: "\<And>x. unat x < unat a \<or> unat a + unat z \<le> unat x \<Longrightarrow> m x = kmem h x"
  shows "heap_inv (h\<lparr>kmem := m\<rparr>)" "allocated (h\<lparr>kmem := m\<rparr>) = allocated h"
proof -
  obtain p e where p: "p \<in> used h" and a: "a = PR_PAGEADDR (pagerefs h ! p) + e" and z: "z = block_size (pagerefs h ! p)"
      and e: "e \<in> block_offs z" "e \<notin> set (free_offs h p)"
    using blk by (auto simp: allocated_def page_blocks_mem)
  have "load32 m (PR_PAGEADDR (pagerefs h ! q) + d) = load32 (kmem h) (PR_PAGEADDR (pagerefs h ! q) + d)"
    if q: "q \<in> used h" and d: "d \<in> set (free_offs h q)" for q d
  proof (rule load32_cong)
    fix i :: nat
    assume i: "i < 4"
    let ?b = "PR_PAGEADDR (pagerefs h ! q) + d"
    have dq: "d \<in> block_offs (block_size (pagerefs h ! q))"
      using page_okD(6) [OF heap_invD(5) [OF inv q]] d by auto
    note Q = page_okD [OF heap_invD(5) [OF inv q]]
    note sz = block_size_bounds [OF Q(1)]
    have w: "unat d + unat (block_size (pagerefs h ! q)) \<le> 4096" by (rule block_within [OF sz(4) dq])
    have page: "unat (PR_PAGEADDR (pagerefs h ! q)) + 4096 \<le> 2 ^ 32"
      using Q(3) frontier_bound [OF heap_invD(1) [OF inv]] by simp
    have vb: "unat ?b = unat (PR_PAGEADDR (pagerefs h ! q)) + unat d" using w sz(1) by (intro unat_page_add [OF page]) simp
    then have "unat (?b + of_nat i) = unat ?b + i" using i w sz(1) page by (simp add: unat_word_ariths unat_of_nat)
    moreover have "unat ?b + unat (block_size (pagerefs h ! q)) \<le> unat a \<or> unat a + unat z \<le> unat ?b"
      using allocated_apart [OF inv q dq p e(1) [unfolded z]] d e(2) unfolding a z by auto
    ultimately show "m (?b + of_nat i) = kmem h (?b + of_nat i)" using i sz(1) by (intro m) linarith
  qed
  then show "heap_inv (h\<lparr>kmem := m\<rparr>)" "allocated (h\<lparr>kmem := m\<rparr>) = allocated h"
    using heap_inv_free [OF inv, of m] by blast+
qed

lemma list_update_nth_if: "xs[i := v] ! j = (if i = j \<and> i < length xs then v else xs ! j)"
  by (cases "i < length xs") (simp_all add: nth_list_update list_update_beyond)

lemma put_back_spec:
  assumes inv: "heap_inv h" and p: "p \<in> used h" and r: "r = pagerefs h ! p"
    and d: "d \<in> block_offs (block_size r)" "d \<notin> set (free_offs h p)"
    and m: "m = store32 (fill_deadbeef (PR_PAGEADDR r + d) (block_size r) (kmem h)) (PR_PAGEADDR r + d) (fl_ptr r)"
    and h': "h' = h\<lparr>kmem := m, pagerefs := (pagerefs h)[p := r\<lparr>freelist_offset := ucast d, nfree := nfree r + 1\<rparr>]\<rparr>"
  shows "heap_inv h'" "allocated h' = allocated h - {(PR_PAGEADDR r + d, block_size r)}" "used h' = used h"
    "free_offs h' p = d # free_offs h p" "unat (nfree r + 1) = Suc (length (free_offs h p))"
    "\<And>x. unat x < unat (PR_PAGEADDR r + d) \<or> unat (PR_PAGEADDR r + d) + unat (block_size r) \<le> unat x \<Longrightarrow>
      m x = kmem h x"
    "Suc (length (free_offs h p)) \<le> 4096 div unat (block_size r)" "heap_pages h' = heap_pages h"
proof -
  note D = heap_invD [OF inv] and P = page_okD [OF heap_invD(5) [OF inv p], folded r]
  let ?page = "PR_PAGEADDR r" and ?z = "block_size r" and ?ds = "free_offs h p"
  let ?r = "r\<lparr>freelist_offset := ucast d, nfree := nfree r + 1\<rparr>"
  note z = block_size_bounds [OF P(1)]
  have plen: "p < length (pagerefs h)" using p D(2) by (simp add: used_def)
  have fb: "frontier h \<le> 0x80000000 + 508 * 1024 * 1024" using frontier_bound [OF D(1)] .
  have dd: "unat d < 4096" "unat d + unat ?z \<le> 4096" using d(1) block_within [OF z(4) d(1)] by (simp_all add: block_offs_def)
  have va: "unat (?page + d) = unat ?page + unat d" using P(3) fb dd by (intro unat_page_add) simp_all
  have "4 dvd unat ?z" using z(3) by (rule dvd_trans [rotated]) simp
  then have zw: "4 * unat (?z div 4) = unat ?z" by (simp add: unat_div_distrib)
  have top: "unat (?page + d) + unat ?z < 2 ^ 32" using va P(3) fb dd by simp
  show out: "m x = kmem h x" if x: "unat x < unat (?page + d) \<or> unat (?page + d) + unat ?z \<le> unat x" for x
  proof -
    have "x \<noteq> ?page + d + of_nat i" if "i < 4" for i
      using x that z(1) va P(3) fb dd by (auto simp: unat_word_ariths unat_of_nat)
    then have "m x = fill_deadbeef (?page + d) ?z (kmem h) x" unfolding m by (intro store32_outside) blast
    also have "\<dots> = kmem h x"
      unfolding fill_deadbeef_def using x top by (intro fill_words_outside) (simp_all add: zw)
    finally show ?thesis .
  qed
  have apart: "load32 m (PR_PAGEADDR (pagerefs h ! q) + e) = load32 (kmem h) (PR_PAGEADDR (pagerefs h ! q) + e)"
    if q: "q \<in> used h" "e \<in> block_offs (block_size (pagerefs h ! q))" "q \<noteq> p \<or> e \<noteq> d" for q e
  proof (rule load32_cong)
    fix i :: nat
    assume i: "i < 4"
    note Q = page_okD [OF D(5) [OF q(1)]]
    note zq = block_size_bounds [OF Q(1)]
    have ew: "unat e + unat (block_size (pagerefs h ! q)) \<le> 4096" by (rule block_within [OF zq(4) q(2)])
    then have vq: "unat (PR_PAGEADDR (pagerefs h ! q) + e) = unat (PR_PAGEADDR (pagerefs h ! q)) + unat e"
      using Q(3) fb zq(1) by (intro unat_page_add) simp_all
    have "unat (PR_PAGEADDR (pagerefs h ! q) + e + of_nat i) = unat (PR_PAGEADDR (pagerefs h ! q) + e) + i"
      using vq Q(3) fb ew zq(1) i by (simp add: unat_word_ariths unat_of_nat)
    then show "m (PR_PAGEADDR (pagerefs h ! q) + e + of_nat i) = kmem h (PR_PAGEADDR (pagerefs h ! q) + e + of_nat i)"
      using allocated_apart [OF inv p d(1) [unfolded r] q(1,2)] q(3) i z(1) zq(1) r by (intro out) auto
  qed
  have nf: "unat (nfree r) = length ?ds" by (rule P(7))
  have dist: "distinct (d # ?ds)" "set (d # ?ds) \<subseteq> block_offs ?z" using P(5,6) d by auto
  have "length (d # ?ds) = card (set (d # ?ds))" using dist(1) distinct_card by metis
  also have "\<dots> \<le> card (block_offs ?z)" using dist(2) by (intro card_mono) simp_all
  finally show len: "Suc (length ?ds) \<le> 4096 div unat ?z" using card_block_offs [OF z(4)] by simp
  also have "\<dots> \<le> 4096 div 16" using z(1) by (intro div_le_mono2) simp_all
  finally show nf1: "unat (nfree r + 1) = Suc (length ?ds)" using nf by (simp add: unat_word_ariths)
  have view: "PR_PAGEADDR ?r = ?page" "PR_BLOCKTYPE ?r = PR_BLOCKTYPE r" "block_size ?r = ?z"
    by (simp_all add: PR_PAGEADDR_def PR_BLOCKTYPE_def block_size_def)
  have fp: "fl_ptr ?r = ?page + d" using ucast_offset [OF dd(1)] view by (simp add: fl_ptr_def)
  have at: "pagerefs h' ! p = ?r" and fr: "frontier h' = frontier h"
    using plen by (simp_all add: h' frontier_def)
  have "free_list m ?page (fl_ptr r) ?ds"
    using P(4) d(2) apart [OF p] P(6) r free_list_cong [of ?ds m ?page "kmem h"] by blast
  moreover have "load32 m (?page + d) = fl_ptr r" unfolding m by simp
  moreover have "?page + d \<noteq> 0" using va P(2) by auto
  ultimately have fl: "free_list (kmem h') (PR_PAGEADDR ?r) (fl_ptr ?r) (d # ?ds)" using fp view by (simp add: h')
  have side: "unat (PR_BLOCKTYPE ?r) < NSIZES" "unat MIPS_KSEG0 < unat (PR_PAGEADDR ?r)"
      "unat (PR_PAGEADDR ?r) + 4096 \<le> frontier h'" "set (d # ?ds) \<subseteq> block_offs (block_size ?r)"
      "unat (nfree ?r) = length (d # ?ds)"
    using P(1-3) view dist(2) fr nf1 by simp_all
  note ok = page_okI [OF at [symmetric] side(1-3) fl dist(1) side(4,5)]
  show "free_offs h' p = d # ?ds" by (rule ok(2))
  have other: "load32 m (PR_PAGEADDR (pagerefs h ! q) + e) = load32 (kmem h) (PR_PAGEADDR (pagerefs h ! q) + e)"
    if "q \<in> used h" "q \<noteq> p" "e \<in> set (free_offs h q)" for q e
    using apart [OF that(1)] that page_okD(6) [OF D(5) [OF that(1)]] by blast
  note hp = heap_inv_page [OF inv p h' _ _ _ ok(1) other]
  show "heap_inv h'" "used h' = used h" by (rule hp; simp add: r)+
  then show "heap_pages h' = heap_pages h"
    unfolding heap_pages_def by (intro image_cong) (auto simp: h' r list_update_nth_if PR_PAGEADDR_def)
  have al: "allocated h' = (\<Union>q \<in> used h - {p}. page_blocks h q) \<union> page_blocks h' p" by (rule hp; simp add: r)
  have pb: "page_blocks h' p = page_blocks h p - {(?page + d, ?z)}"
    using ok(2) at view r by (auto simp: page_blocks_def Let_def)
  have "(?page + d, ?z) \<notin> page_blocks h q" if "q \<in> used h - {p}" for q
    using block_page [OF inv p, of q d] that dd(1) r by (auto simp: page_blocks_mem block_offs_def)
  then show "allocated h' = allocated h - {(?page + d, ?z)}"
    using al pb allocated_page [OF p] by auto
qed

lemma find_owner:
  assumes inv: "heap_inv h" and p: "p \<in> used h" and a: "a = PR_PAGEADDR (pagerefs h ! p) + d" and dd: "unat d < 4096"
  shows "find_page LIST_FUEL a (allbase h) h = Inr (Some p)"
proof -
  note D = heap_invD [OF inv]
  let ?page = "\<lambda>q. PR_PAGEADDR (pagerefs h ! q)"
  have fit: "unat (?page q) + 4096 < 2 ^ 32" if "q \<in> used h" for q
    using page_okD(3) [OF D(5) [OF that]] frontier_bound [OF D(1)] by simp
  have top: "unat (?page q + PAGE_SIZE) = unat (?page q) + 4096" if "q \<in> used h" for q
    using fit [OF that] by (simp add: unat_word_ariths)
  have va: "unat a = unat (?page p) + unat d"
    unfolding a using fit [OF p] dd by (intro unat_page_add) simp_all
  let ?in = "\<lambda>q. ?page q \<le> a \<and> a < ?page q + PAGE_SIZE"
  have here: "?in p" using va top [OF p] dd by (simp add: word_le_nat_alt word_less_nat_alt)
  have only: "q = p" if q: "q \<in> used h" "?in q" for q
  proof -
    have "unat (a - ?page q) = unat a - unat (?page q)" using q(2) by (simp add: unat_sub)
    then have "unat (a - ?page q) < 4096"
      using q(2) top [OF q(1)] by (simp add: word_le_nat_alt word_less_nat_alt) linarith
    moreover have "?page q + (a - ?page q) = ?page p + d" unfolding a [symmetric] by simp
    ultimately show ?thesis using block_page [OF inv q(1) p _ dd] by blast
  qed
  obtain ys where ys: "chain (all_next h) (allbase h) ys" "distinct ys" "set ys = used h"
    using D(6) by (auto simp: lists_ok_def)
  have "length ys \<le> NPAGEREFS" using distinct_card [OF ys(2)] ys(3) card_used [of h] by simp
  then have fuel: "length ys < LIST_FUEL" by (simp add: LIST_FUEL_def)
  have "\<forall>q \<in> set ys. q < length (pagerefs h) \<and> PR_BLOCKTYPE (pagerefs h ! q) < of_nat NSIZES"
    using ys(3) D(2) page_okD(1) [OF D(5)] by (auto simp: used_def word_less_nat_alt NSIZES_def)
  note fp = find_page_spec [OF ys(1) fuel this, of a]
  obtain q where q: "find ?in ys = Some q"
    using here p ys(3) by (cases "find ?in ys") (auto simp: find_None_iff)
  then have "q \<in> used h" "?in q" using ys(3) by (auto simp: find_Some_iff)
  then show ?thesis using only fp q by simp
qed

lemma subpage_kfree_spec:
  assumes inv: "heap_inv h" and blk: "(a, z) \<in> allocated h"
  shows "\<exists>h'. subpage_kfree a h = Inr (0, h') \<and> heap_inv h' \<and> allocated h' = allocated h - {(a, z)}
    \<and> kram h' = kram h \<and> heap_pages h' \<subseteq> heap_pages h
    \<and> (\<forall>x. unat x < unat a \<or> unat a + unat z \<le> unat x \<longrightarrow> kmem h' x = kmem h x)"
proof -
  note D = heap_invD [OF inv]
  obtain p d where p: "p \<in> used h" and a: "a = PR_PAGEADDR (pagerefs h ! p) + d" and z: "z = block_size (pagerefs h ! p)"
      and d: "d \<in> block_offs z" "d \<notin> set (free_offs h p)"
    using blk by (auto simp: allocated_def page_blocks_mem)
  let ?r = "pagerefs h ! p"
  note P = page_okD [OF D(5) [OF p]]
  have plen: "p < length (pagerefs h)" using p D(2) by (simp add: used_def)
  have dd: "unat d < 4096" using d(1) by (simp add: block_offs_def)
  note fp = find_owner [OF inv p a dd]
  let ?m = "store32 (fill_deadbeef (PR_PAGEADDR ?r + d) (block_size ?r) (kmem h)) (PR_PAGEADDR ?r + d) (fl_ptr ?r)"
  let ?h = "h\<lparr>kmem := ?m, pagerefs := (pagerefs h)[p := ?r\<lparr>freelist_offset := ucast d, nfree := nfree ?r + 1\<rparr>]\<rparr>"
  note B = put_back_spec [OF inv p refl d [unfolded z] refl refl]
  have dmod: "d mod block_size ?r = 0" using d(1) z by (simp add: block_offs_def word_unat_eq_iff unat_mod_distrib)
  have dlt: "\<not> PAGE_SIZE \<le> d" using dd by (simp add: word_le_nat_alt)
  have n: "unat (PAGE_SIZE div block_size ?r) = 4096 div unat (block_size ?r)" by (simp add: unat_div_distrib)
  have le: "(ucast (nfree ?r + 1) :: u32) \<le> PAGE_SIZE div block_size ?r"
    using B(5,7) n by (simp add: word_le_nat_alt)
  have full: "(ucast (nfree ?r + 1) :: u32) = PAGE_SIZE div block_size ?r \<longleftrightarrow>
      Suc (length (free_offs h p)) = 4096 div unat (block_size ?r)"
    using B(5) n by (simp add: word_unat_eq_iff)
  have m: "(if freelist_offset ?r = INVALID_OFFSET then store32 w f 0
      else store32 w f (PR_PAGEADDR ?r + ucast (freelist_offset ?r))) = store32 w f (fl_ptr ?r)" for w f
    by (simp add: fl_ptr_def)
  let ?b = "unat (PR_BLOCKTYPE ?r)"
  have kf: "subpage_kfree a h =
      (if (ucast (nfree ?r + 1) :: u32) = PAGE_SIZE div block_size ?r
       then rbind (remove_lists p ?b ?h) (\<lambda>h. rbind (freepageref p h) (\<lambda>h. Inr (0, h)))
       else Inr (0, ?h))"
    using fp plen block_size_sizes [OF P(1)] dmod dlt le a
    by (simp add: subpage_kfree_def Let_def m free_kpages_def)
  have out: "?m x = kmem h x" if "unat x < unat a \<or> unat a + unat z \<le> unat x" for x
    using B(6) [of x] that a z by simp
  show ?thesis
  proof (cases "(ucast (nfree ?r + 1) :: u32) = PAGE_SIZE div block_size ?r")
    case False
    then show ?thesis using kf B(1,2,8) out a z by simp
  next
    case True
    have sz: "unat (block_size ?r) dvd 4096" using block_size_bounds [OF P(1)] by simp
    have "set (d # free_offs h p) = block_offs (block_size ?r)"
    proof (rule card_subset_eq)
      show "set (d # free_offs h p) \<subseteq> block_offs (block_size ?r)" using P(6) d(1) z by auto
      have "distinct (d # free_offs h p)" using P(5) d(2) by simp
      then have "card (set (d # free_offs h p)) = Suc (length (free_offs h p))"
        using distinct_card by fastforce
      then show "card (set (d # free_offs h p)) = card (block_offs (block_size ?r))"
        using True full card_block_offs [OF sz] by simp
    qed simp
    moreover have at: "pagerefs ?h ! p = ?r\<lparr>freelist_offset := ucast d, nfree := nfree ?r + 1\<rparr>" using plen by simp
    ultimately have empty: "page_blocks ?h p = {}"
      using B(4) by (simp add: page_blocks_def Let_def block_size_def PR_BLOCKTYPE_def)
    have b: "?b = unat (PR_BLOCKTYPE (pagerefs ?h ! p))" unfolding at by (simp add: PR_BLOCKTYPE_def)
    obtain h1 h' where "remove_lists p ?b ?h = Inr h1" "freepageref p h1 = Inr h'" "heap_inv h'"
        "allocated h' = allocated ?h" "kmem h' = kmem ?h" "kram h' = kram ?h" "heap_pages h' \<subseteq> heap_pages ?h"
      using remove_page_spec [OF B(1) _ empty b] B(3) p by blast
    then show ?thesis using True kf B(2,8) out a z by simp
  qed
qed

lemma heap_pages_grows:
  assumes "h' = h\<lparr>kram := kram h'\<rparr>"
  shows "heap_pages h' = heap_pages h"
proof -
  have "pagerefs h' = pagerefs h" "pagerefs_inuse h' = pagerefs_inuse h" by (subst assms, simp)+
  then show ?thesis using used_cong [of h' h] by (simp add: heap_pages_def)
qed

lemma heap_pages_mem: "heap_pages (h\<lparr>kmem := m\<rparr>) = heap_pages h"
  using used_cong [of "h\<lparr>kmem := m\<rparr>" h] by (simp add: heap_pages_def)

text \<open>A page that is not one of the heap's was allocated whole; it is never reused.\<close>

lemma kfree_large:
  assumes inv: "heap_inv h" and a: "unat a mod 4096 = 0" "a \<notin> heap_pages h"
  shows "kfree a h = Inr h"
proof -
  note D = heap_invD [OF inv]
  obtain ys where ys: "chain (all_next h) (allbase h) ys" "distinct ys" "set ys = used h"
    using D(6) by (auto simp: lists_ok_def)
  have "length ys \<le> NPAGEREFS" using distinct_card [OF ys(2)] ys(3) card_used [of h] by simp
  then have fuel: "length ys < LIST_FUEL" by (simp add: LIST_FUEL_def)
  have "\<forall>q \<in> set ys. q < length (pagerefs h) \<and> PR_BLOCKTYPE (pagerefs h ! q) < of_nat NSIZES"
    using ys(3) D(2) page_okD(1) [OF D(5)] by (auto simp: used_def word_less_nat_alt NSIZES_def)
  note fp = find_page_spec [OF ys(1) fuel this, of a]
  have "\<not> (PR_PAGEADDR (pagerefs h ! q) \<le> a \<and> a < PR_PAGEADDR (pagerefs h ! q) + PAGE_SIZE)" if q: "q \<in> used h" for q
  proof
    let ?P = "PR_PAGEADDR (pagerefs h ! q)"
    assume le: "?P \<le> a \<and> a < ?P + PAGE_SIZE"
    have "unat (?P + PAGE_SIZE) = unat ?P + 4096"
      using page_okD(3) [OF D(5) [OF q]] frontier_bound [OF D(1)] by (simp add: unat_word_ariths)
    then have b: "unat ?P \<le> unat a" "unat a < unat ?P + 4096" using le by (simp_all add: word_le_nat_alt word_less_nat_alt)
    have "unat ?P = unat a"
      using multiples_apart [OF PR_PAGEADDR_aligned a(1), of "pagerefs h ! q"] b by linarith
    then have "a = ?P" by (simp add: word_unat_eq_iff)
    then show False using a(2) q by (auto simp: heap_pages_def)
  qed
  then have "find (\<lambda>q. PR_PAGEADDR (pagerefs h ! q) \<le> a \<and> a < PR_PAGEADDR (pagerefs h ! q) + PAGE_SIZE) ys = None"
    using ys(3) by (auto simp: find_None_iff)
  then have "subpage_kfree a h = Inr (-1, h)" using fp by (simp add: subpage_kfree_def)
  moreover have "a mod PAGE_SIZE = 0" using a(1) by (simp add: word_unat_eq_iff unat_mod_distrib)
  ultimately show ?thesis by (simp add: kfree_def free_kpages_def)
qed

text \<open>Every block lies within a page of the heap.\<close>

lemma allocated_in_page:
  assumes inv: "heap_inv h" and blk: "(a, z) \<in> allocated h"
  shows "\<exists>P \<in> heap_pages h. unat P \<le> unat a \<and> unat a + unat z \<le> unat P + 4096 \<and> 0 < unat z \<and> unat P mod 4096 = 0"
proof -
  obtain p d where p: "p \<in> used h" and a: "a = PR_PAGEADDR (pagerefs h ! p) + d" and z: "z = block_size (pagerefs h ! p)"
      and d: "d \<in> block_offs z"
    using blk by (auto simp: allocated_def page_blocks_mem)
  note P = page_okD [OF heap_invD(5) [OF inv p]]
  note sz = block_size_bounds [OF P(1), folded z]
  have w: "unat d + unat z \<le> 4096" by (rule block_within [OF sz(4) d])
  have "unat a = unat (PR_PAGEADDR (pagerefs h ! p)) + unat d"
    unfolding a using P(3) frontier_bound [OF heap_invD(1) [OF inv]] w sz(1) by (intro unat_page_add) simp_all
  then show ?thesis
    using w sz(1) p PR_PAGEADDR_aligned [of "pagerefs h ! p"] by (intro bexI [of _ "PR_PAGEADDR (pagerefs h ! p)"]) (auto simp: heap_pages_def)
qed

section \<open>The heap as an allocator\<close>

lemma kmalloc_spec:
  assumes inv: "heap_inv h" and sz: "unat sz < 2048"
  shows "\<exists>a h'. kmalloc sz h = Inr (a, h') \<and> heap_inv h' \<and> new_pages h h' \<and>
    (gained sz h a h' \<or> a = 0 \<and> allocated h' = allocated h
      \<and> (used h = {..<NPAGEREFS} \<or> unat (lastpaddr (kram h)) < unat (firstpaddr (kram h)) + 4096))"
  using subpage_kmalloc_spec [OF inv, of sz] sz
  by (simp add: kmalloc_def LARGEST_SUBPAGE_SIZE_def word_le_nat_alt)

lemma kfree_spec:
  assumes inv: "heap_inv h" and blk: "(a, z) \<in> allocated h"
  shows "\<exists>h'. kfree a h = Inr h' \<and> heap_inv h' \<and> allocated h' = allocated h - {(a, z)}
    \<and> kram h' = kram h \<and> heap_pages h' \<subseteq> heap_pages h
    \<and> (\<forall>x. unat x < unat a \<or> unat a + unat z \<le> unat x \<longrightarrow> kmem h' x = kmem h x)"
proof -
  obtain p d where p: "p \<in> used h" and a: "a = PR_PAGEADDR (pagerefs h ! p) + d" "unat d < 4096"
    using blk by (auto simp: allocated_def page_blocks_mem block_offs_def)
  note P = page_okD [OF heap_invD(5) [OF inv p]]
  have "unat a = unat (PR_PAGEADDR (pagerefs h ! p)) + unat d"
    unfolding a(1) using P(3) frontier_bound [OF heap_invD(1) [OF inv]] a(2) by (intro unat_page_add) simp_all
  then have "a \<noteq> 0" using P(2) by auto
  then show ?thesis using subpage_kfree_spec [OF inv blk] by (auto simp: kfree_def)
qed

lemma allocated_disjoint:
  assumes inv: "heap_inv h" and "(a, y) \<in> allocated h" "(b, z) \<in> allocated h" "(a, y) \<noteq> (b, z)"
  shows "unat a + unat y \<le> unat b \<or> unat b + unat z \<le> unat a"
proof -
  obtain p d q e where "p \<in> used h" "a = PR_PAGEADDR (pagerefs h ! p) + d" "y = block_size (pagerefs h ! p)"
      "d \<in> block_offs y" "q \<in> used h" "b = PR_PAGEADDR (pagerefs h ! q) + e" "z = block_size (pagerefs h ! q)"
      "e \<in> block_offs z"
    using assms(2,3) by (auto simp: allocated_def page_blocks_mem)
  then show ?thesis using allocated_apart [OF inv, of p d q e] assms(4) by auto
qed

text \<open>
  The interface its clients rely on. \<open>blocks\<close> is the set of blocks handed out, as address and
  size.
\<close>

locale allocator =
  fixes alloc :: "u32 \<Rightarrow> 'h \<Rightarrow> (u32 \<times> 'h) res"
    and release :: "u32 \<Rightarrow> 'h \<Rightarrow> 'h res"
    and inv :: "'h \<Rightarrow> bool"
    and blocks :: "'h \<Rightarrow> (u32 \<times> u32) set"
    and fits :: "u32 \<Rightarrow> bool"
  assumes alloc_total: "inv h \<Longrightarrow> fits sz \<Longrightarrow> \<exists>a h'. alloc sz h = Inr (a, h') \<and> inv h' \<and>
      (a = 0 \<and> blocks h' = blocks h
       \<or> a \<noteq> 0 \<and> (\<exists>z. unat sz \<le> unat z \<and> (a, z) \<notin> blocks h \<and> blocks h' = insert (a, z) (blocks h)))"
    and release_total: "inv h \<Longrightarrow> (a, z) \<in> blocks h \<Longrightarrow>
      \<exists>h'. release a h = Inr h' \<and> inv h' \<and> blocks h' = blocks h - {(a, z)}"
    and blocks_disjoint: "inv h \<Longrightarrow> (a, y) \<in> blocks h \<Longrightarrow> (b, z) \<in> blocks h \<Longrightarrow> (a, y) \<noteq> (b, z) \<Longrightarrow>
      unat a + unat y \<le> unat b \<or> unat b + unat z \<le> unat a"
begin

lemma alloc_release:
  assumes "inv h" "fits sz" "alloc sz h = Inr (a, h')" "a \<noteq> 0"
  shows "\<exists>h''. release a h' = Inr h'' \<and> inv h'' \<and> blocks h'' = blocks h"
proof -
  obtain z where z: "inv h'" "(a, z) \<notin> blocks h" "blocks h' = insert (a, z) (blocks h)"
    using alloc_total [OF assms(1,2)] assms(3,4) by auto
  then obtain h'' where "release a h' = Inr h''" "inv h''" "blocks h'' = blocks h' - {(a, z)}"
    using release_total [OF z(1), of a z] by auto
  then show ?thesis using z by auto
qed

end

interpretation kheap: allocator kmalloc kfree heap_inv allocated "\<lambda>sz. unat sz < 2048"
proof unfold_locales
  fix h and sz :: u32
  assume "heap_inv h" "unat sz < 2048"
  then show "\<exists>a h'. kmalloc sz h = Inr (a, h') \<and> heap_inv h' \<and>
      (a = 0 \<and> allocated h' = allocated h
       \<or> a \<noteq> 0 \<and> (\<exists>z. unat sz \<le> unat z \<and> (a, z) \<notin> allocated h \<and> allocated h' = insert (a, z) (allocated h)))"
    using kmalloc_spec [of h sz] by (fastforce simp: gained_def)
next
  fix h a z
  assume "heap_inv h" "(a, z) \<in> allocated h"
  then show "\<exists>h'. kfree a h = Inr h' \<and> heap_inv h' \<and> allocated h' = allocated h - {(a, z)}"
    using kfree_spec by blast
qed (rule allocated_disjoint)

section \<open>From boot on\<close>

text \<open>The static data of the heap is zero when the kernel starts.\<close>

definition heap_boot :: "ram \<Rightarrow> mem \<Rightarrow> kheap" where
  "heap_boot r m = \<lparr>kram = r, kmem = m,
     pagerefs = replicate NPAGEREFS \<lparr>next_samesize = None, next_all = None,
       pageaddr_and_blocktype = 0, freelist_offset = 0, nfree = 0\<rparr>,
     pagerefs_inuse = replicate INUSE_WORDS 0, sizebases = replicate NSIZES None, allbase = None\<rparr>"

lemma heap_boot_used: "used (heap_boot r m) = {}"
  by (auto simp: used_def heap_boot_def NPAGEREFS_def INUSE_WORDS_def)

lemma heap_boot_inv:
  assumes "ram_wf r"
  shows "heap_inv (heap_boot r m)" "allocated (heap_boot r m) = {}"
proof -
  note u = heap_boot_used [of r m]
  have "lists_ok (heap_boot r m)"
    unfolding lists_ok_def
    by (intro conjI allI impI exI [of _ "[]"]) (use u in \<open>simp_all add: heap_boot_def\<close>)
  then show "heap_inv (heap_boot r m)" using assms u by (simp add: heap_inv_def) (simp add: heap_boot_def)
  show "allocated (heap_boot r m) = {}" by (simp add: allocated_def u)
qed

text \<open>Sequences of calls: any small allocation, and the release of a block that is held.\<close>

inductive heap_calls :: "kheap \<Rightarrow> kheap \<Rightarrow> bool" where
  calls_none: "heap_calls h h"
| calls_kmalloc: "heap_calls h h' \<Longrightarrow> unat sz < 2048 \<Longrightarrow> kmalloc sz h' = Inr (a, h'') \<Longrightarrow> heap_calls h h''"
| calls_kfree: "heap_calls h h' \<Longrightarrow> (a, z) \<in> allocated h' \<Longrightarrow> kfree a h' = Inr h'' \<Longrightarrow> heap_calls h h''"

lemma heap_calls_inv: "heap_calls h h' \<Longrightarrow> heap_inv h \<Longrightarrow> heap_inv h'"
proof (induction rule: heap_calls.induct)
  case (calls_kmalloc h h' sz a h'')
  then show ?case using kheap.alloc_total [of h' sz] by auto
next
  case (calls_kfree h h' a z h'')
  then show ?case using kheap.release_total [of h' a z] by auto
qed

text \<open>A small machine: one megabyte, of which the first 64 pages hold the kernel.\<close>

definition small_ram :: ram where
  "small_ram = \<lparr>firstpaddr = 0x40000, lastpaddr = 0x100000\<rparr>"

lemma small_ram_wf: "ram_wf small_ram"
  by (simp add: small_ram_def ram_wf_def)

lemma kmalloc_gets:
  assumes inv: "heap_inv h" and sz: "unat sz < 2048" and room: "card (used h) < NPAGEREFS"
    "unat (firstpaddr (kram h)) + 4096 \<le> unat (lastpaddr (kram h))"
  obtains a h' where "kmalloc sz h = Inr (a, h')" "heap_inv h'" "new_pages h h'" "gained sz h a h'"
proof -
  obtain a h' where k: "kmalloc sz h = Inr (a, h')" "heap_inv h'" "new_pages h h'"
      and c: "gained sz h a h' \<or> a = 0 \<and> allocated h' = allocated h
        \<and> (used h = {..<NPAGEREFS} \<or> unat (lastpaddr (kram h)) < unat (firstpaddr (kram h)) + 4096)"
    using kmalloc_spec [OF inv sz] by blast
  have "used h \<noteq> {..<NPAGEREFS}"
  proof
    assume "used h = {..<NPAGEREFS}"
    then have "card (used h) = NPAGEREFS" by (simp only: card_lessThan)
    then show False using room(1) by (simp only: less_irrefl)
  qed
  then have "gained sz h a h'" using c room(2) by linarith
  then show thesis by (rule that [OF k])
qed

lemma two_blocks:
  "\<exists>a y b z h h'. kmalloc 2000 (heap_boot small_ram (\<lambda>_. 0)) = Inr (a, h) \<and> a \<noteq> 0 \<and> heap_inv h
    \<and> allocated h = {(a, y)} \<and> kmalloc 2000 h = Inr (b, h') \<and> (b, z) \<noteq> (a, y)
    \<and> allocated h' = {(b, z), (a, y)}"
proof -
  let ?h0 = "heap_boot small_ram (\<lambda>_. 0)"
  note boot = heap_boot_inv [OF small_ram_wf, of "\<lambda>_. 0"]
  have r0: "kram ?h0 = small_ram" "card (used ?h0) = 0" using heap_boot_used by (simp_all add: heap_boot_def)
  obtain a h where k1: "kmalloc 2000 ?h0 = Inr (a, h)" "heap_inv h" and n1: "new_pages ?h0 h"
      and c1: "gained 2000 ?h0 a h"
    by (rule kmalloc_gets [OF boot(1), of 2000]) (use r0 in \<open>simp_all add: small_ram_def NPAGEREFS_def\<close>)
  obtain b h' where k2: "kmalloc 2000 h = Inr (b, h')" and c2: "gained 2000 h b h'"
    by (rule kmalloc_gets [OF k1(2), of 2000])
      (use n1 r0 in \<open>simp_all add: new_pages_def small_ram_def NPAGEREFS_def\<close>)
  obtain y where y: "allocated h = insert (a, y) (allocated ?h0)" "a \<noteq> 0" using c1 unfolding gained_def by blast
  obtain z where z: "(b, z) \<notin> allocated h" "allocated h' = insert (b, z) (allocated h)"
    using c2 unfolding gained_def by blast
  have "allocated h = {(a, y)}" "allocated h' = {(b, z), (a, y)}" "(b, z) \<noteq> (a, y)"
    using y z boot(2) by simp_all
  then show ?thesis using k1 k2 y(2) by blast
qed

lemma one_block:
  "\<exists>a z h. kmalloc 2000 (heap_boot small_ram (\<lambda>_. 0)) = Inr (a, h) \<and> a \<noteq> 0 \<and> heap_inv h
    \<and> allocated h = {(a, z)}"
  using two_blocks by blast

section \<open>Properties\<close>

text \<open>
  C3: On a heap that satisfies its invariant a subpage allocation always returns. It returns
  either null, with the blocks unchanged, and then the pageref table or physical memory is
  exhausted, or a block of at least the size asked for that was not in use and overlaps no block
  in use. The invariant holds again.
\<close>

theorem kmalloc_correct:
  assumes "heap_inv h" "unat sz < 2048"
  shows "\<exists>a h'. kmalloc sz h = Inr (a, h') \<and> heap_inv h' \<and>
    (if a = 0
     then allocated h' = allocated h
       \<and> (used h = {..<NPAGEREFS} \<or> unat (lastpaddr (kram h)) < unat (firstpaddr (kram h)) + 4096)
     else \<exists>z. unat sz \<le> unat z \<and> (a, z) \<notin> allocated h \<and> allocated h' = insert (a, z) (allocated h)
       \<and> (\<forall>(b, y) \<in> allocated h. unat a + unat z \<le> unat b \<or> unat b + unat y \<le> unat a))"
proof -
  obtain a h' where k: "kmalloc sz h = Inr (a, h')" "heap_inv h'"
      and cases: "gained sz h a h' \<or> a = 0 \<and> allocated h' = allocated h
        \<and> (used h = {..<NPAGEREFS} \<or> unat (lastpaddr (kram h)) < unat (firstpaddr (kram h)) + 4096)"
    using kmalloc_spec [OF assms] by blast
  show ?thesis
  proof (cases "a = 0")
    case True
    then show ?thesis using k cases by (auto simp: gained_def)
  next
    case False
    then obtain z where z: "unat sz \<le> unat z" "(a, z) \<notin> allocated h" "allocated h' = insert (a, z) (allocated h)"
      using cases by (auto simp: gained_def)
    have "unat a + unat z \<le> unat b \<or> unat b + unat y \<le> unat a" if "(b, y) \<in> allocated h" for b y
      using kheap.blocks_disjoint [OF k(2), of a z b y] z that by auto
    then show ?thesis using k z False by auto
  qed
qed

theorem kmalloc_correct_witness:
  "\<exists>a h'. kmalloc 100 (heap_boot small_ram (\<lambda>_. 0)) = Inr (a, h') \<and> heap_inv h'"
  using kmalloc_correct [of "heap_boot small_ram (\<lambda>_. 0)" 100] heap_boot_inv [OF small_ram_wf] by auto

text \<open>
  C9: Releasing a block that is in use always returns, takes exactly that block out of the set
  of blocks in use, keeps the invariant, and changes no byte outside the block, so the
  contents of all other blocks survive.
\<close>

theorem kfree_correct:
  assumes "heap_inv h" "(a, z) \<in> allocated h"
  shows "\<exists>h'. kfree a h = Inr h' \<and> heap_inv h' \<and> allocated h' = allocated h - {(a, z)}
    \<and> (\<forall>x. unat x < unat a \<or> unat a + unat z \<le> unat x \<longrightarrow> kmem h' x = kmem h x)"
  using kfree_spec [OF assms] by blast

theorem kfree_correct_witness:
  "\<exists>a z h h'. (a, z) \<in> allocated h \<and> kfree a h = Inr h' \<and> heap_inv h' \<and> allocated h' = {}"
proof -
  obtain a z h where h: "heap_inv h" "allocated h = {(a, z)}" using one_block by blast
  then show ?thesis using kfree_correct [OF h(1), of a z] by auto
qed





end
