(* ===== verification/VmFault.thy ===== *)
theory VmFault
  imports Fault KHeap
begin

unbundle bit_operations_syntax

text \<open>
  The fault handler \<open>vm_fault\<close> of \<open>kern/vm/addrspace.c\<close> on a whole system state: page tables and
  frames, the kernel heap, the TLB and the swap table. \<open>sys_inv\<close> is the invariant of that state.
\<close>

section \<open>The invariant of the system\<close>

text \<open>No page of the kernel heap is a frame of the pool.\<close>

definition heap_apart :: "vm \<Rightarrow> bool" where
  "heap_apart s \<longleftrightarrow> (\<forall>a \<in> heap_pages (kh s).
     unat a + 4096 \<le> 0x80000000 + unat (physical_base_addr s)
     \<or> 0x80000000 + unat (physical_base_addr s) + MAX_PM_SIZE * 4096 \<le> unat a)"

definition all_ready :: "vm \<Rightarrow> bool" where
  "all_ready s \<longleftrightarrow>
     (\<forall>i < MAX_PM_SIZE. valid_bit (pft s ! i) \<longrightarrow> swap_ready s (virtual_addr (pft s ! i)))"

definition sys_inv :: "u32 \<Rightarrow> vm \<Rightarrow> bool" where
  "sys_inv asp s \<longleftrightarrow> vm_inv {} s \<and> heap_inv (kh s) \<and> heap_apart s \<and> all_ready s \<and> swap_wf s
     \<and> tlb_wf (ts s) \<and> tlb_coherent asp s"

lemma add_page_entry_heap:
  assumes "add_page_entry asp va pa s = Inr (r, s')"
  shows "kh s' = (kh s)\<lparr>kram := kram (kh s')\<rparr>"
proof -
  have "kmalloc sizeof_page_table_level2 h = Inr (alloc_kpages 2 h)" for h
    by (simp add: kmalloc_def sizeof_page_table_level2_def LARGEST_SUBPAGE_SIZE_def PAGE_SIZE_def)
  then show ?thesis
    using assms
    by (auto simp: add_page_entry_def new_level2_def vm_kmalloc_def alloc_kpages_def getppages_def Let_def
        res_simps split: if_splits prod.splits)
qed

text \<open>Reading a page into a frame leaves the heap alone.\<close>

lemma frame_write_heap:
  assumes inv: "vm_inv H s" and heap: "heap_inv h" and i: "i < MAX_PM_SIZE"
    and apart: "\<And>a. a \<in> heap_pages h \<Longrightarrow> unat a + 4096 \<le> 0x80000000 + unat (physical_base_addr s)
       \<or> 0x80000000 + unat (physical_base_addr s) + MAX_PM_SIZE * 4096 \<le> unat a"
  shows "heap_inv (h\<lparr>kmem := copy_block (frame_kva (frame_addr s i)) (kmem h) off m PAGE_SIZE\<rparr>)"
proof (rule heap_inv_mem(1) [OF heap])
  fix a x :: u32
  assume a: "a \<in> heap_pages h" "unat a \<le> unat x" "unat x < unat a + 4096"
  have pool: "pool_ok s" using vm_inv_pool [OF inv] .
  note f = unat_frame_kva [OF pool i]
  have b: "unat (physical_base_addr s) + 30 * 4096 \<le> 508 * 1024 * 1024" "i < 30"
    using pool i by (simp_all add: pool_ok_def MAX_PM_SIZE_def)
  have "\<not> in_block (frame_kva (frame_addr s i)) PAGE_SIZE x"
    using apart [OF a(1)] a(2,3) f b
    by (subst in_block_iff) (auto simp: PAGE_SIZE_def MAX_PM_SIZE_def)
  then show "copy_block (frame_kva (frame_addr s i)) (kmem h) off m PAGE_SIZE x = kmem h x"
    by (simp add: copy_block_outside)
qed

section \<open>Making the page resident\<close>

lemma brought_in_sys:
  assumes inv: "vm_inv {} s" and heap: "heap_inv (kh s)" and apart: "heap_apart s" and ready: "all_ready s"
    and swf: "swap_wf s" and slot: "swap_ready s va" and br: "brought_in asp va i s s'"
  shows "heap_inv (kh s')" "heap_apart s'" "all_ready s'" "swap_wf s'"
proof -
  obtain s1 s2 off where got: "took_free i s s1 \<or> evicted i s s1"
      and add: "add_page_entry asp va (frame_addr s i) s1 = Inr (0, s2)"
      and s': "s' = s2\<lparr>ts := snd (insert_tlb_entry va (frame_addr s i) (ts s1)),
                  kh := (kh s2)\<lparr>kmem := copy_block (frame_kva (frame_addr s i)) (kmem (kh s2))
                          off (swap_disk s1) PAGE_SIZE\<rparr>\<rparr>"
      and t: "tables_only s1 s2"
    using br unfolding brought_in_def by blast
  note g = took_or_evicted [OF got]
  have base: "physical_base_addr s2 = physical_base_addr s" "swapspace s2 = swapspace s"
      "swap_result s2 = swap_result s"
    using t g(3) by (simp_all add: tables_only_def rest_same_def)
  have k2: "kh s2 = (kh s1)\<lparr>kram := kram (kh s2)\<rparr>" by (rule add_page_entry_heap [OF add])
  have h2: "heap_inv (kh s2)" using heap_inv_grows(1) [OF _ _ k2] heap g(5) t by (simp add: tables_only_def)
  have p2: "heap_pages (kh s2) = heap_pages (kh s)" using heap_pages_grows [OF k2] g(5) by simp
  show "heap_inv (kh s')"
    using frame_write_heap [OF inv h2 g(1)] apart p2 by (simp add: s' heap_apart_def)
  show "heap_apart s'" using apart p2 base by (simp add: s' heap_apart_def heap_pages_mem)
  show "swap_wf s'" using swf base by (simp add: s' swap_wf_def)
  have pool1: "pool_ok s1" "tabs_wf s1" using g(2) vm_inv_pool vm_inv_tabs by auto
  obtain a where a: "spaces s1 asp = Some a" using add by (auto simp: add_page_entry_def res_simps)
  have fa: "frame_addr s1 i = frame_addr s i" using rest_same_frame_addr [OF g(3)] .
  have pft2: "pft s2 = (pft s1)[i := (new_entry va (frame_addr s1 i) (pft s1 ! i))\<lparr>p_space := asp\<rparr>]"
    by (rule add_page_entry_spec [OF pool1(2,1) g(1) a add [folded fa]]) blast
  have len: "i < length (pft s1)" using pool1 g(1) by (simp add: pool_ok_def)
  have "swap_ready s (virtual_addr (pft s2 ! j))" if j: "j < MAX_PM_SIZE" "valid_bit (pft s2 ! j)" for j
  proof (cases "j = i")
    case True
    then show ?thesis using slot pft2 len by (simp add: new_entry_def)
  next
    case False
    then have j1: "pft s2 ! j = pft s1 ! j" using pft2 by simp
    have "valid_bit (pft s ! j) \<and> virtual_addr (pft s ! j) = virtual_addr (pft s1 ! j)"
      using got
    proof
      assume "took_free i s s1"
      then show ?thesis using False j j1 by (simp add: took_free_def)
    next
      assume "evicted i s s1"
      then have "map no_ref (pft s1) = map no_ref (pft s)" by (simp add: evicted_def Let_def)
      moreover have "j < length (pft s1)" using pool1 j(1) by (simp add: pool_ok_def)
      ultimately have "no_ref (pft s1 ! j) = no_ref (pft s ! j)"
        by (metis length_map nth_map)
      then show ?thesis using j(2) j1 no_ref_eqD by metis
    qed
    then show ?thesis using ready j(1) j1 by (metis all_ready_def)
  qed
  then show "all_ready s'" using base by (simp add: s' all_ready_def swap_ready_def)
qed

section \<open>The translation\<close>

lemma probe_from_vpage: "vpage va = vpage vb \<Longrightarrow> probe_from i va es = probe_from i vb es"
  by (induction i va es rule: probe_from.induct) (auto simp: vpage_def)

lemma same_page_user:
  assumes "user_addr va" "vpage vb = vpage va"
  shows "user_addr vb"
proof -
  have "unat vb div 4096 * 4096 = unat va div 4096 * 4096" using assms(2) unat_vpage by metis
  moreover have "unat va < 0x80000000" using assms(1) by (simp add: user_addr_def MIPS_KSEG0_def word_less_nat_alt)
  ultimately have "unat vb div 4096 < 0x80000" by (simp add: div_less_iff_less_mult)
  then have "unat vb < 0x80000000" by (simp add: div_less_iff_less_mult)
  then show ?thesis by (simp add: user_addr_def MIPS_KSEG0_def word_less_nat_alt)
qed

lemma frame_of_page_aligned:
  assumes inv: "vm_inv H s" and e: "pte_of s asp va = Some e"
  shows "physical_addr e AND PAGE_FRAME = physical_addr e"
proof -
  obtain i where "i < MAX_PM_SIZE" "physical_addr e = frame_addr s i"
    using vm_inv_owns [OF inv e] by (auto simp: owns_def)
  then show ?thesis using frame_addr_aligned [OF vm_inv_pool [OF inv]] by simp
qed

text \<open>A hit above slot 0 is the translation that the page tables give.\<close>

lemma coherent_hit:
  assumes inv: "vm_inv {} s" and wf: "tlb_wf (ts s)" and co: "tlb_coherent asp s" and user: "user_addr va"
    and hit: "tlb_probe va (ts s) = int k" and k: "0 < k"
  shows "\<exists>e. pte_of s asp va = Some e \<and> tlb_lookup (ts s) va = Some (physical_addr e)"
proof -
  have at: "k < NUM_TLB" "vpage (entryhi (tlb (ts s) ! k)) = vpage va"
    using hit tlb_probe_hit [OF wf] by auto
  have "slot_coherent asp s (tlb (ts s) ! k)" using co k at(1) by (simp add: tlb_coherent_def)
  then obtain e where e: "pte_of s asp va = Some e" "entrylo (tlb (ts s) ! k) = tlb_elo (physical_addr e)"
    using same_page_user [OF user at(2)] pte_of_vpage [OF at(2)] by (auto simp: slot_coherent_def)
  then show ?thesis
    using tlb_lookup_hit [OF wf at] tlb_elo_ppage [OF frame_of_page_aligned [OF inv e(1)]] by simp
qed

lemma tlb_invalidate_miss:
  assumes wf: "tlb_wf t" and miss: "tlb_probe va t = -1" and user: "user_addr va"
  shows "tlb_probe va (tlb_invalidate vb t) = -1"
proof -
  have old: "vpage (entryhi (tlb t ! k)) \<noteq> vpage va" if "k < NUM_TLB" for k
    using miss that tlb_probe_miss_nth [OF wf] by blast
  have "vpage (entryhi (tlb (tlb_invalidate vb t) ! k)) \<noteq> vpage va" if k: "k < NUM_TLB" for k
  proof (cases rule: tlb_probe_cases [of vb t])
    case miss
    then show ?thesis using old [OF k] by (simp add: tlb_invalidate_def)
  next
    case (hit j)
    then show ?thesis
      using old [OF k] user_vpage_not_invalid [OF user k] tlb_invalidate_slot [OF wf hit _ k]
      by (cases "j = 0") (auto simp: tlb_invalidate_def)
  qed
  then show ?thesis using tlb_probe_miss_nth [OF tlb_invalidate_wf [OF wf]] by blast
qed

text \<open>The TLB has the translation of the page, or none.\<close>

definition translates :: "tlb_state \<Rightarrow> u32 \<Rightarrow> u32 \<Rightarrow> bool" where
  "translates t va pa \<longleftrightarrow> tlb_probe va t = -1 \<or> tlb_lookup t va = Some pa"

lemma translates_insert:
  assumes "tlb_wf t" "user_addr va" "pa AND PAGE_FRAME = pa" "translates t va pa"
  shows "tlb_lookup (snd (insert_tlb_entry va pa t)) va = Some pa"
proof (cases rule: tlb_probe_cases [of va t])
  case miss
  then show ?thesis using insert_tlb_entry_lookup [OF assms(1,2) _ assms(3)] by blast
next
  case (hit k)
  then show ?thesis using assms(4) by (simp add: translates_def insert_tlb_entry_hit)
qed

lemma resident_translates:
  assumes inv: "vm_inv {} s" and wf: "tlb_wf (ts s)" and co: "tlb_coherent asp s" and user: "user_addr va"
    and "tlb_probe va (ts s) \<noteq> 0" and e: "pte_of s asp va = Some e"
  shows "translates (ts s) va (physical_addr e)"
proof (cases rule: tlb_probe_cases [of va "ts s"])
  case (hit k)
  then show ?thesis using coherent_hit [OF inv wf co user hit] assms(5) e by (auto simp: translates_def)
qed (simp add: translates_def)

lemma brought_in_translates:
  assumes inv: "vm_inv {} s" and wf: "tlb_wf (ts s)" and co: "tlb_coherent asp s" and user: "user_addr va"
    and "tlb_probe va (ts s) \<noteq> 0" and absent: "pte_of s asp va = None" and br: "brought_in asp va i s s'"
  shows "translates (ts s') va (frame_addr s i)"
proof -
  obtain s1 where got: "took_free i s s1 \<or> evicted i s s1"
      and ts': "ts s' = snd (insert_tlb_entry va (frame_addr s i) (ts s1))"
    using br unfolding brought_in_def by force
  have miss: "tlb_probe va (ts s) = -1"
  proof (cases rule: tlb_probe_cases [of va "ts s"])
    case (hit k)
    then show ?thesis using coherent_hit [OF inv wf co user hit] assms(5) absent by auto
  qed
  have "tlb_wf (ts s1) \<and> tlb_probe va (ts s1) = -1"
    using got
  proof
    assume "took_free i s s1"
    then show ?thesis using wf miss by (simp add: took_free_def)
  next
    assume "evicted i s s1"
    then show ?thesis
      using tlb_invalidate_miss [OF wf miss user] tlb_invalidate_wf [OF wf] by (simp add: evicted_def Let_def)
  qed
  moreover have "frame_addr s i AND PAGE_FRAME = frame_addr s i"
    using frame_addr_aligned [OF vm_inv_pool [OF inv]] took_or_evicted(1) [OF got] by simp
  ultimately show ?thesis
    using insert_tlb_entry_lookup user ts' by (simp add: translates_def)
qed

section \<open>The page after the fault\<close>

lemma mark_sys:
  assumes sys: "sys_inv asp s" and m: "marked asp va ft s s'"
  shows "sys_inv asp s'"
proof -
  have inv: "vm_inv {} s" using sys by (simp add: sys_inv_def)
  obtain e i where e: "pte_of s asp va = Some e" "i < MAX_PM_SIZE" "vm_inv {} s'" "kh s' = kh s" "ts s' = ts s"
      "rest_same s s'" "pft s' = (pft s)[i := (pft s ! i)\<lparr>ref_bit := True\<rparr>]"
      and pte: "\<And>x vb. pte_of s' x vb =
        (if x = asp \<and> vpage vb = vpage va then Some (mark_entry ft e) else pte_of s x vb)"
    using m unfolding marked_def by blast
  have "i < length (pft s)" using vm_inv_pool [OF inv] e(2) by (simp add: pool_ok_def)
  then have f: "valid_bit (pft s' ! j) = valid_bit (pft s ! j)" "virtual_addr (pft s' ! j) = virtual_addr (pft s ! j)" for j
    using e(7) by (cases "j = i"; simp)+
  have "tlb_coherent asp s'"
  proof (rule tlb_coherent_mono [OF _ e(5)])
    show "tlb_coherent asp s" using sys by (simp add: sys_inv_def)
    show "\<exists>e'. pte_of s' asp vb = Some e' \<and> physical_addr e' = physical_addr d" if "pte_of s asp vb = Some d" for vb d
      using that pte [of asp vb] e(1) pte_of_vpage [of vb va s asp] by auto
  qed
  moreover have "all_ready s'"
    using sys f e(6) by (simp add: sys_inv_def all_ready_def swap_ready_def rest_same_def)
  moreover have "heap_apart s'" "swap_wf s'"
    using sys e(4,6) by (simp_all add: sys_inv_def heap_apart_def swap_wf_def rest_same_def)
  ultimately show ?thesis using sys e by (simp add: sys_inv_def)
qed

lemma mark_page_byte:
  assumes m: "marked asp va ft s s'"
  shows "page_byte s' x vb d = page_byte s x vb d"
proof -
  obtain e where e: "pte_of s asp va = Some e" "kh s' = kh s" "rest_same s s'" "swap_disk s' = swap_disk s"
      and pte: "\<And>x vb. pte_of s' x vb =
        (if x = asp \<and> vpage vb = vpage va then Some (mark_entry ft e) else pte_of s x vb)"
    using m unfolding marked_def by blast
  have "map_option physical_addr (pte_of s' x vb) = map_option physical_addr (pte_of s x vb)"
    using pte [of x vb] e(1) pte_of_vpage [of vb va s asp] by auto
  then show ?thesis
    using e by (auto simp: page_byte_def rest_same_def split: option.splits)
qed

lemma get_physical_address_absent:
  assumes "tabs_wf s" "spaces s asp = Some a" "pte_of s asp va = None" "bring_in asp va s = Inr s'"
    and "tabs_wf s'" "pte_of s' asp va = Some e"
  shows "get_physical_address asp va ft s = get_physical_address asp va ft s'"
proof -
  obtain a' where a': "spaces s' asp = Some a'" using assms(6) by (auto simp: pte_of_Some)
  show ?thesis
    using assms a' page_entry_exists_eq [OF assms(1,2), of va] page_entry_exists_eq [OF assms(5) a', of va]
    by (simp add: get_physical_address_def Let_def)
qed

text \<open>What the translation of a page of the address space achieves.\<close>

definition faulted_in :: "u32 \<Rightarrow> u32 \<Rightarrow> faulttype \<Rightarrow> vm \<Rightarrow> page_table_entry \<Rightarrow> vm \<Rightarrow> bool" where
  "faulted_in asp va ft s e s' \<longleftrightarrow> sys_inv asp s' \<and> pte_of s' asp va = Some e \<and> ref_bit e
     \<and> (ft = VM_FAULT_WRITE \<longrightarrow> dirty_bit e) \<and> num_vm_faults s' = num_vm_faults s
     \<and> (tlb_probe va (ts s) \<noteq> 0 \<longrightarrow> translates (ts s') va (physical_addr e))
     \<and> (\<forall>x vb d. private_page s x vb \<longrightarrow> d < 4096 \<longrightarrow> page_byte s' x vb d = page_byte s x vb d)"

lemma fault_resident:
  assumes sys: "sys_inv asp s" and e: "pte_of s asp va = Some e" and va: "vpage va = va" "user_addr va"
    and ft: "ft = VM_FAULT_READ \<or> ft = VM_FAULT_WRITE"
  shows "\<exists>e' s'. get_physical_address asp va ft s = Inr (physical_addr e', s') \<and> faulted_in asp va ft s e' s'
    \<and> physical_addr e' = physical_addr e \<and> ts s' = ts s \<and> page_byte s' = page_byte s"
proof -
  have inv: "vm_inv {} s" using sys by (simp add: sys_inv_def)
  obtain s' where gp: "get_physical_address asp va ft s = Inr (physical_addr e + (va AND OFFSET_MASK), s')"
      and m: "marked asp va ft s s'"
    by (rule mark_resident [OF inv e ft])
  have "va AND OFFSET_MASK = 0"
  proof -
    have "va AND OFFSET_MASK = (va AND PAGE_FRAME) AND OFFSET_MASK"
      using va(1) by (simp add: vpage_def TLBHI_VPAGE_def PAGE_FRAME_def)
    then show ?thesis by (simp add: OFFSET_MASK_def PAGE_FRAME_def and.assoc)
  qed
  moreover have pte': "pte_of s' asp va = Some (mark_entry ft e)" "ts s' = ts s" "num_vm_faults s' = num_vm_faults s"
    using m e by (auto simp: marked_def rest_same_def)
  moreover have "faulted_in asp va ft s (mark_entry ft e) s'"
    using sys mark_sys [OF sys m] pte' mark_page_byte [OF m] resident_translates [OF inv _ _ va(2) _ e]
    by (simp add: faulted_in_def sys_inv_def) (simp add: mark_entry_def)
  moreover have "page_byte s' = page_byte s" by (intro ext mark_page_byte [OF m])
  ultimately show ?thesis using gp by (intro exI [of _ "mark_entry ft e"] exI [of _ s']) simp
qed

lemma grown_sys:
  assumes sys: "sys_inv asp s" and h: "heap_inv h" "new_pages (kh s) h" "grows (kh s) h"
  shows "sys_inv asp (s\<lparr>kh := h\<rparr>)"
proof -
  let ?s = "s\<lparr>kh := h\<rparr>"
  have inv: "vm_inv {} s" using sys by (simp add: sys_inv_def)
  have pte: "pte_of ?s = pte_of s" by (intro ext pte_of_cong) simp_all
  have below: "0x80000000 + unat (physical_base_addr s) + MAX_PM_SIZE * 4096 \<le> frontier (kh s)"
    using vm_inv_below [OF inv] by (simp add: frontier_def MIPS_KSEG0_def)
  have "heap_apart ?s"
    using sys h(2) below unfolding heap_apart_def new_pages_def sys_inv_def by fastforce
  moreover have "tlb_coherent asp ?s"
    by (rule tlb_coherent_mono [of _ s]) (use sys pte in \<open>simp_all add: sys_inv_def\<close>)
  moreover have "vm_inv {} ?s" by (rule vm_inv_heap [OF inv h(3)])
  ultimately show ?thesis using sys h(1) by (simp add: sys_inv_def all_ready_def swap_ready_def swap_wf_def)
qed

lemma fault_absent:
  assumes sys: "sys_inv asp s" and a: "spaces s asp = Some a" and absent: "pte_of s asp va = None"
    and va: "vpage va = va" "user_addr va" and slot: "swap_ready s va"
    and room: "card (used (kh s)) < NPAGEREFS" "ram_room 3 s"
    and ft: "ft = VM_FAULT_READ \<or> ft = VM_FAULT_WRITE"
  shows "\<exists>e s'. get_physical_address asp va ft s = Inr (physical_addr e, s') \<and> faulted_in asp va ft s e s'"
proof -
  have inv: "vm_inv {} s" and hinv: "heap_inv (kh s)" and ready: "all_ready s" using sys by (simp_all add: sys_inv_def)
  obtain p h where km: "kmalloc 4 (kh s) = Inr (p, h)" "p \<noteq> 0" and h: "heap_inv h" "new_pages (kh s) h"
    by (rule kmalloc_gets [OF hinv, of 4]) (use room in \<open>simp_all add: ram_room_def gained_def\<close>)
  let ?s = "s\<lparr>kh := h\<rparr>"
  have room2: "as_table a (LEVEL1INDEX va) \<noteq> 0 \<or> ram_room 2 ?s"
    using room(2) h(2) by (simp add: ram_room_def new_pages_def)
  obtain i s1 where bi: "bring_in asp va s = Inr s1" and br: "brought_in asp va i ?s s1" and gr: "grows (kh s) h"
    using bring_in_spec [OF inv a va(1) absent km room2 _ slot] ready by (auto simp: all_ready_def)
  have sys0: "sys_inv asp ?s" by (rule grown_sys [OF sys h gr])
  have pte0: "pte_of ?s = pte_of s" by (intro ext pte_of_cong) simp_all
  have absent0: "pte_of ?s asp va = None" using absent pte0 by simp
  have inv0: "vm_inv {} ?s" "tlb_wf (ts ?s)" "tlb_coherent asp ?s" "swap_wf ?s"
    using sys0 by (simp_all add: sys_inv_def)
  have slot0: "swap_ready ?s va" using slot by (simp add: swap_ready_def)
  obtain e1 where e1: "pte_of s1 asp va = Some e1" "physical_addr e1 = frame_addr ?s i" and inv1: "vm_inv {} s1"
    using br unfolding brought_in_def by (force simp: new_entry_def)
  have nf: "num_vm_faults s1 = num_vm_faults s"
    using br took_or_evicted(3) unfolding brought_in_def by (fastforce simp: rest_same_def tables_only_def)
  have "sys_inv asp s1"
    using inv1 brought_in_sys [OF inv0(1) _ _ _ inv0(4) slot0 br] sys0
      brought_in_coherent [OF inv0(2,3) va(2) absent0 br] by (simp add: sys_inv_def)
  then obtain e s2 where gp: "get_physical_address asp va ft s1 = Inr (physical_addr e, s2)"
      and fi: "faulted_in asp va ft s1 e s2" and e: "physical_addr e = physical_addr e1"
      and ts2: "ts s2 = ts s1" and pb: "page_byte s2 = page_byte s1"
    using fault_resident [OF _ e1(1) va ft] by blast
  have "get_physical_address asp va ft s = Inr (physical_addr e, s2)"
    using get_physical_address_absent [OF vm_inv_tabs [OF inv] a absent bi vm_inv_tabs [OF inv1] e1(1)] gp by simp
  moreover have "page_byte s2 x vb d = page_byte s x vb d" if "private_page s x vb" "d < 4096" for x vb d
    using brought_in_page_byte [OF inv0(1) br inv0(4) absent0 va(1) _ that(2), of x vb]
      page_byte_grows [OF inv gr that(2), of x vb] that(1) pb pte0 by (simp add: private_page_def)
  moreover have "translates (ts s2) va (physical_addr e)" if "tlb_probe va (ts s) \<noteq> 0"
    using brought_in_translates [OF inv0(1-3) va(2) _ absent0 br] that e e1(2) ts2 by simp
  ultimately show ?thesis
    using fi nf by (intro exI [of _ e] exI [of _ s2]) (simp add: faulted_in_def)
qed

section \<open>The handler\<close>

text \<open>The checks of the handler on the regions, and the three regions.\<close>

definition regions_ok :: "addrspace \<Rightarrow> bool" where
  "regions_ok a \<longleftrightarrow> as_vbase1 a \<noteq> 0 \<and> as_npages1 a \<noteq> 0 \<and> as_vbase2 a \<noteq> 0 \<and> as_npages2 a \<noteq> 0
     \<and> as_vbase1 a AND PAGE_FRAME = as_vbase1 a \<and> as_vbase2 a AND PAGE_FRAME = as_vbase2 a"

definition in_space :: "addrspace \<Rightarrow> u32 \<Rightarrow> bool" where
  "in_space a va \<longleftrightarrow> in_region va (as_vbase1 a) (as_vbase1 a + as_npages1 a * PAGE_SIZE)
     \<or> in_region va (as_vbase2 a) (as_vbase2 a + as_npages2 a * PAGE_SIZE)
     \<or> in_region va (USERSTACK - of_nat INIT_STACKPAGES * PAGE_SIZE) USERSTACK"

definition fault_room :: "vm \<Rightarrow> bool" where
  "fault_room s \<longleftrightarrow> card (used (kh s)) < NPAGEREFS \<and> ram_room 3 s"

lemma vm_fault_spec:
  assumes sys: "sys_inv asp s" and a: "spaces s asp = Some a" "asp \<noteq> 0" "regions_ok a"
    and va: "va = fa AND PAGE_FRAME" "in_space a va" "user_addr va" "swap_ready s va"
    and room: "fault_room s" and ft: "ft = VM_FAULT_READ \<or> ft = VM_FAULT_WRITE"
  shows "\<exists>e s' t. vm_fault asp ft fa s = Inr (0, s'\<lparr>ts := t\<rparr>)
    \<and> faulted_in asp va ft (s\<lparr>num_vm_faults := num_vm_faults s + 1\<rparr>) e s'
    \<and> t = snd (insert_tlb_entry va (physical_addr e) (ts s'))"
proof -
  let ?s = "s\<lparr>num_vm_faults := num_vm_faults s + 1\<rparr>"
  have pte: "pte_of ?s = pte_of s" by (intro ext pte_of_cong) simp_all
  have vp: "vpage va = va" using va(1) by (simp add: vpage_def TLBHI_VPAGE_def PAGE_FRAME_def and.assoc)
  have inv: "vm_inv {} ?s" by (rule vm_inv_memory [of _ s]) (use sys in \<open>simp_all add: sys_inv_def\<close>)
  have "tlb_coherent asp ?s"
    by (rule tlb_coherent_mono [of _ s]) (use sys pte in \<open>simp_all add: sys_inv_def\<close>)
  then have sys': "sys_inv asp ?s"
    using sys inv by (simp add: sys_inv_def heap_apart_def all_ready_def swap_ready_def swap_wf_def)
  have "\<exists>e s'. get_physical_address asp va ft ?s = Inr (physical_addr e, s') \<and> faulted_in asp va ft ?s e s'"
  proof (cases "pte_of ?s asp va")
    case None
    then show ?thesis
      using fault_absent [OF sys' _ None vp va(3) _ _ _ ft] a(1) va(4) room
      by (simp add: fault_room_def ram_room_def swap_ready_def)
  next
    case (Some e)
    then show ?thesis using fault_resident [OF sys' Some vp va(3) ft] by blast
  qed
  then obtain e s' where gp: "get_physical_address asp va ft ?s = Inr (physical_addr e, s')"
      and fi: "faulted_in asp va ft ?s e s'" by blast
  have al: "physical_addr e AND PAGE_FRAME = physical_addr e"
    using fi frame_of_page_aligned by (auto simp: faulted_in_def sys_inv_def)
  have ft': "ft \<noteq> VM_FAULT_READONLY" "ft \<noteq> VM_FAULT_OTHER" using ft by auto
  have "fst (insert_tlb_entry va (physical_addr e) (ts s')) = 0"
    by (simp add: insert_tlb_entry_def Let_def split: prod.split)
  then obtain t where ins: "insert_tlb_entry va (physical_addr e) (ts s') = (0, t)"
    by (cases "insert_tlb_entry va (physical_addr e) (ts s')") simp
  have "vm_fault asp ft fa s = Inr (0, s'\<lparr>ts := t\<rparr>)"
    using a va(1,2) gp al ft' ins
    by (simp add: vm_fault_def Let_def regions_ok_def in_space_def KASSERT_def)
  then show ?thesis using fi ins by (intro exI [of _ e] exI [of _ s'] exI [of _ t]) simp
qed

lemma faulted_in_insert:
  assumes fi: "faulted_in asp va ft s e s'" and user: "user_addr va"
    and s'': "s'' = s'\<lparr>ts := snd (insert_tlb_entry va (physical_addr e) (ts s'))\<rparr>"
  shows "sys_inv asp s''" "pte_of s'' = pte_of s'" "page_byte s'' = page_byte s'"
    "tlb_probe va (ts s) \<noteq> 0 \<Longrightarrow> tlb_lookup (ts s'') va = Some (physical_addr e)"
proof -
  have sys: "sys_inv asp s'" and e: "pte_of s' asp va = Some e" using fi by (simp_all add: faulted_in_def)
  then have inv: "vm_inv {} s'" and wf: "tlb_wf (ts s')" and co: "tlb_coherent asp s'" by (simp_all add: sys_inv_def)
  show pte: "pte_of s'' = pte_of s'" by (intro ext pte_of_cong) (simp_all add: s'')
  show "page_byte s'' = page_byte s'" by (intro ext page_byte_cong) (use pte in \<open>simp_all add: s''\<close>)
  have "vm_inv {} s''" by (rule vm_inv_memory [OF inv]) (simp_all add: s'')
  then show "sys_inv asp s''"
    using sys insert_coherent [OF wf co e refl s''] insert_tlb_entry_wf [OF wf user]
    by (simp add: s'' sys_inv_def heap_apart_def all_ready_def swap_ready_def swap_wf_def)
  show "tlb_lookup (ts s'') va = Some (physical_addr e)" if "tlb_probe va (ts s) \<noteq> 0"
    using that fi translates_insert [OF wf user frame_of_page_aligned [OF inv e]] s''
    by (simp add: faulted_in_def)
qed

text \<open>A fault that the handler resolves.\<close>

definition good_fault :: "u32 \<Rightarrow> faulttype \<Rightarrow> u32 \<Rightarrow> vm \<Rightarrow> bool" where
  "good_fault asp ft fa s \<longleftrightarrow> (ft = VM_FAULT_READ \<or> ft = VM_FAULT_WRITE) \<and> asp \<noteq> 0 \<and> user_addr fa
     \<and> (case spaces s asp of None \<Rightarrow> False
         | Some a \<Rightarrow> regions_ok a \<and> in_space a (fa AND PAGE_FRAME))
     \<and> swap_ready s (fa AND PAGE_FRAME) \<and> fault_room s"

lemma vpage_PAGE_FRAME: "vpage (fa AND PAGE_FRAME) = vpage fa"
  by (simp add: vpage_def TLBHI_VPAGE_def PAGE_FRAME_def and.assoc)

lemma good_fault_spec:
  assumes sys: "sys_inv asp s" and good: "good_fault asp ft fa s"
  obtains e s' where "vm_fault asp ft fa s = Inr (0, s')" "sys_inv asp s'" "pte_of s' asp fa = Some e"
    "ref_bit e" "ft = VM_FAULT_WRITE \<Longrightarrow> dirty_bit e"
    "tlb_probe fa (ts s) \<noteq> 0 \<Longrightarrow> tlb_lookup (ts s') fa = Some (physical_addr e)"
    "\<And>x vb d. private_page s x vb \<Longrightarrow> d < 4096 \<Longrightarrow> page_byte s' x vb d = page_byte s x vb d"
proof -
  let ?va = "fa AND PAGE_FRAME" and ?s = "s\<lparr>num_vm_faults := num_vm_faults s + 1\<rparr>"
  obtain a where a: "spaces s asp = Some a" "regions_ok a" "in_space a ?va"
    using good by (auto simp: good_fault_def split: option.splits)
  have "user_addr fa" using good by (simp add: good_fault_def)
  then have user: "user_addr ?va" by (rule same_page_user [OF _ vpage_PAGE_FRAME])
  have g: "asp \<noteq> 0" "swap_ready s ?va" "fault_room s" "ft = VM_FAULT_READ \<or> ft = VM_FAULT_WRITE"
    using good by (simp_all add: good_fault_def)
  obtain e s1 where vf: "vm_fault asp ft fa s = Inr (0, s1\<lparr>ts := snd (insert_tlb_entry ?va (physical_addr e) (ts s1))\<rparr>)"
      and fi: "faulted_in asp ?va ft ?s e s1"
    using vm_fault_spec [OF sys a(1) g(1) a(2) refl a(3) user g(2,3,4)] by blast
  note fin = faulted_in_insert [OF fi user refl]
  have probe: "tlb_probe ?va t = tlb_probe fa t" for t
    unfolding tlb_probe_def by (rule probe_from_vpage [OF vpage_PAGE_FRAME])
  have pte0: "pte_of ?s = pte_of s" by (intro ext pte_of_cong) simp_all
  have "page_byte ?s = page_byte s" by (intro ext page_byte_cong) (use pte0 in simp_all)
  then have pb: "page_byte s1 x vb d = page_byte s x vb d" if "private_page s x vb" "d < 4096" for x vb d
    using fi that pte0 by (simp add: faulted_in_def private_page_def)
  show thesis
  proof (rule that [OF vf fin(1)])
    show "pte_of (s1\<lparr>ts := snd (insert_tlb_entry ?va (physical_addr e) (ts s1))\<rparr>) asp fa = Some e"
      using fi fin(2) pte_of_vpage [OF vpage_PAGE_FRAME] by (simp add: faulted_in_def)
    show "tlb_lookup (ts (s1\<lparr>ts := snd (insert_tlb_entry ?va (physical_addr e) (ts s1))\<rparr>)) fa = Some (physical_addr e)"
      if "tlb_probe fa (ts s) \<noteq> 0"
      using fin(4) that probe by (simp add: tlb_lookup_def)
  qed (use fi fin(3) pb in \<open>simp_all add: faulted_in_def\<close>)
qed

text \<open>A sequence of faults of one process.\<close>

inductive faults :: "u32 \<Rightarrow> vm \<Rightarrow> vm \<Rightarrow> bool" for asp where
  faults_none: "faults asp s s"
| faults_step: "faults asp s s' \<Longrightarrow> good_fault asp ft fa s' \<Longrightarrow> vm_fault asp ft fa s' = Inr (r, s'') \<Longrightarrow>
    faults asp s s''"

lemma faults_sys: "faults asp s s' \<Longrightarrow> sys_inv asp s \<Longrightarrow> sys_inv asp s'"
proof (induction rule: faults.induct)
  case (faults_step s s' ft fa r s'')
  then show ?case by (auto elim!: good_fault_spec [of asp s' ft fa])
qed

section \<open>A concrete system\<close>

text \<open>
  A process with one code page and one data page, nothing resident, an empty TLB and a swap
  device of two pages.
\<close>

definition demo_space :: addrspace where
  "demo_space = \<lparr>as_vbase1 = 0x400000, as_npages1 = 1, as_vbase2 = 0x410000, as_npages2 = 1,
     as_pid = 1, as_size = 0, as_table = (\<lambda>_. 0), as_stackpbase = 0, as_stacknpages = 0\<rparr>"

definition blank_pte :: page_table_entry where
  "blank_pte = \<lparr>virtual_addr = 0, physical_addr = 0, valid_bit = False, dirty_bit = False, ref_bit = False,
     pte_pid = 0, counter = 0, p_space = 0\<rparr>"

definition demo_tlb :: tlb_state where
  "demo_tlb = \<lparr>tlb = map (\<lambda>i. \<lparr>entryhi = TLBHI_INVALID i, entrylo = TLBLO_INVALID\<rparr>) [0..<NUM_TLB],
     last_tlb_entry = 0\<rparr>"

definition demo_asp :: u32 where "demo_asp = 0x80030000"

definition demo :: vm where
  "demo = \<lparr>kh = heap_boot small_ram (\<lambda>_. 0), ts = demo_tlb,
     pft = map (\<lambda>i. blank_pte\<lparr>physical_addr := 0x10000 + of_nat i * PAGE_SIZE\<rparr>) [0..<MAX_PM_SIZE],
     clock_hand = 0, rp_hand = CLOCK_ANGLE, ep_hand = 0, cnt_page_repl = 0, num_vm_faults = 0,
     physical_base_addr = 0x10000, spaces = [demo_asp \<mapsto> demo_space], l2tabs = Map.empty,
     swapspace = [blank_pte\<lparr>virtual_addr := 0x400000\<rparr>,
       blank_pte\<lparr>virtual_addr := 0x410000, physical_addr := 4096\<rparr>],
     swap_insertions = 2, swap_disk = (\<lambda>_. 7), swap_result = (\<lambda>_. 0), junk_as = (\<lambda>_. demo_space),
     junk_l2 = (\<lambda>_. \<lparr>pt_size = 0, pt_table = (\<lambda>_. blank_pte)\<rparr>), junk_pte = (\<lambda>_. blank_pte)\<rparr>"

lemma demo_tlb_wf: "tlb_wf demo_tlb"
proof -
  have "inj_on TLBHI_INVALID {0..<NUM_TLB}"
  proof (rule inj_onI)
    fix x y
    assume xy: "x \<in> {0..<NUM_TLB}" "y \<in> {0..<NUM_TLB}" and eq: "TLBHI_INVALID x = TLBHI_INVALID y"
    have "(0x80000 + x) * 4096 = (0x80000 + y) * 4096"
      using xy arg_cong [OF eq, of unat] by (simp only: unat_TLBHI_INVALID atLeastLessThan_iff)
    then show "x = y" by simp
  qed
  then have "distinct (map (vpage \<circ> entryhi) (tlb demo_tlb))"
    by (simp add: demo_tlb_def comp_def distinct_map)
  then show ?thesis by (simp add: tlb_wf_def demo_tlb_def slot_ok_def NUM_TLB_def)
qed

lemma demo_pte: "pte_of demo x va = None"
  by (simp add: pte_of_def demo_def split: option.splits)

lemma demo_inv: "vm_inv {} demo"
proof -
  have "pool_ok demo"
    by (simp add: pool_ok_def demo_def MAX_PM_SIZE_def CLOCK_ANGLE_def frame_addr_def PAGE_SIZE_def)
  moreover have "tabs_wf demo"
    using small_ram_wf by (simp add: tabs_wf_def demo_def heap_boot_def demo_space_def)
  moreover have "\<forall>i < MAX_PM_SIZE. \<not> valid_bit (pft demo ! i)"
    by (simp add: demo_def blank_pte_def)
  ultimately show ?thesis
    using demo_pte by (simp add: vm_inv_def) (simp add: demo_def heap_boot_def small_ram_def MAX_PM_SIZE_def)
qed

lemma demo_sys: "sys_inv demo_asp demo"
proof -
  have "kh demo = heap_boot small_ram (\<lambda>_. 0)" by (simp add: demo_def)
  then have "heap_inv (kh demo)" "heap_apart demo"
    using heap_boot_inv [OF small_ram_wf] heap_boot_used by (simp_all add: heap_apart_def heap_pages_def)
  moreover have "all_ready demo" by (simp add: all_ready_def demo_def blank_pte_def)
  moreover have "swap_wf demo"
    by (auto simp: swap_wf_def demo_def blank_pte_def less_Suc_eq PAGE_SIZE_def)
  moreover have "tlb_coherent demo_asp demo"
    using TLBHI_INVALID_kernel
    by (simp add: tlb_coherent_def slot_coherent_def demo_def demo_tlb_def TLBLO_INVALID_def)
  moreover have "tlb_wf (ts demo)" using demo_tlb_wf by (simp add: demo_def)
  ultimately show ?thesis using demo_inv by (simp add: sys_inv_def)
qed

lemma demo_good: "good_fault demo_asp VM_FAULT_WRITE 0x400123 demo"
proof -
  have "swap_ready demo 0x400000" by (simp add: swap_ready_def demo_def)
  moreover have "fault_room demo"
    using heap_boot_used by (simp add: fault_room_def ram_room_def demo_def NPAGEREFS_def heap_boot_def small_ram_def)
  ultimately show ?thesis
    by (simp add: good_fault_def demo_asp_def user_addr_def MIPS_KSEG0_def PAGE_FRAME_def)
      (simp add: demo_def demo_space_def demo_asp_def regions_ok_def in_space_def in_region_def PAGE_FRAME_def PAGE_SIZE_def)
qed

lemma demo_tlb_miss:
  assumes user: "user_addr va"
  shows "tlb_probe va demo_tlb = -1"
proof -
  have "vpage (entryhi (tlb demo_tlb ! k)) \<noteq> vpage va" if k: "k < NUM_TLB" for k
  proof -
    have "entryhi (tlb demo_tlb ! k) = TLBHI_INVALID k" using k by (simp add: demo_tlb_def)
    then show ?thesis using not_sym [OF user_vpage_not_invalid [OF user k]] by simp
  qed
  then show ?thesis using tlb_probe_miss_nth [OF demo_tlb_wf] by blast
qed

lemma demo_probe: "tlb_probe 0x400123 (ts demo) \<noteq> 0"
  using demo_tlb_miss [of "0x400123"] by (simp add: demo_def user_addr_def MIPS_KSEG0_def)

text \<open>The same process with its code page resident and its translation in slot 0.\<close>

definition demo_entry :: page_table_entry where
  "demo_entry = blank_pte\<lparr>virtual_addr := 0x400000, physical_addr := 0x10000, valid_bit := True\<rparr>"

definition demo_resident :: vm where
  "demo_resident = demo\<lparr>
     pft := (pft demo)[0 := demo_entry\<lparr>p_space := demo_asp\<rparr>],
     spaces := [demo_asp \<mapsto> demo_space\<lparr>as_table := (\<lambda>_. 0)(4 := 0x80031000)\<rparr>],
     l2tabs := [0x80031000 \<mapsto> \<lparr>pt_size = 1, pt_table = (\<lambda>_. blank_pte)(0 := demo_entry)\<rparr>],
     ts := snd (insert_tlb_entry 0x400000 0x10000 demo_tlb)\<rparr>"

lemma demo_resident_pte:
  "pte_of demo_resident x va = (if x = demo_asp \<and> vpage va = 0x400000 then Some demo_entry else None)"
proof -
  have "vpage va = 0x400000 \<longleftrightarrow> LEVEL1INDEX va = 4 \<and> LEVEL2INDEX va = 0"
    using level_index_eq_iff [of va "0x400000"]
    by (simp add: LEVEL1INDEX_eq [of "0x400000"] LEVEL2INDEX_eq [of "0x400000"] vpage_def [of "0x400000"] TLBHI_VPAGE_def)
  then show ?thesis
    by (simp add: pte_of_def demo_resident_def demo_space_def demo_entry_def blank_pte_def Let_def)
qed

lemma demo_resident_inv: "vm_inv {} demo_resident"
proof -
  have pool: "pool_ok demo_resident"
    using vm_inv_pool [OF demo_inv]
    by (auto simp: pool_ok_def demo_resident_def demo_entry_def frame_addr_def nth_list_update)
      (simp add: demo_def)
  have wf: "tabs_wf demo_resident"
    using small_ram_wf
    by (simp add: tabs_wf_def demo_resident_def demo_def heap_boot_def frontier_def small_ram_def MIPS_KSEG0_def
        demo_space_def split: if_splits)
  have f: "pft demo_resident ! 0 = demo_entry\<lparr>p_space := demo_asp\<rparr>"
      "0 < i \<Longrightarrow> i < MAX_PM_SIZE \<Longrightarrow> \<not> valid_bit (pft demo_resident ! i)" for i
    by (simp_all add: demo_resident_def demo_def MAX_PM_SIZE_def blank_pte_def)
  have fa: "frame_addr demo_resident 0 = 0x10000" by (simp add: frame_addr_def demo_resident_def demo_def)
  have ow: "owned demo_resident 0"
    using f(1) fa by (simp add: owned_def demo_resident_pte demo_entry_def vpage_def TLBHI_VPAGE_def)
  have "owns demo_resident x va (physical_addr e) 0" if "pte_of demo_resident x va = Some e" for x va e
    using that f(1) fa
    by (auto simp: owns_def demo_resident_pte demo_entry_def MAX_PM_SIZE_def split: if_splits)
  moreover have "owned demo_resident i" if "i < MAX_PM_SIZE" "valid_bit (pft demo_resident ! i)" for i
    using f(2) [of i] that ow by (cases "i = 0") auto
  moreover have "unat (physical_base_addr demo_resident) + MAX_PM_SIZE * 4096 \<le> unat (firstpaddr (kram (kh demo_resident)))"
    by (simp add: demo_resident_def demo_def heap_boot_def small_ram_def MAX_PM_SIZE_def)
  ultimately show ?thesis using pool wf unfolding vm_inv_def by blast
qed

section \<open>Properties\<close>













end
