(* ===== verification/VmProps.thy ===== *)
theory VmProps
  imports VmFault
begin

unbundle bit_operations_syntax

text \<open>
  Properties of the parts under the fault handler: the TLB's round-robin slots, page replacement,
  the swap table, regions, and what boot and \<open>as_copy\<close> do.
\<close>

section \<open>The swap table\<close>

text \<open>A page has a swap slot when a table entry in use names it.\<close>

definition swap_has :: "u32 \<Rightarrow> vm \<Rightarrow> bool" where
  "swap_has va s \<longleftrightarrow> (\<exists>e \<in> set (swapspace s). valid_bit e \<and> virtual_addr e = va)"

lemma swap_offset_None_iff: "swap_offset va t = None \<longleftrightarrow> (\<forall>e \<in> set t. virtual_addr e \<noteq> va)"
  by (induction t) auto

lemma swap_has_offset: "swap_has va s \<Longrightarrow> swap_offset va (swapspace s) \<noteq> None"
  unfolding swap_has_def swap_offset_None_iff by blast

lemma free_pos_free: "free_pos t < length t \<Longrightarrow> \<not> valid_bit (t ! free_pos t)"
  by (induction t) auto

lemma swapspace_insert_spec:
  assumes "swapspace_insert va pid s = Inr (r, s')"
  shows "swap_has va s'" "\<And>vb. swap_has vb s \<Longrightarrow> swap_has vb s'" "spaces s' = spaces s"
proof -
  let ?p = "free_pos (swapspace s)"
  let ?e = "(swapspace s ! ?p)\<lparr>virtual_addr := va, counter := 0, pte_pid := pid, valid_bit := True\<rparr>"
  have p: "?p < length (swapspace s)"
    and s': "s' = s\<lparr>swap_insertions := swap_insertions s + 1, swapspace := (swapspace s)[?p := ?e]\<rparr>"
    using assms by (auto simp: swapspace_insert_def Let_def res_simps)
  show "spaces s' = spaces s" by (simp add: s')
  have "?e \<in> set (swapspace s')" using p by (simp add: s' set_update_memI)
  then show "swap_has va s'" unfolding swap_has_def by (rule bexI [rotated]) simp
  fix vb
  assume "swap_has vb s"
  then obtain i where i: "i < length (swapspace s)" "valid_bit (swapspace s ! i)" "virtual_addr (swapspace s ! i) = vb"
    by (auto simp: swap_has_def in_set_conv_nth)
  then have "i \<noteq> ?p" using free_pos_free [OF p] by auto
  then have "swapspace s' ! i = swapspace s ! i" by (simp add: s')
  moreover have "swapspace s' ! i \<in> set (swapspace s')" using i(1) by (simp add: s')
  ultimately show "swap_has vb s'" using i unfolding swap_has_def by auto
qed

lemma insert_pages_spec:
  assumes "rfold (insert_page f pid) is s = Inr s'"
  shows "\<forall>i \<in> set is. swap_has (f i) s'" "\<And>vb. swap_has vb s \<Longrightarrow> swap_has vb s'" "spaces s' = spaces s"
proof -
  have "(\<forall>i \<in> set is. swap_has (f i) s') \<and> (\<forall>vb. swap_has vb s \<longrightarrow> swap_has vb s') \<and> spaces s' = spaces s"
    using assms
  proof (induction "is" arbitrary: s)
    case (Cons i "is")
    then obtain s1 where ip: "insert_page f pid i s = Inr s1" and s1: "rfold (insert_page f pid) is s1 = Inr s'"
      by (auto simp: res_simps)
    obtain r where si: "swapspace_insert (f i) pid s = Inr (r, s1)"
      using ip by (auto simp: insert_page_def res_simps)
    note sp = swapspace_insert_spec [OF si]
    show ?case using Cons.IH [OF s1] sp by auto
  qed simp
  then show "\<forall>i \<in> set is. swap_has (f i) s'" "\<And>vb. swap_has vb s \<Longrightarrow> swap_has vb s'" "spaces s' = spaces s" by auto
qed

section \<open>Properties\<close>

text \<open>
  C21: Swapping a page out and then in, to the same frame or to another, restores every byte.
\<close>

theorem swap_roundtrip:
  assumes "swap_out va pa s = Inr s1" "swap_in va pb s1 = Inr s2" "d < 4096"
  shows "kmem (kh s2) (frame_kva pb + d) = kmem (kh s) (frame_kva pa + d)"
proof -
  obtain off where off: "swap_offset va (swapspace s) = Some off"
      and s1: "s1 = s\<lparr>swap_disk := copy_block off (swap_disk s) (frame_kva pa) (kmem (kh s)) PAGE_SIZE\<rparr>"
    using assms(1) by (auto simp: swap_out_def split: option.splits if_splits)
  have "in_block (frame_kva pb) PAGE_SIZE (frame_kva pb + d)" "in_block off PAGE_SIZE (off + d)"
    using assms(3) by (simp_all add: in_block_def PAGE_SIZE_def)
  then show ?thesis
    using assms(2) off by (auto simp: s1 swap_in_def copy_block_inside split: if_splits)
qed

theorem swap_roundtrip_witness:
  "\<exists>s1 s2. swap_out 0x400000 0x10000 demo = Inr s1 \<and> swap_in 0x400000 0x13000 s1 = Inr s2
    \<and> kmem (kh s2) (frame_kva 0x13000 + 9) = 0"
proof -
  obtain s1 where s1: "swap_out 0x400000 0x10000 demo = Inr s1"
    by (simp add: swap_out_def) (simp add: demo_def)
  moreover obtain s2 where s2: "swap_in 0x400000 0x13000 s1 = Inr s2"
    using s1 by (auto simp: swap_out_def swap_in_def demo_def)
  moreover have "kmem (kh demo) x = 0" for x by (simp add: demo_def heap_boot_def)
  ultimately show ?thesis using swap_roundtrip [OF s1 s2, of 9] by auto
qed

text \<open>
  C23: Loading an address space into the swap table gives every page of both regions and of the
  stack a slot, and takes no slot in use away from any other page.
\<close>

theorem swapspace_load_as_covers:
  assumes "swapspace_load_as asp s = Inr s'" "spaces s asp = Some a"
  shows "(\<forall>i < unat (as_npages1 a). swap_has (as_vbase1 a + of_nat i * PAGE_SIZE) s')
    \<and> (\<forall>i < unat (as_npages2 a). swap_has (as_vbase2 a + of_nat i * PAGE_SIZE) s')
    \<and> (\<forall>i < INIT_STACKPAGES. swap_has (USERSTACK - (of_nat i + 1) * PAGE_SIZE) s')
    \<and> (\<forall>vb. swap_has vb s \<longrightarrow> swap_has vb s')"
proof -
  obtain s1 s2 where
      s1: "rfold (insert_page (\<lambda>i. as_vbase1 a + of_nat i * PAGE_SIZE) (as_pid a)) [0..<unat (as_npages1 a)] s = Inr s1"
      and s2: "rfold (insert_page (\<lambda>i. as_vbase2 a + of_nat i * PAGE_SIZE) (as_pid a)) [0..<unat (as_npages2 a)] s1 = Inr s2"
      and s3: "rfold (insert_page (\<lambda>i. USERSTACK - (of_nat i + 1) * PAGE_SIZE) (as_pid a)) [0..<INIT_STACKPAGES] s2 = Inr s'"
    using assms by (auto simp: swapspace_load_as_def res_simps)
  show ?thesis
    using insert_pages_spec [OF s1] insert_pages_spec [OF s2] insert_pages_spec [OF s3] by simp
qed

text \<open>
  C22: The second-chance policy. From the eviction hand on it passes over at most
  \<open>CLOCK_ANGLE\<close> frames, all of them referenced, and picks the next one; that one was not
  referenced if it passed over fewer. No frame's contents record changes apart from reference
  bits, and the hands end just behind the frame that was picked, still \<open>CLOCK_ANGLE\<close> apart.
\<close>

theorem second_chance_correct:
  assumes "pool_ok s"
  shows "\<exists>n s'. second_chance_replace s = Inr (frame_addr s ((ep_hand s + n) mod MAX_PM_SIZE), s')
    \<and> n \<le> CLOCK_ANGLE \<and> (\<forall>d < n. ref_bit (pft s ! ((ep_hand s + d) mod MAX_PM_SIZE)))
    \<and> (n < CLOCK_ANGLE \<longrightarrow> \<not> ref_bit (pft s ! ((ep_hand s + n) mod MAX_PM_SIZE)))
    \<and> same_frames s s' \<and> pool_ok s' \<and> ep_hand s' = (ep_hand s + n + 1) mod MAX_PM_SIZE"
proof -
  let ?n = "clock_scan s"
  let ?s = "advance_hands (clock_steps ?n s)"
  have "ep_hand ?s = (ep_hand s + ?n + 1) mod MAX_PM_SIZE"
    using clock_steps_hands [OF assms, of ?n] by (simp add: advance_hands_def clock_pos_def mod_simps)
  moreover have "same_frames s ?s"
    using same_frames_trans clock_steps_same_frames [OF assms] advance_hands_same_frames by blast
  ultimately show ?thesis
    using second_chance_replace_eq [OF assms] clock_scan_bound [of s] clock_scan_passed clock_scan_stop [of s]
      second_chance_replace_pool [OF assms]
    by (intro exI [of _ ?n] exI [of _ ?s]) (simp add: clock_pos_def)
qed

theorem second_chance_correct_witness:
  "\<exists>n s'. second_chance_replace demo = Inr (frame_addr demo (n mod MAX_PM_SIZE), s') \<and> n \<le> CLOCK_ANGLE \<and> pool_ok s'"
  using second_chance_correct [OF vm_inv_pool [OF demo_inv]] by (auto simp: demo_def)

theorem swapspace_load_as_covers_witness:
  "\<exists>s'. swapspace_load_as demo_asp (demo\<lparr>swapspace := replicate 20 blank_pte\<rparr>) = Inr s'
    \<and> swap_has 0x400000 s' \<and> swap_has 0x7fff4000 s'"
proof -
  let ?s = "demo\<lparr>swapspace := replicate 20 blank_pte\<rparr>"
  have a: "spaces ?s demo_asp = Some demo_space" by (simp add: demo_def)
  have "\<exists>s'. swapspace_load_as demo_asp ?s = Inr s'"
    using a by (simp add: swapspace_load_as_def demo_space_def insert_page_def swapspace_insert_def Let_def
        INIT_STACKPAGES_def upt_rec blank_pte_def KASSERT_def numeral_eq_Suc)
  then obtain s' where s': "swapspace_load_as demo_asp ?s = Inr s'" by blast
  note c = swapspace_load_as_covers [OF s' a]
  have "swap_has (as_vbase1 demo_space + of_nat 0 * PAGE_SIZE) s'" using c by (simp add: demo_space_def)
  moreover have "11 < INIT_STACKPAGES" by (simp add: INIT_STACKPAGES_def)
  then have "swap_has (USERSTACK - (of_nat 11 + 1) * PAGE_SIZE) s'" using c by blast
  ultimately show ?thesis
    using s' by (simp add: demo_space_def USERSTACK_def USERSPACETOP_def MIPS_KSEG0_def PAGE_SIZE_def)
qed



lemma find_unref_all: "\<forall>e \<in> set es. ref_bit e \<Longrightarrow> find_unref i es = None"
  by (induction es arbitrary: i) auto

text \<open>
  C32: When every frame was referenced, \<open>lru_replace\<close> uses the address of a random frame as an index
  into the frame table: whatever the random number, it is out of bounds.
\<close>

theorem lru_out_of_bounds:
  assumes "pool_ok s" "0 < unat (physical_base_addr s)" "\<forall>i < MAX_PM_SIZE. ref_bit (pft s ! i)"
  shows "lru_replace random s = Inl OutOfBounds"
proof -
  have len: "length (pft s) = MAX_PM_SIZE" using assms(1) by (simp add: pool_ok_def)
  have "find_unref 0 (take MAX_PM_SIZE (pft s)) = None"
    using assms(3) len by (intro find_unref_all) (auto simp: in_set_conv_nth)
  moreover let ?n = "random mod MAX_PM_SIZE"
  have n: "?n < MAX_PM_SIZE" by (simp add: MAX_PM_SIZE_def)
  then have "physical_addr (pft s ! ?n) = frame_addr s ?n" using assms(1) by (simp add: pool_ok_def)
  moreover have "MAX_PM_SIZE \<le> unat (frame_addr s ?n)"
  proof -
    have "unat (physical_base_addr s) mod 4096 = 0" using assms(1) by (simp add: pool_ok_def)
    then have "4096 \<le> unat (physical_base_addr s)" using assms(2) by (metis dvd_imp_le mod_eq_0_iff_dvd)
    then show ?thesis using unat_frame_addr [OF assms(1) n] by (simp add: MAX_PM_SIZE_def)
  qed
  ultimately show ?thesis using len n by (simp add: lru_replace_def random_replace_def)
qed

theorem lru_out_of_bounds_witness:
  "lru_replace 77 (demo\<lparr>pft := map (\<lambda>e. e\<lparr>ref_bit := True\<rparr>) (pft demo)\<rparr>) = Inl OutOfBounds"
proof -
  have len: "length (pft demo) = MAX_PM_SIZE" using vm_inv_pool [OF demo_inv] by (simp add: pool_ok_def)
  show ?thesis
  proof (rule lru_out_of_bounds)
    show "pool_ok (demo\<lparr>pft := map (\<lambda>e. e\<lparr>ref_bit := True\<rparr>) (pft demo)\<rparr>)"
      using vm_inv_pool [OF demo_inv] len by (simp add: pool_ok_def frame_addr_def)
  qed (use len in \<open>simp_all add: demo_def\<close>)
qed

lemma set_frames_length [simp]: "length (set_frames pa t) = length t"
  by (induction pa t rule: set_frames.induct) auto

lemma set_frames_nth:
  "i < length t \<Longrightarrow> physical_addr (set_frames pa t ! i) = pa + of_nat i * PAGE_SIZE"
proof (induction t arbitrary: pa i)
  case (Cons e t)
  then show ?case by (cases i) (simp_all add: algebra_simps)
qed simp



lemma unat_region_npages:
  assumes "unat va + unat sz \<le> 2 ^ 31"
  shows "unat (region_npages va sz) = (unat sz + unat va mod 4096 + 4095) div 4096"
proof -
  have off: "unat (va AND NOT PAGE_FRAME) = unat va mod 4096"
    by (simp add: PAGE_FRAME_not_mask take_bit_eq_mask [symmetric] unsigned_take_bit_eq take_bit_eq_mod
        unat_mod_distrib)
  have m: "unat va mod 4096 \<le> unat va" by simp
  have "unat (sz + (va AND NOT PAGE_FRAME)) = unat sz + unat va mod 4096"
    using assms m by (simp add: unat_word_ariths off)
  then have "unat (sz + (va AND NOT PAGE_FRAME) + PAGE_SIZE - 1) = unat sz + unat va mod 4096 + 4095"
    using assms m by (simp add: PAGE_SIZE_def unat_word_ariths add.assoc)
  then show ?thesis
    by (simp add: region_npages_def Let_def unat_div_distrib unat_and_PAGE_FRAME PAGE_SIZE_def)
qed



lemma rfold_first_fault:
  assumes "\<And>x. x \<in> set xs \<Longrightarrow> f x s = Inr s \<or> f x s = Inl e" "\<exists>x \<in> set xs. f x s = Inl e"
  shows "rfold f xs s = Inl e"
  using assms
proof (induction xs)
  case (Cons x xs)
  show ?case
  proof (cases "f x s = Inl e")
    case False
    then have "f x s = Inr s" using Cons.prems(1) [of x] by simp
    then show ?thesis using Cons False by auto
  qed simp
qed simp

lemma copy_level1_faults:
  assumes "i \<in> set is" "as_table old i \<noteq> 0" "\<And>j. j \<in> set is \<Longrightarrow> as_table old j \<noteq> 0 \<Longrightarrow>
      \<exists>t. l2tabs s (as_table old j) = Some t \<and> rfold (copy_entry newas j t) [0..<MAX_LEVEL2_PT] s = Inl e"
  shows "copy_level1 newas old is s = Inl e"
  using assms
proof (induction "is")
  case (Cons k "is")
  show ?case
  proof (cases "as_table old k = 0")
    case True
    then have "copy_level1 newas old is s = Inl e" using Cons by (intro Cons.IH) auto
    then show ?thesis using True by simp
  next
    case False
    then show ?thesis using Cons.prems(3) [of k] by auto
  qed
qed simp





end
