(* ===== verification/LongLong.thy ===== *)
theory LongLong
  imports Prelude
begin

unbundle bit_operations_syntax

text \<open>
  The 64-bit arithmetic that the compiler calls on a 32-bit machine,
  \<open>common/gcc-millicode\<close>. A \<open>long long\<close> is a 64-bit word, whatever its signedness; the
  \<open>union uu\<close> of \<open>longlong.h\<close> views it as two 32-bit words, the high part \<open>uiH\<close> and the low part
  \<open>uiL\<close>. Each routine is shown to compute the operation on 64-bit words that it stands for.
\<close>

section \<open>longlong.h\<close>

definition uiH :: "u64 \<Rightarrow> u32" where "uiH a = ucast (drop_bit 32 a)"
definition uiL :: "u64 \<Rightarrow> u32" where "uiL a = ucast a"
definition uu :: "u32 \<Rightarrow> u32 \<Rightarrow> u64" where "uu h l = push_bit 32 (ucast h) OR ucast l"

definition INT_BITS :: nat where "INT_BITS = 32"
definition HALF_BITS :: nat where "HALF_BITS = 16"

definition HHALF :: "u32 \<Rightarrow> u32" where "HHALF x = drop_bit HALF_BITS x"
definition LHALF :: "u32 \<Rightarrow> u32" where "LHALF x = x AND (push_bit HALF_BITS 1 - 1)"
definition LHUP :: "u32 \<Rightarrow> u32" where "LHUP x = push_bit HALF_BITS x"

section \<open>Bitwise operations and shifts\<close>

definition anddi3 :: "u64 \<Rightarrow> u64 \<Rightarrow> u64" where
  "anddi3 a b = uu (uiH a AND uiH b) (uiL a AND uiL b)"

definition iordi3 :: "u64 \<Rightarrow> u64 \<Rightarrow> u64" where
  "iordi3 a b = uu (uiH a OR uiH b) (uiL a OR uiL b)"

definition xordi3 :: "u64 \<Rightarrow> u64 \<Rightarrow> u64" where
  "xordi3 a b = uu (uiH a XOR uiH b) (uiL a XOR uiL b)"

definition one_cmpldi2 :: "u64 \<Rightarrow> u64" where
  "one_cmpldi2 a = uu (NOT (uiH a)) (NOT (uiL a))"

definition ashldi3 :: "u64 \<Rightarrow> nat \<Rightarrow> u64" where
  "ashldi3 a shift =
     (if shift = 0 then a
      else if shift \<ge> INT_BITS then uu (push_bit (shift - INT_BITS) (uiL a)) 0
      else uu (push_bit shift (uiH a) OR drop_bit (INT_BITS - shift) (uiL a)) (push_bit shift (uiL a)))"

definition lshldi3 :: "u64 \<Rightarrow> nat \<Rightarrow> u64" where
  "lshldi3 a shift =
     (if shift = 0 then a
      else if shift \<ge> INT_BITS then uu (push_bit (shift - INT_BITS) (uiL a)) 0
      else uu (push_bit shift (uiH a) OR drop_bit (INT_BITS - shift) (uiL a)) (push_bit shift (uiL a)))"

definition lshrdi3 :: "u64 \<Rightarrow> nat \<Rightarrow> u64" where
  "lshrdi3 a shift =
     (if shift = 0 then a
      else if shift \<ge> INT_BITS then uu 0 (drop_bit (shift - INT_BITS) (uiH a))
      else uu (drop_bit shift (uiH a)) (drop_bit shift (uiL a) OR push_bit (INT_BITS - shift) (uiH a)))"

text \<open>The right shift of the signed high word is arithmetic.\<close>

definition ashrdi3 :: "u64 \<Rightarrow> nat \<Rightarrow> u64" where
  "ashrdi3 a shift =
     (if shift = 0 then a
      else if shift \<ge> INT_BITS
      then let s = signed_drop_bit 1 (signed_drop_bit (INT_BITS - 1) (uiH a))
           in uu s (signed_drop_bit (shift - INT_BITS) (uiH a))
      else uu (signed_drop_bit shift (uiH a))
             (drop_bit shift (uiL a) OR push_bit (INT_BITS - shift) (uiH a)))"

section \<open>Addition and comparison\<close>

definition adddi3 :: "u64 \<Rightarrow> u64 \<Rightarrow> u64" where
  "adddi3 a b =
     (let l = uiL a + uiL b in uu (uiH a + uiH b + of_bool (l < uiL b)) l)"

definition subdi3 :: "u64 \<Rightarrow> u64 \<Rightarrow> u64" where
  "subdi3 a b =
     (let l = uiL a - uiL b in uu (uiH a - uiH b - of_bool (l > uiL a)) l)"

definition negdi2 :: "u64 \<Rightarrow> u64" where
  "negdi2 a = (let l = - uiL a in uu (- uiH a - of_bool (l > 0)) l)"

definition cmpdi2 :: "u64 \<Rightarrow> u64 \<Rightarrow> int" where
  "cmpdi2 a b =
     (if sint (uiH a) < sint (uiH b) then 0 else if sint (uiH a) > sint (uiH b) then 2
      else if uiL a < uiL b then 0 else if uiL a > uiL b then 2 else 1)"

definition ucmpdi2 :: "u64 \<Rightarrow> u64 \<Rightarrow> int" where
  "ucmpdi2 a b =
     (if uiH a < uiH b then 0 else if uiH a > uiH b then 2
      else if uiL a < uiL b then 0 else if uiL a > uiL b then 2 else 1)"

section \<open>Multiplication\<close>

definition lmulq :: "u32 \<Rightarrow> u32 \<Rightarrow> u64" where
  "lmulq u v =
     (let u1 = HHALF u; u0 = LHALF u; v1 = HHALF v; v0 = LHALF v;
          low = u0 * v0
      in if u1 = 0 \<and> v1 = 0 then ucast low
         else
           let (udiff, neg) = (if u1 \<ge> u0 then (u1 - u0, False) else (u0 - u1, True));
               (vdiff, neg) = (if v0 \<ge> v1 then (v0 - v1, neg) else (v1 - v0, \<not> neg));
               mid = udiff * vdiff;
               high = u1 * v1;
               prodh = high + HHALF high;
               prodl = LHUP high;
               (prodh, prodl) =
                 (if neg then let was = prodl; prodl = prodl - LHUP mid
                              in (prodh - (HHALF mid + of_bool (prodl > was)), prodl)
                  else let was = prodl; prodl = prodl + LHUP mid
                       in (prodh + (HHALF mid + of_bool (prodl < was)), prodl));
               was = prodl;
               prodl = prodl + LHUP low;
               prodh = prodh + (HHALF low + of_bool (prodl < was));
               prodl = prodl + low;
               prodh = (if prodl < low then prodh + 1 else prodh)
           in uu prodh prodl)"

text \<open>The product of the two magnitudes, modulo \<open>2 ^ 64\<close>.\<close>

definition mul_mags :: "u64 \<Rightarrow> u64 \<Rightarrow> u64" where
  "mul_mags u v =
     (let u1 = uiH u; u0 = uiL u; v1 = uiH v; v0 = uiL v
      in if u1 = 0 \<and> v1 = 0 then lmulq u0 v0
         else
           let low = lmulq u0 v0;
               (negmid, udiff) = (if u1 \<ge> u0 then (False, u1 - u0) else (True, u0 - u1));
               (negmid, vdiff) = (if v0 \<ge> v1 then (negmid, v0 - v1) else (\<not> negmid, v1 - v0));
               mid = udiff * vdiff;
               high = u1 * v1
           in uu (high + (if negmid then - mid else mid) + uiL low + uiH low) (uiL low))"

definition muldi3 :: "u64 \<Rightarrow> u64 \<Rightarrow> u64" where
  "muldi3 a b =
     (let (u, negall) = (if sint a \<ge> 0 then (a, False) else (- a, True));
          (v, negall) = (if sint b \<ge> 0 then (b, negall) else (- b, \<not> negall));
          prod = mul_mags u v
      in if negall then - prod else prod)"

section \<open>The two halves\<close>

lemma bit_uiH: "bit (uiH a) n \<longleftrightarrow> n < 32 \<and> bit a (n + 32)"
  by (auto simp: uiH_def bit_ucast_iff bit_drop_bit_eq add.commute [of 32])

lemma bit_uiL: "bit (uiL a) n \<longleftrightarrow> n < 32 \<and> bit a n"
  by (simp add: uiL_def bit_ucast_iff)

lemma bit_uu: "bit (uu h l) n \<longleftrightarrow> (if n < 32 then bit l n else bit h (n - 32))"
  using bit_imp_le_length [of l n] bit_imp_le_length [of h "n - 32"]
  by (auto simp: uu_def bit_or_iff bit_push_bit_iff bit_ucast_iff)

lemmas half_bits = bit_uiH bit_uiL bit_uu

lemma uu_halves [simp]: "uu (uiH a) (uiL a) = a"
  by (rule bit_word_eqI) (auto simp: half_bits)

lemma uiH_uu [simp]: "uiH (uu h l) = h"
  by (rule bit_word_eqI) (auto simp: half_bits)

lemma uiL_uu [simp]: "uiL (uu h l) = l"
  by (rule bit_word_eqI) (auto simp: half_bits)

lemma anddi3_eq: "anddi3 a b = a AND b"
  by (rule bit_word_eqI) (auto simp: anddi3_def half_bits bit_and_iff)

lemma iordi3_eq: "iordi3 a b = a OR b"
  by (rule bit_word_eqI) (auto simp: iordi3_def half_bits bit_or_iff)

lemma xordi3_eq: "xordi3 a b = a XOR b"
  by (rule bit_word_eqI) (auto simp: xordi3_def half_bits bit_xor_iff)

lemma one_cmpldi2_eq: "one_cmpldi2 a = NOT a"
  by (rule bit_word_eqI) (auto simp: one_cmpldi2_def half_bits bit_not_iff)

lemma ashldi3_eq: "shift < 64 \<Longrightarrow> ashldi3 a shift = push_bit shift a"
  by (rule bit_word_eqI)
    (auto simp: ashldi3_def INT_BITS_def half_bits bit_push_bit_iff bit_drop_bit_eq bit_or_iff)

lemma lshldi3_eq: "shift < 64 \<Longrightarrow> lshldi3 a shift = push_bit shift a"
  using ashldi3_eq by (simp add: ashldi3_def lshldi3_def)

lemma lshrdi3_eq: "shift < 64 \<Longrightarrow> lshrdi3 a shift = drop_bit shift a"
  by (rule bit_word_eqI)
    (auto simp: lshrdi3_def INT_BITS_def half_bits bit_push_bit_iff bit_drop_bit_eq bit_or_iff add.commute [of shift]
      dest: bit_imp_le_length)

lemma bit_signed_drop_bit_32:
  "bit (signed_drop_bit k (w :: u32)) n \<longleftrightarrow> n < 32 \<and> bit w (if 31 \<le> k + n then 31 else k + n)"
  using bit_imp_le_length [of w "k + n"] by (cases "k + n = 31") (auto simp: bit_signed_drop_bit_iff)

lemma bit_signed_drop_bit_64:
  "bit (signed_drop_bit k (w :: u64)) n \<longleftrightarrow> n < 64 \<and> bit w (if 63 \<le> k + n then 63 else k + n)"
  using bit_imp_le_length [of w "k + n"] by (cases "k + n = 63") (auto simp: bit_signed_drop_bit_iff)

lemma ashrdi3_eq:
  assumes "shift < 64"
  shows "ashrdi3 a shift = signed_drop_bit shift a"
proof (rule bit_word_eqI)
  fix n
  assume n: "n < LENGTH(64)"
  show "bit (ashrdi3 a shift) n = bit (signed_drop_bit shift a) n"
  proof (cases "shift = 0")
    case True
    then show ?thesis by (simp add: ashrdi3_def)
  next
    case False
    then show ?thesis
      using n assms
      by (auto simp: ashrdi3_def INT_BITS_def half_bits bit_push_bit_iff bit_drop_bit_eq bit_or_iff Let_def
          bit_signed_drop_bit_32 bit_signed_drop_bit_64 add.commute [of n shift])
        (metis le_add_diff_inverse2 linorder_not_less)
  qed
qed

section \<open>Arithmetic on the two halves\<close>

lemma uu_sum: "uu h l = 2 ^ 32 * ucast h + ucast l"
proof -
  have "push_bit 32 (ucast h :: u64) AND ucast l = 0"
    by (rule bit_word_eqI) (auto simp: bit_and_iff bit_push_bit_iff bit_ucast_iff dest: bit_imp_le_length)
  then have "uu h l = push_bit 32 (ucast h) + ucast l" by (simp add: uu_def disjunctive_add_eq_or)
  then show ?thesis by (simp add: push_bit_eq_mult mult.commute)
qed

lemma halves_sum: "a = 2 ^ 32 * ucast (uiH a) + ucast (uiL a)"
  using uu_sum [of "uiH a" "uiL a"] by simp

text \<open>Multiplied by \<open>2 ^ 32\<close>, a 32-bit word matters only modulo \<open>2 ^ 32\<close>.\<close>

lemma exp_64: "(2 ^ 32 * 2 ^ 32 :: u64) = 0"
proof -
  have "(2 ^ 32 * 2 ^ 32 :: u64) = 2 ^ LENGTH(64)" by (simp flip: power_add)
  then show ?thesis by (simp only: word_exp_length_eq_0)
qed

lemma high_of_int: "2 ^ 32 * (ucast (of_int k :: u32) :: u64) = 2 ^ 32 * of_int k"
proof -
  have k: "k = k mod 2 ^ 32 + 2 ^ 32 * (k div 2 ^ 32)" by simp
  have "(2 ^ 32 * of_int k :: u64) = 2 ^ 32 * of_int (k mod 2 ^ 32) + 2 ^ 32 * (2 ^ 32 * of_int (k div 2 ^ 32))"
    by (subst k) (simp only: of_int_add of_int_mult of_int_power of_int_numeral distrib_left)
  also have "\<dots> = 2 ^ 32 * of_int (k mod 2 ^ 32)"
    by (simp only: mult.assoc [symmetric] exp_64 mult_zero_left add_0_right)
  also have "(of_int (k mod 2 ^ 32) :: u64) = ucast (of_int k :: u32)"
    by (simp add: unsigned_of_int take_bit_eq_mod)
  finally show ?thesis by simp
qed

lemma unat_ucast_64: "unat (ucast (x :: u32) :: u64) = unat x"
proof -
  have "unat x < 2 ^ 64" using unsigned_less [of x, where 'a = nat] by simp
  then show ?thesis by (simp add: unsigned_ucast_eq take_bit_nat_eq_self)
qed

lemma ucast_of_uint: "of_int (uint (x :: u32)) = (ucast x :: u64)"
  by (simp add: word_uint_eq_iff take_bit_int_eq_self unsigned_of_int) 

lemma high_add: "2 ^ 32 * (ucast (x + y :: u32) :: u64) = 2 ^ 32 * ucast x + 2 ^ 32 * ucast y"
  using high_of_int [of "uint x + uint y"] by (simp add: ucast_of_uint algebra_simps)

lemma high_diff: "2 ^ 32 * (ucast (x - y :: u32) :: u64) = 2 ^ 32 * ucast x - 2 ^ 32 * ucast y"
  using high_of_int [of "uint x - uint y"] by (simp add: ucast_of_uint algebra_simps)

lemma high_minus: "2 ^ 32 * (ucast (- x :: u32) :: u64) = - (2 ^ 32 * ucast x)"
  using high_diff [of 0 x] by simp

lemma high_mult: "2 ^ 32 * (ucast (x * y :: u32) :: u64) = 2 ^ 32 * (ucast x * ucast y)"
  using high_of_int [of "uint x * uint y"] by (simp add: ucast_of_uint)

lemma high_of_bool: "(ucast (of_bool b :: u32) :: u64) = of_bool b"
  by simp

lemmas high_simps = high_add high_diff high_minus high_mult high_of_bool

lemma low_add: "(ucast (x + y :: u32) :: u64) = ucast x + ucast y - 2 ^ 32 * of_bool (x + y < y)"
proof -
  have b: "unat x < 2 ^ 32" "unat y < 2 ^ 32" using unsigned_less [of x, where 'a = nat] unsigned_less [of y, where 'a = nat] by simp_all
  have s: "unat (ucast x + ucast y :: u64) = unat x + unat y"
    using b by (simp add: unat_word_ariths unat_ucast_64)
  show ?thesis
  proof (cases "unat x + unat y < 2 ^ 32")
    case True
    then have e: "unat (x + y) = unat x + unat y" by (simp add: unat_word_ariths)
    then have "\<not> x + y < y" by (simp add: word_less_nat_alt)
    then show ?thesis using e s by (simp add: word_unat_eq_iff unat_ucast_64)
  next
    case False
    then have e: "unat (x + y) = unat x + unat y - 2 ^ 32"
      using b by (simp add: unat_word_ariths mod_if)
    then have "unat (x + y) < unat y" using b False by linarith
    then have "x + y < y" by (simp add: word_less_nat_alt)
    moreover have "(2 ^ 32 :: u64) \<le> ucast x + ucast y" using False s by (simp add: word_le_nat_alt)
    then have "unat (ucast x + ucast y - 2 ^ 32 :: u64) = unat x + unat y - 2 ^ 32"
      using s by (simp add: unat_sub)
    ultimately show ?thesis using e by (simp add: word_unat_eq_iff unat_ucast_64)
  qed
qed

lemma low_diff: "(ucast (x - y :: u32) :: u64) = ucast x - ucast y + 2 ^ 32 * of_bool (x - y > x)"
proof -
  have "x < y \<longleftrightarrow> x - y > x"
    using unsigned_less [of x, where 'a = nat] unsigned_less [of y, where 'a = nat]
    by (auto simp: word_less_nat_alt unat_sub_if')
  moreover have "(ucast x :: u64) = ucast (x - y) + ucast y - 2 ^ 32 * of_bool (x < y)"
    using low_add [of "x - y" y] by simp
  ultimately show ?thesis by (simp add: algebra_simps)
qed

lemma adddi3_eq: "adddi3 a b = a + b"
proof -
  have "adddi3 a b = 2 ^ 32 * ucast (uiH a) + ucast (uiL a) + (2 ^ 32 * ucast (uiH b) + ucast (uiL b))"
    unfolding adddi3_def Let_def uu_sum high_simps by (simp only: low_add) (simp add: algebra_simps)
  then show ?thesis by (simp only: halves_sum [symmetric])
qed

lemma subdi3_eq: "subdi3 a b = a - b"
proof -
  have "subdi3 a b = 2 ^ 32 * ucast (uiH a) + ucast (uiL a) - (2 ^ 32 * ucast (uiH b) + ucast (uiL b))"
    unfolding subdi3_def Let_def uu_sum high_simps by (simp only: low_diff) (simp add: algebra_simps)
  then show ?thesis by (simp only: halves_sum [symmetric])
qed

lemma negdi2_eq: "negdi2 a = - a"
proof -
  have "negdi2 a = subdi3 0 a" by (simp add: negdi2_def subdi3_def uiH_def uiL_def)
  then show ?thesis by (simp add: subdi3_eq)
qed

section \<open>Comparison\<close>

lemma unat_uu: "unat (uu h l) = unat h * 2 ^ 32 + unat l"
proof -
  have b: "unat h < 2 ^ 32" "unat l < 2 ^ 32" using unsigned_less [of h, where 'a = nat] unsigned_less [of l, where 'a = nat] by simp_all
  then have "unat h * 2 ^ 32 + unat l < 2 ^ 64" by simp
  then show ?thesis using b by (simp add: uu_sum unat_word_ariths unat_ucast_64)
qed

lemma unat_halves: "unat a = unat (uiH a) * 2 ^ 32 + unat (uiL a)"
  using unat_uu [of "uiH a" "uiL a"] by simp

lemma ucmpdi2_eq: "ucmpdi2 a b = (if a < b then 0 else if a = b then 1 else 2)"
proof -
  have l: "unat (uiL a) < 2 ^ 32" "unat (uiL b) < 2 ^ 32"
    using unsigned_less [of "uiL a", where 'a = nat] unsigned_less [of "uiL b", where 'a = nat] by simp_all
  show ?thesis
    using l unat_halves [of a] unat_halves [of b]
    by (auto simp: ucmpdi2_def word_less_nat_alt word_unat_eq_iff)
qed

lemma sint_halves: "sint a = sint (uiH a) * 2 ^ 32 + uint (uiL a)"
proof -
  have u: "uint a = uint (uiH a) * 2 ^ 32 + uint (uiL a)"
    using arg_cong [OF unat_halves [of a], of int] by simp
  have "bit a 63 \<longleftrightarrow> bit (uiH a) 31" by (simp add: bit_uiH)
  moreover have "sint a = uint a - (if bit a 63 then 2 ^ 64 else 0)"
    using unsigned_less [of a, where 'a = int]
    by (simp add: sint_uint signed_take_bit_eq_take_bit_minus take_bit_int_eq_self bit_uint_iff)
  moreover have "sint (uiH a) = uint (uiH a) - (if bit (uiH a) 31 then 2 ^ 32 else 0)"
    using unsigned_less [of "uiH a", where 'a = int]
    by (simp add: sint_uint signed_take_bit_eq_take_bit_minus take_bit_int_eq_self bit_uint_iff)
  ultimately show ?thesis using u by (cases "bit (uiH a) 31") simp_all
qed

lemma two_digits_less:
  assumes "0 \<le> l" "l < M" "0 \<le> l'" "l' < (M :: int)"
  shows "h * M + l < h' * M + l' \<longleftrightarrow> h < h' \<or> h = h' \<and> l < l'"
proof -
  have "x * M + M \<le> y * M" if "x < y" for x y
    using mult_right_mono [of "x + 1" y M] that assms by (simp add: algebra_simps)
  then show ?thesis using assms by (cases h h' rule: linorder_cases) fastforce+
qed

lemma cmpdi2_eq: "cmpdi2 a b = (if sint a < sint b then 0 else if a = b then 1 else 2)"
proof -
  have l: "0 \<le> uint (uiL a)" "uint (uiL a) < 2 ^ 32" "0 \<le> uint (uiL b)" "uint (uiL b) < 2 ^ 32"
    using unsigned_less [of "uiL a", where 'a = int] unsigned_less [of "uiL b", where 'a = int] by simp_all
  have "a = b \<longleftrightarrow> sint (uiH a) = sint (uiH b) \<and> uint (uiL a) = uint (uiL b)"
    by (metis uu_halves signed_word_eqI word_uint_eq_iff)
  moreover have "sint a < sint b \<longleftrightarrow> sint (uiH a) < sint (uiH b) \<or> sint (uiH a) = sint (uiH b) \<and> uint (uiL a) < uint (uiL b)"
    unfolding sint_halves [of a] sint_halves [of b] by (rule two_digits_less [OF l])
  ultimately show ?thesis by (auto simp: cmpdi2_def word_less_def)
qed

section \<open>Multiplication is multiplication\<close>

lemma LHALF_take_bit: "LHALF x = take_bit 16 x"
  by (simp add: LHALF_def HALF_BITS_def take_bit_eq_mask mask_eq_exp_minus_1 push_bit_eq_mult)

lemma half_sum: "x = 2 ^ 16 * HHALF x + LHALF x"
  using bits_ident [of 16 x]
  by (simp add: HHALF_def LHALF_take_bit HALF_BITS_def push_bit_eq_mult mult.commute)

lemma unat_HHALF: "unat (HHALF x) < 2 ^ 16"
  using unsigned_less [of x, where 'a = nat]
  by (simp add: HHALF_def HALF_BITS_def unat_drop_bit_eq drop_bit_eq_div unat_div_distrib div_less_iff_less_mult)

lemma unat_LHALF: "unat (LHALF x) < 2 ^ 16"
  by (simp add: LHALF_take_bit unsigned_take_bit_eq take_bit_eq_mod unat_mod_distrib)

lemma ucast_mult_half:
  assumes "unat (x :: u32) < 2 ^ 16" "unat y < 2 ^ 16"
  shows "(ucast (x * y) :: u64) = ucast x * ucast y"
proof -
  have p: "unat x * unat y < 2 ^ 32"
    using mult_strict_mono [of "unat x" "2 ^ 16" "unat y" "2 ^ 16"] assms by simp
  then have "unat (x * y) = unat x * unat y" by (simp add: unat_word_ariths)
  moreover have "unat (ucast x * ucast y :: u64) = unat x * unat y"
    using p by (simp add: unat_word_ariths unat_ucast_64)
  ultimately show ?thesis by (simp add: word_unat_eq_iff unat_ucast_64)
qed

lemma ucast_half_sum: "(ucast x :: u64) = 2 ^ 16 * ucast (HHALF x) + ucast (LHALF x)"
proof -
  have b: "unat (HHALF x) < 2 ^ 16" "unat (LHALF x) < 2 ^ 16" using unat_HHALF unat_LHALF by auto
  have "unat x = 2 ^ 16 * unat (HHALF x) + unat (LHALF x)"
  proof -
    have "unat x = unat (2 ^ 16 * HHALF x + LHALF x)" by (rule arg_cong [OF half_sum])
    also have "\<dots> = 2 ^ 16 * unat (HHALF x) + unat (LHALF x)" using b by (simp add: unat_word_ariths)
    finally show ?thesis .
  qed
  moreover have "unat (2 ^ 16 * ucast (HHALF x) + ucast (LHALF x) :: u64) = 2 ^ 16 * unat (HHALF x) + unat (LHALF x)"
    using b by (simp add: unat_word_ariths unat_ucast_64)
  ultimately show ?thesis by (simp add: word_unat_eq_iff unat_ucast_64)
qed

text \<open>A 32-bit word shifted by half its width, as high and low words.\<close>

lemma uu_shift: "uu (HHALF x) (LHUP x) = 2 ^ 16 * ucast x"
proof -
  have "uu (HHALF x) (LHUP x) = push_bit 16 (ucast x)"
    by (rule bit_word_eqI)
      (auto simp: bit_uu HHALF_def LHUP_def HALF_BITS_def bit_drop_bit_eq bit_push_bit_iff bit_ucast_iff
        dest: bit_imp_le_length)
  then show ?thesis by (simp add: push_bit_eq_mult mult.commute)
qed

lemma uu_add: "uu (h + (h' + of_bool (l + l' < l))) (l + l') = uu h l + uu h' l'"
  unfolding uu_sum high_simps using low_add [of l' l] by (simp add: add.commute [of l'] algebra_simps)

lemma uu_diff: "uu (h - (h' + of_bool (l - l' > l))) (l - l') = uu h l - uu h' l'"
  unfolding uu_sum high_simps using low_diff [of l l'] by (simp add: algebra_simps)

lemma uu_add_low: "uu (if l + x < x then h + 1 else h) (l + x) = uu h l + ucast x"
proof -
  have "uu (if l + x < x then h + 1 else h) (l + x) = uu (h + of_bool (l + x < x)) (l + x)" by simp
  also have "\<dots> = uu h l + ucast x" unfolding uu_sum high_simps using low_add [of l x] by (simp add: algebra_simps)
  finally show ?thesis .
qed

lemma ucast_diff_le: "x \<le> y \<Longrightarrow> (ucast (y - x :: u32) :: u64) = ucast y - ucast x"
  using low_diff [of y x] by (simp add: word_less_nat_alt word_le_nat_alt unat_sub)

lemma lmulq_eq: "lmulq u v = ucast u * ucast v"
proof -
  let ?u1 = "HHALF u" and ?u0 = "LHALF u" and ?v1 = "HHALF v" and ?v0 = "LHALF v"
  note b = unat_HHALF [of u] unat_LHALF [of u] unat_HHALF [of v] unat_LHALF [of v]
  have low: "(ucast (?u0 * ?v0) :: u64) = ucast ?u0 * ucast ?v0" by (rule ucast_mult_half [OF b(2,4)])
  have high: "(ucast (?u1 * ?v1) :: u64) = ucast ?u1 * ucast ?v1" by (rule ucast_mult_half [OF b(1,3)])
  have hi: "uu (h + HHALF h) (LHUP h) = 2 ^ 32 * ucast h + 2 ^ 16 * ucast h" for h
    using uu_shift [of h, unfolded uu_sum] by (simp only: uu_sum high_add add.assoc)
  have fin: "2 ^ 32 * (a * c) + 2 ^ 16 * (a * c) + 2 ^ 16 * ((a - b) * (d - c)) + 2 ^ 16 * (b * d) + b * d
      = (2 ^ 16 * a + b) * (2 ^ 16 * c + d)" for a b c d :: u64
    by (simp add: algebra_simps)
  show ?thesis
  proof (cases "?u1 = 0 \<and> ?v1 = 0")
    case True
    then show ?thesis using low ucast_half_sum [of u] ucast_half_sum [of v] by (simp add: lmulq_def Let_def)
  next
    case False
    have sub: "(ucast ((x - y) * (z - w)) :: u64) = (ucast x - ucast y) * (ucast z - ucast w)"
      if "y \<le> x" "w \<le> z" "unat x < 2 ^ 16" "unat z < 2 ^ 16" for x y z w :: u32
    proof -
      have "unat (x - y) < 2 ^ 16" "unat (z - w) < 2 ^ 16"
        using that by (simp_all add: unat_sub word_le_nat_alt)
      then show ?thesis using ucast_mult_half ucast_diff_le that by simp
    qed
    consider "?u1 \<ge> ?u0" "?v0 \<ge> ?v1" | "?u1 \<ge> ?u0" "\<not> ?v0 \<ge> ?v1" | "\<not> ?u1 \<ge> ?u0" "?v0 \<ge> ?v1"
      | "\<not> ?u1 \<ge> ?u0" "\<not> ?v0 \<ge> ?v1" by blast
    then have "lmulq u v = 2 ^ 32 * (ucast ?u1 * ucast ?v1) + 2 ^ 16 * (ucast ?u1 * ucast ?v1)
        + 2 ^ 16 * ((ucast ?u1 - ucast ?u0) * (ucast ?v0 - ucast ?v1)) + 2 ^ 16 * (ucast ?u0 * ucast ?v0)
        + ucast ?u0 * ucast ?v0"
    proof cases
      case 1
      then show ?thesis
        using False b by (simp add: lmulq_def Let_def uu_add_low uu_add uu_shift hi low high sub)
    next
      case 2
      then show ?thesis
        using False b
        by (simp add: lmulq_def Let_def uu_add_low uu_add uu_diff uu_shift hi low high sub) (simp add: algebra_simps)
    next
      case 3
      then show ?thesis
        using False b
        by (simp add: lmulq_def Let_def uu_add_low uu_add uu_diff uu_shift hi low high sub) (simp add: algebra_simps)
    next
      case 4
      then show ?thesis
        using False b
        by (simp add: lmulq_def Let_def uu_add_low uu_add uu_shift hi low high sub) (simp add: algebra_simps)
    qed
    then show ?thesis using fin ucast_half_sum [of u] ucast_half_sum [of v] by simp
  qed
qed

lemma karatsuba:
  fixes K :: u64
  assumes "K * K = 0"
  shows "K * (a * c) + K * ((a - b) * (d - c)) + K * (b * d) + b * d = (K * a + b) * (K * c + d)"
proof -
  have "(K * a + b) * (K * c + d) = K * K * (a * c) + K * (a * d) + K * (b * c) + b * d"
    by (simp add: algebra_simps)
  then show ?thesis using assms by (simp add: algebra_simps)
qed

lemma mul_mags_eq: "mul_mags u v = u * v"
proof -
  have core: "uu (u1 * v1 + m + uiL low + uiH low) (uiL low) = (2 ^ 32 * ucast u1 + ucast u0) * (2 ^ 32 * ucast v1 + ucast v0)"
    if low: "low = ucast u0 * ucast v0" and m: "m = (u1 - u0) * (v0 - v1)" for u1 u0 v1 v0 m :: u32 and low :: u64
  proof -
    have l: "2 ^ 32 * ucast (uiH low) + ucast (uiL low) = low" by (rule halves_sum [symmetric])
    have ll: "2 ^ 32 * ucast (uiL low) = 2 ^ 32 * low"
      by (subst (2) halves_sum [of low])
        (simp only: distrib_left mult.assoc [symmetric] exp_64 mult_zero_left add_0)
    have md: "2 ^ 32 * (ucast m :: u64) = 2 ^ 32 * ((ucast u1 - ucast u0) * (ucast v0 - ucast v1))"
    proof -
      have d: "2 ^ 32 * (ucast (x - y :: u32) :: u64) = 2 ^ 32 * (ucast x - ucast y)" for x y
        by (simp only: high_diff right_diff_distrib)
      have "2 ^ 32 * (ucast m :: u64) = 2 ^ 32 * ucast (u1 - u0) * ucast (v0 - v1)"
        by (simp only: m high_mult mult.assoc)
      also have "\<dots> = (ucast u1 - ucast u0) * (2 ^ 32 * ucast (v0 - v1))"
        unfolding d [of u1 u0] by (simp only: mult.assoc mult.left_commute)
      also have "\<dots> = 2 ^ 32 * ((ucast u1 - ucast u0) * (ucast v0 - ucast v1))"
        unfolding d by (simp only: mult.left_commute)
      finally show ?thesis .
    qed
    have "uu (u1 * v1 + m + uiL low + uiH low) (uiL low)
        = 2 ^ 32 * (ucast u1 * ucast v1) + 2 ^ 32 * ((ucast u1 - ucast u0) * (ucast v0 - ucast v1)) + 2 ^ 32 * low + low"
      by (subst (4) l [symmetric]) (simp only: uu_sum high_add high_mult md ll add.assoc)
    then show ?thesis unfolding low karatsuba [OF exp_64] .
  qed
  let ?low = "lmulq (uiL u) (uiL v)"
  have mid: "uu (uiH u * uiH v + m + uiL ?low + uiH ?low) (uiL ?low) = u * v"
    if "m = (uiH u - uiL u) * (uiL v - uiH v)" for m
    using core [OF lmulq_eq that] by (simp only: halves_sum [symmetric])
  show ?thesis
  proof (cases "uiH u = 0 \<and> uiH v = 0")
    case True
    then have "u = ucast (uiL u)" "v = ucast (uiL v)" using halves_sum [of u] halves_sum [of v] by simp_all
    then show ?thesis using True by (simp add: mul_mags_def lmulq_eq Let_def)
  next
    case False
    have "mul_mags u v = uu (uiH u * uiH v + (uiH u - uiL u) * (uiL v - uiH v) + uiL ?low + uiH ?low) (uiL ?low)"
    proof -
      have m: "(uiH u - uiL u) * (uiL v - uiH v) = (uiL u - uiH u) * (uiH v - uiL v)"
        "- ((uiH u - uiL u) * (uiH v - uiL v)) = (uiH u - uiL u) * (uiL v - uiH v)"
        "- ((uiL u - uiH u) * (uiL v - uiH v)) = (uiH u - uiL u) * (uiL v - uiH v)"
        by (simp_all add: algebra_simps)
      show ?thesis
        by (cases "uiL u \<le> uiH u"; cases "uiH v \<le> uiL v")
          (simp_all only: mul_mags_def Let_def False m if_True if_False prod.case not_True_eq_False not_False_eq_True)
    qed
    then show ?thesis using mid [OF refl] by simp
  qed
qed

lemma muldi3_eq: "muldi3 a b = a * b"
  by (simp add: muldi3_def Let_def mul_mags_eq)

end
