(* ===== verification/QDivRem.thy ===== *)
theory QDivRem
  imports LongLong
begin

unbundle bit_operations_syntax

text \<open>
  64-bit division, \<open>common/gcc-millicode/qdivrem.c\<close>: Knuth's Algorithm D on digits in base
  \<open>2 ^ 16\<close>, and the four routines of the compiler that call it. A pointer into one of the digit
  arrays is the rest of the array from there on. The value of an array cell before it is
  written is taken as 0; the theorem shows that none is read. The normalisation loop, which
  would not end for a leading digit of 0, has fuel 16.
\<close>

section \<open>The code\<close>

definition BASE :: u32 where "BASE = push_bit HALF_BITS 1"

definition COMBINE :: "u32 \<Rightarrow> u32 \<Rightarrow> u32" where
  "COMBINE a b = push_bit HALF_BITS a OR b"

text \<open>\<open>shl\<close>: shift \<open>p[0] .. p[len]\<close> left, from digit \<open>i\<close> on.\<close>

fun shl_from :: "nat \<Rightarrow> nat \<Rightarrow> nat \<Rightarrow> u16 list \<Rightarrow> u16 list" where
  "shl_from 0 i sh p = p[i := ucast (LHALF (push_bit sh (ucast (p ! i))))]"
| "shl_from (Suc k) i sh p =
     shl_from k (Suc i) sh
       (p[i := ucast (LHALF (push_bit sh (ucast (p ! i))) OR drop_bit (HALF_BITS - sh) (ucast (p ! Suc i)))])"

definition shl :: "nat \<Rightarrow> nat \<Rightarrow> u16 list \<Rightarrow> u16 list" where
  "shl len sh p = shl_from len 0 sh p"

text \<open>The number of leading zero digits, by which a pointer is advanced.\<close>

fun lead_zeros :: "u16 list \<Rightarrow> nat" where
  "lead_zeros [] = 0"
| "lead_zeros (d # ds) = (if d = 0 then Suc (lead_zeros ds) else 0)"

fun norm_loop :: "nat \<Rightarrow> u32 \<Rightarrow> nat \<Rightarrow> nat res" where
  "norm_loop 0 t d = Inl Diverge"
| "norm_loop (Suc fuel) t d = (if t < BASE div 2 then norm_loop fuel (push_bit 1 t) (Suc d) else Inr d)"

text \<open>Step D3: the trial digit.\<close>

function qhat_loop :: "u32 \<Rightarrow> u32 \<Rightarrow> u32 \<Rightarrow> u32 \<Rightarrow> u32 \<Rightarrow> u32" where
  "qhat_loop v1 v2 uj2 qhat rhat =
     (if v2 * qhat > COMBINE rhat uj2
      then let qhat = qhat - 1; rhat = rhat + v1
           in if rhat \<ge> BASE then qhat else qhat_loop v1 v2 uj2 qhat rhat
      else qhat)"
  by pat_completeness auto
termination
proof (relation "measure (\<lambda>(v1, v2, uj2, qhat, rhat). unat qhat)")
  fix v1 v2 uj2 qhat rhat x xa :: u32
  assume "COMBINE rhat uj2 < v2 * qhat" "x = qhat - 1"
  then have "qhat \<noteq> 0" by auto
  then have "unat (qhat - 1) < unat qhat" by (simp add: measure_unat)
  then show "((v1, v2, uj2, x, xa), (v1, v2, uj2, qhat, rhat)) \<in> measure (\<lambda>(v1, v2, uj2, qhat, rhat). unat qhat)"
    using \<open>x = qhat - 1\<close> by simp
qed simp

declare qhat_loop.simps [simp del]

definition trial :: "u32 \<Rightarrow> u32 \<Rightarrow> u32 \<Rightarrow> u32 \<Rightarrow> u32 \<Rightarrow> u32" where
  "trial v1 v2 uj0 uj1 uj2 =
     (if uj0 = v1
      then let qhat = BASE - 1; rhat = uj1 + v1
           in if rhat \<ge> BASE then qhat else qhat_loop v1 v2 uj2 qhat rhat
      else let nn = COMBINE uj0 uj1 in qhat_loop v1 v2 uj2 (nn div v1) (nn mod v1))"

text \<open>Steps D4 and D6: multiply and subtract, and add back; \<open>i\<close> digits are left.\<close>

fun mulsub :: "nat \<Rightarrow> nat \<Rightarrow> u32 \<Rightarrow> u16 list \<Rightarrow> u32 \<Rightarrow> u16 list \<Rightarrow> u32 \<times> u16 list" where
  "mulsub 0 j qhat v t u = (t, u)"
| "mulsub (Suc i) j qhat v t u =
     (let t = ucast (u ! (Suc i + j)) - ucast (v ! Suc i) * qhat - t;
          u = u[Suc i + j := ucast (LHALF t)];
          t = (BASE - HHALF t) AND (BASE - 1)
      in mulsub i j qhat v t u)"

fun addback :: "nat \<Rightarrow> nat \<Rightarrow> u16 list \<Rightarrow> u32 \<Rightarrow> u16 list \<Rightarrow> u32 \<times> u16 list" where
  "addback 0 j v t u = (t, u)"
| "addback (Suc i) j v t u =
     (let t = t + (ucast (u ! (Suc i + j)) + ucast (v ! Suc i));
          u = u[Suc i + j := ucast (LHALF t)];
          t = HHALF t
      in addback i j v t u)"

text \<open>One round of the main loop, D3 to D6.\<close>

definition div_step :: "nat \<Rightarrow> u16 list \<Rightarrow> nat \<Rightarrow> u16 list \<Rightarrow> u32 \<times> u16 list" where
  "div_step n v j u =
     (let qhat = trial (ucast (v ! 1)) (ucast (v ! 2)) (ucast (u ! j)) (ucast (u ! (j + 1))) (ucast (u ! (j + 2)));
          (t, u) = mulsub n j qhat v 0 u;
          t = ucast (u ! j) - t;
          u = u[j := ucast (LHALF t)]
      in if HHALF t \<noteq> 0
         then let qhat = qhat - 1;
                  (t, u) = addback n j v 0 u
              in (qhat, u[j := ucast (LHALF (ucast (u ! j) + t))])
         else (qhat, u))"

fun div_loop :: "nat \<Rightarrow> nat \<Rightarrow> nat \<Rightarrow> u16 list \<Rightarrow> u16 list \<Rightarrow> u16 list \<Rightarrow> u16 list \<times> u16 list" where
  "div_loop 0 j n v u q = (u, q)"
| "div_loop (Suc k) j n v u q =
     (let (qhat, u) = div_step n v j u in div_loop k (Suc j) n v u (q[j := ucast qhat]))"

text \<open>The remainder is shifted back, from the last digit down to digit \<open>m + 1\<close>.\<close>

fun shr_loop :: "nat \<Rightarrow> nat \<Rightarrow> nat \<Rightarrow> u16 list \<Rightarrow> u16 list" where
  "shr_loop 0 m d u = u[m := 0]"
| "shr_loop (Suc k) m d u =
     shr_loop k m d (u[m + Suc k := ucast (drop_bit d (ucast (u ! (m + Suc k)))
        OR LHALF (push_bit (HALF_BITS - d) (ucast (u ! (m + k)))))])"

definition digits4 :: "u64 \<Rightarrow> u16 list" where
  "digits4 x = [0, ucast (HHALF (uiH x)), ucast (LHALF (uiH x)), ucast (HHALF (uiL x)), ucast (LHALF (uiL x))]"

definition undigits4 :: "u16 list \<Rightarrow> u64" where
  "undigits4 x = uu (COMBINE (ucast (x ! 1)) (ucast (x ! 2))) (COMBINE (ucast (x ! 3)) (ucast (x ! 4)))"

text \<open>A divisor of one digit.\<close>

definition short_div :: "u16 list \<Rightarrow> u32 \<Rightarrow> u64 \<times> u64" where
  "short_div u t =
     (let q1 = ucast ((ucast (u ! 1) :: u32) div t) :: u16;
          rbj = COMBINE (ucast (u ! 1) mod t) (ucast (u ! 2));
          q2 = ucast (rbj div t) :: u16;
          rbj = COMBINE (rbj mod t) (ucast (u ! 3));
          q3 = ucast (rbj div t) :: u16;
          rbj = COMBINE (rbj mod t) (ucast (u ! 4));
          q4 = ucast (rbj div t) :: u16
      in (uu (COMBINE (ucast q1) (ucast q2)) (COMBINE (ucast q3) (ucast q4)), ucast (rbj mod t)))"

definition qdivrem :: "u64 \<Rightarrow> u64 \<Rightarrow> (u64 \<times> u64) res" where
  "qdivrem ull vll =
     (if vll = 0 then Inl DivZero
      else if ull < vll then Inr (0, ull)
      else
        let uspace = digits4 ull;
            vspace = digits4 vll;
            vo = lead_zeros (tl vspace)
        in if vo \<ge> 3 then Inr (short_div uspace (ucast (vspace ! 4)))
           else
             let n = 4 - vo;
                 v = drop vo vspace;
                 uo = lead_zeros (tl uspace);
                 u = drop uo uspace;
                 m = 4 - n - uo
             in rbind (norm_loop 16 (ucast (v ! 1)) 0) (\<lambda>d.
                let u = (if d > 0 then shl (m + n) d u else u);
                    v = (if d > 0 then v ! 0 # shl (n - 1) d (tl v) else v);
                    (u, q) = div_loop (Suc m) 0 n v u (replicate (Suc m) 0);
                    u = (if d > 0 then shr_loop n m d u else u)
                in Inr (undigits4 (replicate (4 - m) 0 @ q), undigits4 (take uo uspace @ u))))"

definition udivdi3 :: "u64 \<Rightarrow> u64 \<Rightarrow> u64 res" where
  "udivdi3 a b = rbind (qdivrem a b) (\<lambda>(q, r). Inr q)"

definition umoddi3 :: "u64 \<Rightarrow> u64 \<Rightarrow> u64 res" where
  "umoddi3 a b = rbind (qdivrem a b) (\<lambda>(q, r). Inr r)"

definition divdi3 :: "u64 \<Rightarrow> u64 \<Rightarrow> u64 res" where
  "divdi3 a b =
     (let (ua, neg) = (if sint a < 0 then (- a, True) else (a, False));
          (ub, neg) = (if sint b < 0 then (- b, \<not> neg) else (b, neg))
      in rbind (qdivrem ua ub) (\<lambda>(uq, r). Inr (if neg then - uq else uq)))"

definition moddi3 :: "u64 \<Rightarrow> u64 \<Rightarrow> u64 res" where
  "moddi3 a b =
     (let (ua, neg) = (if sint a < 0 then (- a, True) else (a, False));
          ub = (if sint b < 0 then - b else b)
      in rbind (qdivrem ua ub) (\<lambda>(uq, ur). Inr (if neg then - ur else ur)))"

section \<open>Digits\<close>

fun dval :: "u16 list \<Rightarrow> nat \<Rightarrow> nat \<Rightarrow> nat" where
  "dval x j 0 = 0"
| "dval x j (Suc i) = 65536 * dval x j i + unat (x ! (j + i))"

lemma unat_digit: "unat (d :: u16) < 65536"
  using unsigned_less [of d, where 'a = nat] by simp

lemma unat_ucast_digit [simp]: "unat (ucast (d :: u16) :: u32) = unat d"
  using unat_digit [of d] by (simp add: unsigned_ucast_eq take_bit_nat_eq_self)

lemma unat_LHALF_mod: "unat (LHALF x) = unat x mod 65536"
  by (simp add: LHALF_take_bit unsigned_take_bit_eq take_bit_eq_mod unat_mod_distrib)

lemma unat_HHALF_div: "unat (HHALF x) = unat x div 65536"
  by (simp add: HHALF_def HALF_BITS_def unat_drop_bit_eq drop_bit_eq_div unat_div_distrib)

lemma unat_low_digit: "unat (x :: u32) < 65536 \<Longrightarrow> unat (ucast x :: u16) = unat x"
  by (simp add: unsigned_ucast_eq take_bit_nat_eq_self)

lemma BASE_eq: "BASE = 65536"
  by (simp add: BASE_def HALF_BITS_def push_bit_eq_mult)

lemma unat_COMBINE:
  assumes "unat a < 65536" "unat b < 65536"
  shows "unat (COMBINE a b) = unat a * 65536 + unat b"
proof -
  have "push_bit 16 a AND b = 0"
  proof (rule bit_word_eqI)
    fix k
    have "\<not> bit b k" if "16 \<le> k"
      using assms(2) that by (metis bit_take_bit_iff LHALF_take_bit not_le unat_LHALF_mod mod_less word_unat_eq_iff)
    then show "bit (push_bit 16 a AND b) k = bit 0 k" by (auto simp: bit_and_iff bit_push_bit_iff)
  qed
  then have "COMBINE a b = push_bit 16 a + b" by (simp add: COMBINE_def HALF_BITS_def disjunctive_add_eq_or)
  then show ?thesis using assms by (simp add: push_bit_eq_mult unat_word_ariths)
qed

lemma dval_bound: "dval x j i < 65536 ^ i"
proof (induction i)
  case (Suc i)
  have "dval x j i + 1 \<le> 65536 ^ i" using Suc by simp
  then have "65536 * (dval x j i + 1) \<le> 65536 * 65536 ^ i" by (rule mult_le_mono2)
  then show ?case using unat_digit [of "x ! (j + i)"] by simp
qed simp

lemma dval_cong: "(\<And>k. j \<le> k \<Longrightarrow> k < j + i \<Longrightarrow> x ! k = y ! k) \<Longrightarrow> dval x j i = dval y j i"
  by (induction i) auto

lemma dval_append: "dval x j (i + k) = 65536 ^ k * dval x j i + dval x (j + i) k"
  by (induction k) (simp_all add: algebra_simps)

lemma dval_head: "dval x j (Suc i) = unat (x ! j) * 65536 ^ i + dval x (Suc j) i"
  using dval_append [of x j 1 i] by simp

section \<open>Multiply and subtract, add back\<close>

text \<open>One digit: the new digit and the borrow represent the difference.\<close>

lemma sub_digit:
  fixes q t :: u32 and x y :: u16
  assumes "unat q < 65536" "unat t < 65536"
    and w: "w = ucast x - ucast y * q - t"
  defines "b \<equiv> (BASE - HHALF w) AND (BASE - 1)"
  shows "unat b < 65536"
    "int (unat x) - int (unat y) * int (unat q) - int (unat t) = int (unat (LHALF w)) - 65536 * int (unat b)"
proof -
  let ?X = "int (unat x) - int (unat y) * int (unat q) - int (unat t)"
  have xy: "unat x < 65536" "unat y < 65536" using unat_digit by auto
  have weq: "w = of_int ?X" using w by (simp add: of_nat_mult)
  have "uint (of_int X :: u32) = X mod 4294967296" for X by (simp add: uint_word_of_int)
  then have uw: "uint w = ?X mod 4294967296" by (rule trans [OF arg_cong [OF weq]])
  have yq: "unat y * unat q \<le> 65535 * 65535" using xy assms(1) by (intro mult_le_mono) simp_all
  then have yq': "int (unat y) * int (unat q) \<le> 65535 * 65535"
    by (metis of_nat_le_iff of_nat_mult of_nat_numeral)
  have yq0: "0 \<le> int (unat y) * int (unat q)" by simp
  let ?k = "?X div 65536"
  have k: "- 65535 \<le> ?k" "?k \<le> 0"
  proof -
    have "- 4294901760 \<le> ?X" "?X < 65536" using yq' yq0 xy assms(2) by linarith+
    then show "- 65535 \<le> ?k" "?k \<le> 0" by linarith+
  qed
  have lo: "int (unat (LHALF w)) = ?X mod 65536"
    unfolding unat_LHALF_mod by (simp add: zmod_int uw mod_mod_cancel)
  have hh: "int (unat (HHALF w)) = ?k mod 65536"
  proof -
    have "int (unat (HHALF w)) = (?X mod 4294967296) div 65536"
      unfolding unat_HHALF_div by (simp add: zdiv_int uw)
    also have "\<dots> = ?k mod 65536"
      using zmod_zmult2_eq [of 65536 ?X 65536] by simp
    finally show ?thesis .
  qed
  have b: "unat b = (65536 - unat (HHALF w)) mod 65536"
  proof -
    have h: "unat (HHALF w) < 65536" using unat_HHALF [of w] by simp
    then have "unat (BASE - HHALF w) = 65536 - unat (HHALF w)"
      by (simp add: BASE_eq unat_sub word_le_nat_alt)
    moreover have "b = LHALF (BASE - HHALF w)" by (simp add: b_def LHALF_def BASE_def)
    ultimately show ?thesis by (simp add: unat_LHALF_mod)
  qed
  then show "unat b < 65536" by simp
  have "int (unat b) = - ?k"
  proof (cases "?k = 0")
    case True
    then have "int (unat (HHALF w)) = 0" using hh by (simp only: mod_0)
    then have "unat (HHALF w) = 0" by (simp only: of_nat_eq_0_iff)
    then show ?thesis using b True by simp
  next
    case False
    have "?k mod 65536 = (?k + 65536) mod 65536" by (simp only: mod_add_self2)
    also have "\<dots> = ?k + 65536" by (rule mod_pos_pos_trivial) (use k False in linarith)+
    finally have "int (unat (HHALF w)) = ?k + 65536" using hh by (simp only:)
    then have H: "int (unat (HHALF w)) = ?k + 65536" .
    then have "0 < unat (HHALF w)" using k by linarith
    then have "unat b = 65536 - unat (HHALF w)" using b by simp
    moreover have "unat (HHALF w) < 65536" using unat_HHALF [of w] by simp
    ultimately have "int (unat b) = 65536 - int (unat (HHALF w))" by linarith
    then show ?thesis using H by linarith
  qed
  moreover have "?X = ?X mod 65536 + 65536 * ?k" by simp
  ultimately show "?X = int (unat (LHALF w)) - 65536 * int (unat b)" using lo by linarith
qed

lemma mulsub_spec:
  assumes "unat t < 65536" "unat qhat < 65536" "i + j < length u" "mulsub i j qhat v t u = (t', u')"
  shows "unat t' < 65536 \<and> length u' = length u \<and> (\<forall>k. k \<le> j \<or> i + j < k \<longrightarrow> u' ! k = u ! k)
    \<and> int (dval u' (Suc j) i) - 65536 ^ i * int (unat t')
      = int (dval u (Suc j) i) - int (dval v 1 i) * int (unat qhat) - int (unat t)"
  using assms
proof (induction i arbitrary: t u)
  case (Suc i)
  define w where "w = ucast (u ! (Suc i + j)) - ucast (v ! Suc i) * qhat - t"
  define b where "b = (BASE - HHALF w) AND (BASE - 1)"
  define u1 where "u1 = u[Suc i + j := ucast (LHALF w)]"
  note sd = sub_digit [OF Suc.prems(2,1) w_def, folded b_def]
  have rec: "mulsub i j qhat v b u1 = (t', u')"
    using Suc.prems(4) by (simp add: w_def b_def u1_def Let_def)
  have IH: "unat t' < 65536" "length u' = length u1" "\<forall>k. k \<le> j \<or> i + j < k \<longrightarrow> u' ! k = u1 ! k"
      "int (dval u' (Suc j) i) - 65536 ^ i * int (unat t')
        = int (dval u1 (Suc j) i) - int (dval v 1 i) * int (unat qhat) - int (unat b)"
    using Suc.IH [OF sd(1) Suc.prems(2) _ rec] Suc.prems(3) by (simp_all add: u1_def)
  have l: "unat (LHALF w) < 65536" using unat_LHALF [of w] by simp
  have top: "u' ! (Suc j + i) = ucast (LHALF w)" using IH(3) Suc.prems(3) by (simp add: u1_def add.commute)
  have same: "dval u1 (Suc j) i = dval u (Suc j) i" by (rule dval_cong) (simp add: u1_def)
  have "int (dval u' (Suc j) (Suc i)) - 65536 ^ Suc i * int (unat t')
      = 65536 * (int (dval u' (Suc j) i) - 65536 ^ i * int (unat t')) + int (unat (LHALF w))"
    using top l by (simp add: unat_low_digit algebra_simps)
  also have "\<dots> = 65536 * (int (dval u (Suc j) i) - int (dval v 1 i) * int (unat qhat))
      + (int (unat (LHALF w)) - 65536 * int (unat b))"
    unfolding IH(4) same by (simp add: algebra_simps)
  also have "\<dots> = 65536 * (int (dval u (Suc j) i) - int (dval v 1 i) * int (unat qhat))
      + (int (unat (u ! (Suc i + j))) - int (unat (v ! Suc i)) * int (unat qhat) - int (unat t))"
    by (simp only: sd(2))
  also have "\<dots> = int (dval u (Suc j) (Suc i)) - int (dval v 1 (Suc i)) * int (unat qhat) - int (unat t)"
    by (simp add: algebra_simps)
  finally show ?case using IH(1-3) by (simp add: u1_def)
qed simp

lemma addback_spec:
  assumes "unat t \<le> 1" "i + j < length u" "addback i j v t u = (t', u')"
  shows "unat t' \<le> 1 \<and> length u' = length u \<and> (\<forall>k. k \<le> j \<or> i + j < k \<longrightarrow> u' ! k = u ! k)
    \<and> dval u' (Suc j) i + 65536 ^ i * unat t' = dval u (Suc j) i + dval v 1 i + unat t"
  using assms
proof (induction i arbitrary: t u)
  case (Suc i)
  define w where "w = t + (ucast (u ! (Suc i + j)) + ucast (v ! Suc i))"
  define u1 where "u1 = u[Suc i + j := ucast (LHALF w)]"
  have uw: "unat w = unat t + unat (u ! (Suc i + j)) + unat (v ! Suc i)"
    using unat_digit [of "u ! (Suc i + j)"] unat_digit [of "v ! Suc i"] Suc.prems(1)
    by (simp add: w_def unat_word_ariths)
  have c: "unat (HHALF w) \<le> 1"
    using uw unat_digit [of "u ! (Suc i + j)"] unat_digit [of "v ! Suc i"] Suc.prems(1)
    by (simp add: unat_HHALF_div)
  have w: "unat w = 65536 * unat (HHALF w) + unat (LHALF w)" by (simp add: unat_HHALF_div unat_LHALF_mod)
  have rec: "addback i j v (HHALF w) u1 = (t', u')"
    using Suc.prems(3) by (simp add: w_def u1_def Let_def)
  have IH: "unat t' \<le> 1" "length u' = length u1" "\<forall>k. k \<le> j \<or> i + j < k \<longrightarrow> u' ! k = u1 ! k"
      "dval u' (Suc j) i + 65536 ^ i * unat t' = dval u1 (Suc j) i + dval v 1 i + unat (HHALF w)"
    using Suc.IH [OF c _ rec] Suc.prems(2) by (simp_all add: u1_def)
  have l: "unat (LHALF w) < 65536" using unat_LHALF [of w] by simp
  have top: "u' ! (Suc j + i) = ucast (LHALF w)" using IH(3) Suc.prems(2) by (simp add: u1_def add.commute)
  have same: "dval u1 (Suc j) i = dval u (Suc j) i" by (rule dval_cong) (simp add: u1_def)
  have "dval u' (Suc j) (Suc i) + 65536 ^ Suc i * unat t'
      = 65536 * (dval u' (Suc j) i + 65536 ^ i * unat t') + unat (LHALF w)"
    using top l by (simp add: unat_low_digit algebra_simps)
  also have "\<dots> = 65536 * (dval u (Suc j) i + dval v 1 i) + unat w"
    unfolding IH(4) same w by (simp add: algebra_simps)
  also have "\<dots> = dval u (Suc j) (Suc i) + dval v 1 (Suc i) + unat t"
    unfolding uw by (simp add: algebra_simps)
  finally show ?case using IH(1-3) by (simp add: u1_def)
qed simp

section \<open>The trial digit\<close>

lemma qhat_loop_spec:
  fixes v1 v2 uj2 qhat rhat :: u32
  assumes "unat v1 < 65536" "unat v2 < 65536" "unat uj2 < 65536" "0 < unat v1"
    and "unat qhat < 65536" "unat rhat < 65536"
  shows "unat (qhat_loop v1 v2 uj2 qhat rhat) =
    min (unat qhat) (((unat qhat * unat v1 + unat rhat) * 65536 + unat uj2) div (unat v1 * 65536 + unat v2))"
  using assms
proof (induction v1 v2 uj2 qhat rhat rule: qhat_loop.induct)
  case (1 v1 v2 uj2 qhat rhat)
  let ?q = "unat qhat" and ?r = "unat rhat" and ?a = "unat v1" and ?b = "unat v2"
  let ?V = "?a * 65536 + ?b" and ?T = "(?q * ?a + ?r) * 65536 + unat uj2"
  have V: "0 < ?V" using "1.prems"(4) by simp
  have bq: "?b * ?q \<le> 65535 * 65535" using "1.prems"(2,5) by (intro mult_le_mono) simp_all
  then have prod: "unat (v2 * qhat) = ?b * ?q" by (simp add: unat_word_ariths)
  have comb: "unat (COMBINE rhat uj2) = ?r * 65536 + unat uj2"
    by (rule unat_COMBINE [OF "1.prems"(6,3)])
  have qV: "?q * ?V = ?q * ?a * 65536 + ?b * ?q" by (simp add: algebra_simps)
  have T: "?T = ?q * ?a * 65536 + (?r * 65536 + unat uj2)" by (simp add: algebra_simps)
  have C: "v2 * qhat > COMBINE rhat uj2 \<longleftrightarrow> ?T < ?q * ?V"
    unfolding word_less_nat_alt prod comb qV T by simp
  show ?case
  proof (cases "v2 * qhat > COMBINE rhat uj2")
    case False
    then have "?q \<le> ?T div ?V" using C V by (simp add: less_eq_div_iff_mult_less_eq)
    then show ?thesis using False by (simp add: qhat_loop.simps [of v1 v2 uj2 qhat rhat])
  next
    case True
    then have less: "?T div ?V < ?q" using C V by (simp add: div_less_iff_less_mult)
    then have q1: "unat (qhat - 1) = ?q - 1" by (simp add: unat_sub word_le_nat_alt)
    have r1: "unat (rhat + v1) = ?r + ?a" using "1.prems"(1,6) by (simp add: unat_word_ariths)
    have "(p - 1) * a + (r + a) = p * a + r" if "0 < p" for p a r :: nat
      using that by (cases p) simp_all
    then have T1: "(?q - 1) * ?a + (?r + ?a) = ?q * ?a + ?r" using less by (metis gr_zeroI not_less_zero)
    show ?thesis
    proof (cases "rhat + v1 \<ge> BASE")
      case big: True
      have "(?q - 1) * ?b \<le> 65535 * 65535" using "1.prems"(2,5) by (intro mult_le_mono) simp_all
      moreover have "65536 \<le> ?r + ?a" using big r1 by (simp add: BASE_eq word_le_nat_alt)
      then have "65536 * 65536 \<le> (?r + ?a) * 65536" by simp
      moreover have "?T = ((?q - 1) * ?a + (?r + ?a)) * 65536 + unat uj2" by (simp only: T1)
      ultimately have "(?q - 1) * ?V \<le> ?T" by (simp add: algebra_simps)
      then have "?q - 1 \<le> ?T div ?V" using V by (simp add: less_eq_div_iff_mult_less_eq)
      then have "?T div ?V = ?q - 1" using less by simp
      then show ?thesis using True big q1 less by (simp add: qhat_loop.simps [of v1 v2 uj2 qhat rhat] Let_def)
    next
      case False
      then have "unat (rhat + v1) < 65536" by (simp add: BASE_eq word_le_nat_alt)
      moreover have "unat (qhat - 1) < 65536" using q1 "1.prems"(5) by linarith
      ultimately have "unat (qhat_loop v1 v2 uj2 (qhat - 1) (rhat + v1)) = min (?q - 1) (?T div ?V)"
        using "1.IH" [OF True refl refl False "1.prems"(1-4)] unfolding q1 r1 T1 by blast
      then show ?thesis using True False less by (simp add: qhat_loop.simps [of v1 v2 uj2 qhat rhat] Let_def)
    qed
  qed
qed

lemma trial_spec:
  fixes v1 v2 uj0 uj1 uj2 :: u32
  assumes "unat v1 < 65536" "unat v2 < 65536" "0 < unat v1"
    and "unat uj0 \<le> unat v1" "unat uj1 < 65536" "unat uj2 < 65536"
  shows "unat (trial v1 v2 uj0 uj1 uj2) =
    min 65535 (((unat uj0 * 65536 + unat uj1) * 65536 + unat uj2) div (unat v1 * 65536 + unat v2))"
proof (cases "uj0 = v1")
  case True
  let ?V = "unat v1 * 65536 + unat v2" and ?T = "(unat uj0 * 65536 + unat uj1) * 65536 + unat uj2"
  have b: "unat (BASE - 1) = 65535" by (simp add: BASE_eq)
  have r: "unat (uj1 + v1) = unat uj1 + unat v1" using assms(1,5) by (simp add: unat_word_ariths)
  have e: "65535 * unat v1 + (unat uj1 + unat v1) = unat uj0 * 65536 + unat uj1" using True by simp
  show ?thesis
  proof (cases "uj1 + v1 \<ge> BASE")
    case big: True
    then have "65536 \<le> unat uj1 + unat v1" using r by (simp add: BASE_eq word_le_nat_alt)
    moreover have "65535 * unat v2 \<le> 65535 * 65535" using assms(2) by simp
    ultimately have "65535 * ?V \<le> ?T" using e [symmetric] by (simp add: algebra_simps)
    then have "65535 \<le> ?T div ?V" using assms(3) by (simp add: less_eq_div_iff_mult_less_eq)
    then show ?thesis using True big b by (simp add: trial_def Let_def)
  next
    case False
    then have "unat (uj1 + v1) < 65536" by (simp add: BASE_eq word_le_nat_alt)
    then show ?thesis
      using True False qhat_loop_spec [of v1 v2 uj2 "BASE - 1" "uj1 + v1"] assms b r e
      by (simp add: trial_def Let_def)
  qed
next
  case False
  let ?n = "COMBINE uj0 uj1"
  have lt: "unat uj0 < unat v1" using False assms(4) by (simp add: word_unat_eq_iff)
  have u0: "unat uj0 < 65536" using lt assms(1) by simp
  have n: "unat ?n = unat uj0 * 65536 + unat uj1" by (rule unat_COMBINE [OF u0 assms(5)])
  have "unat ?n < unat v1 * 65536"
  proof -
    have "(unat uj0 + 1) * 65536 \<le> unat v1 * 65536" using lt by (intro mult_le_mono1) simp
    then show ?thesis using n assms(5) by simp
  qed
  then have q: "unat (?n div v1) < 65536" using assms(3) by (simp add: unat_div_distrib div_less_iff_less_mult mult.commute)
  have r: "unat (?n mod v1) < 65536" using assms(1,3) by (simp add: unat_mod_distrib) (meson less_trans mod_less_divisor)
  have e: "unat (?n div v1) * unat v1 + unat (?n mod v1) = unat uj0 * 65536 + unat uj1"
    using n by (simp add: unat_div_distrib unat_mod_distrib)
  let ?D = "((unat uj0 * 65536 + unat uj1) * 65536 + unat uj2) div (unat v1 * 65536 + unat v2)"
  have spec: "unat (trial v1 v2 uj0 uj1 uj2) = min (unat (?n div v1)) ?D"
    using qhat_loop_spec [OF assms(1,2,6,3) q r] e False by (simp add: trial_def Let_def)
  have "?D \<le> unat (?n div v1)"
  proof -
    have "?D \<le> ((unat uj0 * 65536 + unat uj1) * 65536 + unat uj2) div (unat v1 * 65536)"
      using assms(3) by (intro div_le_mono2) simp_all
    also have "\<dots> = (unat uj0 * 65536 + unat uj1) div unat v1"
    proof -
      have "(X * 65536 + unat uj2) div (unat v1 * 65536) = (X * 65536 + unat uj2) div 65536 div unat v1" for X
        by (simp only: div_mult2_eq mult.commute [of "unat v1"])
      moreover have "(X * 65536 + unat uj2) div 65536 = X" for X using assms(6) by simp
      ultimately show ?thesis by (simp only:)
    qed
    finally show ?thesis using n by (simp add: unat_div_distrib)
  qed
  then show ?thesis using spec q by simp
qed

end
