(* ===== verification/DivRem.thy ===== *)
theory DivRem
  imports QDivRem
begin

unbundle bit_operations_syntax

text \<open>
  Correctness of the division of \<open>common/gcc-millicode/qdivrem.c\<close>: the trial digit is at most one
  too large, one round divides the window it works on, the loop divides the whole dividend,
  and the shifts of the normalisation cancel.
\<close>

section \<open>One round of the loop\<close>

text \<open>The trial digit computed from three digits against two is the true digit or one more.\<close>

lemma trial_quotient:
  fixes V2 :: nat
  assumes V: "V = V2 * R + v0" and W: "W = T * R + w0" "w0 < R" and "v0 < R" "65536 \<le> V2"
    and small: "W < V * 65536"
  shows "W div V \<le> min 65535 (T div V2)" "min 65535 (T div V2) \<le> W div V + 1"
proof -
  let ?q = "W div V" and ?h = "min 65535 (T div V2)"
  have V0: "0 < V" "0 < V2" "0 < R" using assms by auto
  have "?q * V2 * R \<le> ?q * V" using V by (simp add: algebra_simps)
  also have "\<dots> \<le> W" by simp
  also have "\<dots> < (T + 1) * R" using W by simp
  finally have "?q * V2 < T + 1" using V0(3) by (simp only: mult_less_cancel2)
  then have "?q \<le> T div V2" using V0 by (simp add: less_eq_div_iff_mult_less_eq)
  moreover have "?q < 65536" using small V0 by (simp add: div_less_iff_less_mult mult.commute)
  ultimately show "?q \<le> ?h" by simp
  show "?h \<le> ?q + 1"
  proof (rule ccontr)
    assume "\<not> ?thesis"
    then obtain k where k: "?h = Suc k" "?q + 1 \<le> k" by (metis Suc_le_D add_leD2 not_less_eq_eq Suc_eq_plus1)
    have "T * R \<le> W" using W by simp
    also have "W < (?q + 1) * V" using V0(1) by (metis Suc_eq_plus1 dividend_less_div_times mult.commute mult_Suc add.commute)
    also have "\<dots> \<le> k * V" using k(2) by (rule mult_le_mono1)
    also have "\<dots> \<le> k * ((V2 + 1) * R)" using V assms(4) by (intro mult_le_mono2) (simp add: algebra_simps)
    finally have "T * R < k * (V2 + 1) * R" by (simp only: mult.assoc)
    then have "T < k * (V2 + 1)" by (metis mult_less_cancel2)
    moreover have "Suc k * V2 \<le> T" using k(1) V0(2) by (metis less_eq_div_iff_mult_less_eq min.cobounded2)
    ultimately have "V2 < k" by (simp add: algebra_simps)
    then show False using k(1) assms(5) by simp
  qed
qed

lemma unat_word_diff_digit:
  fixes x t :: u32
  assumes "unat x < 65536" "unat t < 65536"
  shows "HHALF (x - t) \<noteq> 0 \<longleftrightarrow> unat x < unat t"
    "unat t = unat x + 1 \<Longrightarrow> unat (LHALF (x - t)) = 65535"
proof -
  have ge: "unat (x - t) = unat x - unat t" if "unat t \<le> unat x"
    using that by (simp add: unat_sub word_le_nat_alt)
  have lt: "unat (x - t) = 2 ^ 32 + unat x - unat t" if "unat x < unat t"
    using that by (simp add: unat_sub_if' word_le_nat_alt)
  show "HHALF (x - t) \<noteq> 0 \<longleftrightarrow> unat x < unat t"
  proof (cases "unat x < unat t")
    case True
    then have "65536 \<le> unat (x - t)" using lt assms by simp
    then have "unat (HHALF (x - t)) \<noteq> 0" by (simp add: unat_HHALF_div div_eq_0_iff)
    then show ?thesis using True by auto
  next
    case False
    then have "unat (HHALF (x - t)) = 0" using ge assms by (simp add: unat_HHALF_div)
    then show ?thesis using False by (simp add: unat_eq_0)
  qed
  show "unat (LHALF (x - t)) = 65535" if "unat t = unat x + 1"
    using lt that by (simp add: unat_LHALF_mod)
qed

text \<open>The window before the round and the number of times the divisor was taken off give the
  window after it.\<close>

lemma borrow_cases:
  fixes x t L d P V r :: int
  assumes "P * (x - t) + L = d" "0 \<le> L" "L < P" "- V \<le> d" "d < V" "V < P"
  shows "(d < 0 \<longleftrightarrow> t = x + 1) \<and> (0 \<le> d \<longleftrightarrow> t = x)"
proof -
  have P: "0 < P" using assms(2,3) by simp
  have "x - t < 1"
  proof (rule ccontr)
    assume "\<not> ?thesis"
    then have "P * 1 \<le> P * (x - t)" using P by (intro mult_left_mono) simp_all
    then show False using assms by linarith
  qed
  moreover have "-2 < x - t"
  proof (rule ccontr)
    assume "\<not> ?thesis"
    then have "P * (x - t) \<le> P * (-2)" using P by (intro mult_left_mono) simp_all
    then show False using assms by linarith
  qed
  ultimately have "x - t = 0 \<or> x - t = -1" by arith
  then show ?thesis using assms(1-3) by auto
qed

text \<open>The window \<open>W\<close> and the divisor \<open>V\<close>, in the terms of \<^term>\<open>trial_quotient\<close>.\<close>

definition window :: "nat \<Rightarrow> u16 list \<Rightarrow> nat \<Rightarrow> u16 list \<Rightarrow> bool" where
  "window n v j u \<longleftrightarrow> 2 \<le> n \<and> j + n < length u \<and> 0 < unat (v ! 1) \<and> dval u j n < dval v 1 n"

lemma dval_2: "dval x j 2 = unat (x ! j) * 65536 + unat (x ! Suc j)"
  by (simp add: numeral_2_eq_2)

lemma dval_3: "dval x j 3 = (unat (x ! j) * 65536 + unat (x ! Suc j)) * 65536 + unat (x ! Suc (Suc j))"
  by (simp add: numeral_3_eq_3)

lemma window_trial:
  assumes w: "window n v j u"
  defines "h \<equiv> unat (trial (ucast (v ! 1)) (ucast (v ! 2)) (ucast (u ! j)) (ucast (u ! (j + 1))) (ucast (u ! (j + 2))))"
  shows "dval u j (Suc n) div dval v 1 n \<le> h" "h \<le> dval u j (Suc n) div dval v 1 n + 1" "h < 65536"
proof -
  obtain k where n: "n = 2 + k" using w by (metis le_Suc_ex window_def)
  have V: "dval v 1 n = dval v 1 2 * 65536 ^ k + dval v 3 k"
    unfolding n by (simp only: dval_append mult.commute [of "65536 ^ k"]) (simp add: numeral_3_eq_3)
  have W: "dval u j (Suc n) = dval u j 3 * 65536 ^ k + dval u (j + 3) k"
  proof -
    have "Suc n = 3 + k" using n by simp
    then show ?thesis by (simp only: dval_append mult.commute [of "65536 ^ k"])
  qed
  have top: "unat (u ! j) \<le> unat (v ! 1)"
  proof -
    obtain i where i: "n = Suc i" using n by simp
    have "unat (u ! j) * 65536 ^ i \<le> dval u j n" unfolding i dval_head by simp
    also have "\<dots> < dval v 1 n" using w by (simp add: window_def)
    also have "\<dots> < (unat (v ! 1) + 1) * 65536 ^ i"
      unfolding i dval_head using dval_bound [of v "Suc 1" i] by simp
    finally have "unat (u ! j) < unat (v ! 1) + 1" by (simp only: mult_less_cancel2)
    then show ?thesis by simp
  qed
  have V2: "65536 \<le> dval v 1 2" using w by (simp add: window_def dval_2)
  have h: "h = min 65535 (dval u j 3 div dval v 1 2)"
    using trial_spec [of "ucast (v ! 1)" "ucast (v ! 2)" "ucast (u ! j)" "ucast (u ! (j + 1))" "ucast (u ! (j + 2))"]
      unat_digit top w
    by (simp add: h_def window_def dval_2 dval_3 numeral_2_eq_2 mult.commute)
  have small: "dval u j (Suc n) < dval v 1 n * 65536"
  proof -
    have "(dval u j n + 1) * 65536 \<le> dval v 1 n * 65536" using w by (intro mult_le_mono1) (simp add: window_def)
    then show ?thesis using unat_digit [of "u ! (j + n)"] by simp
  qed
  note tq = trial_quotient [OF V W dval_bound dval_bound V2 small]
  show "dval u j (Suc n) div dval v 1 n \<le> h" "h \<le> dval u j (Suc n) div dval v 1 n + 1" using tq h by simp_all
  show "h < 65536" using h by simp
qed

text \<open>One round: the digit is the quotient of the window, and the window becomes the remainder,
  its leading digit 0.\<close>

lemma div_step_spec:
  assumes w: "window n v j u" and step: "div_step n v j u = (q, u')"
  defines "W \<equiv> dval u j (Suc n)" and "V \<equiv> dval v 1 n"
  shows "unat q = W div V \<and> unat q < 65536 \<and> length u' = length u \<and> unat (u' ! j) = 0
    \<and> dval u' (Suc j) n = W mod V \<and> (\<forall>k. k < j \<or> j + n < k \<longrightarrow> u' ! k = u ! k)"
proof -
  define h where "h = trial (ucast (v ! 1)) (ucast (v ! 2)) (ucast (u ! j)) (ucast (u ! (j + 1))) (ucast (u ! (j + 2)))"
  note wt = window_trial [OF w, folded h_def W_def V_def]
  have len: "n + j < length u" and V0: "0 < V" using w by (auto simp: window_def V_def)
  obtain t1 u1 where m: "mulsub n j h v 0 u = (t1, u1)" by force
  have z: "unat (0 :: u32) < 65536" by simp
  note ms = mulsub_spec [OF z wt(3) len m]
  define t where "t = ucast (u1 ! j) - t1"
  define u2 where "u2 = u1[j := ucast (LHALF t)]"
  have u1j: "u1 ! j = u ! j" using ms by blast
  define d where "d = int W - int V * int (unat h)"
  define P :: int where "P = 65536 ^ n"
  have eqd: "P * (int (unat (u ! j)) - int (unat t1)) + int (dval u1 (Suc j) n) = d"
  proof -
    have "int W = int (unat (u ! j)) * P + int (dval u (Suc j) n)" by (simp only: W_def dval_head of_nat_add of_nat_mult of_nat_power P_def) simp
    then show ?thesis using ms by (simp add: d_def V_def P_def algebra_simps)
  qed
  have VP: "int V < P" using dval_bound [of v 1 n] unfolding V_def P_def by (metis of_nat_less_iff of_nat_numeral of_nat_power)
  have L: "int (dval x (Suc j) n) < P" for x using dval_bound [of x "Suc j" n] unfolding P_def by (metis of_nat_less_iff of_nat_numeral of_nat_power)
  have WV: "int W = int V * int (W div V) + int (W mod V)" by (simp flip: of_nat_mult of_nat_add)
  have r: "int (W mod V) < int V" using V0 by simp
  have dcase: "unat h = W div V \<and> d = int (W mod V) \<or> unat h = W div V + 1 \<and> d = int (W mod V) - int V"
  proof -
    consider (exact) "unat h = W div V" | (over) "unat h = W div V + 1" using wt by linarith
    then show ?thesis
    proof cases
      case exact
      then show ?thesis using WV unfolding d_def by (simp only:) linarith
    next
      case over
      then show ?thesis using WV unfolding d_def by (simp only: of_nat_add of_nat_1 distrib_left mult_1_right) linarith
    qed
  qed
  have d_bounds: "- int V \<le> d" "d < int V" using dcase r by linarith+
  note bc = borrow_cases [OF eqd of_nat_0_le_iff L d_bounds VP]
  have u2L: "dval u2 (Suc j) n = dval u1 (Suc j) n" by (rule dval_cong) (simp add: u2_def)
  have lens: "length u2 = length u" using ms by (simp add: u2_def)
  have keep: "\<forall>k. k < j \<or> j + n < k \<longrightarrow> u2 ! k = u ! k" using ms by (auto simp: u2_def)
  have dig: "unat (ucast (u1 ! j) :: u32) < 65536" using unat_digit by simp
  have t1: "unat t1 < 65536" using ms by blast
  note step' = step [unfolded div_step_def Let_def, folded h_def, unfolded m prod.case, folded t_def, folded u2_def]
  note hh = unat_word_diff_digit [OF dig t1, folded t_def]
  show ?thesis
  proof (cases "d < 0")
    case False
    then have e: "unat t1 = unat (u ! j)" using bc by (metis not_less of_nat_eq_iff)
    then have res: "q = h" "u' = u2"
      using step' hh(1) u1j by simp_all
    have "unat h = W div V" "d = int (W mod V)" using False dcase r by linarith+
    moreover have "t1 = ucast (u1 ! j)" using e u1j by (simp add: word_unat_eq_iff)
    then have "t = 0" by (simp add: t_def)
    then have "u2 ! j = 0" using lens len by (simp add: u2_def LHALF_take_bit)
    moreover have "int (dval u2 (Suc j) n) = d" using eqd e u2L by simp
    then have "dval u2 (Suc j) n = W mod V" using \<open>d = int (W mod V)\<close> by (simp only: of_nat_eq_iff)
    ultimately show ?thesis using res lens keep wt(3) by simp
  next
    case True
    then have e: "int (unat t1) = int (unat (u ! j)) + 1" using bc by blast
    obtain t3 u3 where a: "addback n j v 0 u2 = (t3, u3)" by force
    have res: "q = h - 1" "u' = u3[j := ucast (LHALF (ucast (u3 ! j) + t3))]"
      using step' hh(1) u1j e by (simp_all add: a)
    have q: "unat h = W div V + 1" "d + int V = int (W mod V)" using True dcase by linarith+
    have "unat (0 :: u32) \<le> 1" "n + j < length u2" using len lens by simp_all
    note ab = addback_spec [OF this a, folded V_def]
    have top: "unat (u3 ! j) = 65535"
    proof -
      have "u3 ! j = u2 ! j" using ab by blast
      then show ?thesis using hh(2) e u1j len lens by (simp add: u2_def unat_low_digit)
    qed
    have "int (dval u2 (Suc j) n) = d + P" using eqd e u2L by (simp add: algebra_simps)
    then have sum: "int (dval u3 (Suc j) n) + P * int (unat t3) = P + int (W mod V)"
    proof -
      have "int (dval u3 (Suc j) n) + P * int (unat t3) = int (dval u2 (Suc j) n) + int V"
        using ab unfolding P_def by (metis (no_types, lifting) add.right_neutral of_nat_add of_nat_mult of_nat_numeral of_nat_power unat_0)
      then show ?thesis using \<open>int (dval u2 (Suc j) n) = d + P\<close> q(2) by linarith
    qed
    have t3: "unat t3 = 1"
    proof (rule ccontr)
      assume "unat t3 \<noteq> 1"
      then have "unat t3 = 0" using ab by linarith
      then show False using sum L [of u3] by simp
    qed
    have "LHALF (ucast (u3 ! j) + t3) = 0"
      using top t3 by (simp add: word_unat_eq_iff unat_LHALF_mod unat_word_ariths)
    then have "unat (u' ! j) = 0" using res(2) ab lens len by simp
    moreover have "dval u' (Suc j) n = dval u3 (Suc j) n" by (rule dval_cong) (simp add: res(2))
    then have "dval u' (Suc j) n = W mod V" using sum t3 by simp
    moreover have "unat q = W div V" using q res(1) by (simp add: unat_sub word_le_nat_alt)
    moreover have "length u' = length u" using res(2) ab lens by simp
    moreover have "\<forall>k. k < j \<or> j + n < k \<longrightarrow> u' ! k = u ! k" using res(2) ab keep by auto
    ultimately show ?thesis using q wt(3) by simp
  qed
qed

section \<open>The main loop\<close>

lemma div_loop_spec:
  assumes "2 \<le> n" "0 < unat (v ! 1)" "dval u j n < dval v 1 n" "j + n + k \<le> length u" "j + k \<le> length q"
    and "div_loop k j n v u q = (u', q')"
  shows "dval u j (n + k) = dval q' j k * dval v 1 n + dval u' (j + k) n \<and> dval u' (j + k) n < dval v 1 n
    \<and> length u' = length u \<and> length q' = length q \<and> (\<forall>i. i < j \<longrightarrow> u' ! i = u ! i \<and> q' ! i = q ! i)
    \<and> (\<forall>i. j \<le> i \<and> i < j + k \<longrightarrow> u' ! i = 0)"
  using assms(3-)
proof (induction k arbitrary: j u q)
  case (Suc k)
  let ?V = "dval v 1 n" and ?W = "dval u j (Suc n)"
  obtain h u1 where s: "div_step n v j u = (h, u1)" by force
  have w: "window n v j u" using assms(1,2) Suc.prems(1,2) by (simp add: window_def)
  note ds = div_step_spec [OF w s]
  define q1 where "q1 = q[j := ucast h]"
  have rec: "div_loop k (Suc j) n v u1 q1 = (u', q')" using Suc.prems(4) by (simp add: s q1_def)
  have "dval u1 (Suc j) n < ?V" using ds Suc.prems(1) by simp
  note IH = Suc.IH [OF this _ _ rec]
  have IH: "dval u1 (Suc j) (n + k) = dval q' (Suc j) k * ?V + dval u' (j + Suc k) n"
      "dval u' (j + Suc k) n < ?V" "length u' = length u" "length q' = length q"
      "\<forall>i. i < Suc j \<longrightarrow> u' ! i = u1 ! i \<and> q' ! i = q1 ! i" "\<forall>i. Suc j \<le> i \<and> i < j + Suc k \<longrightarrow> u' ! i = 0"
    using IH Suc.prems(2,3) ds by (simp_all add: q1_def)
  have tail: "dval u1 (Suc (j + n)) k = dval u (Suc (j + n)) k" by (rule dval_cong) (use ds in auto)
  have "dval u j (n + Suc k) = 65536 ^ k * ?W + dval u (Suc j + n) k"
    using dval_append [of u j "Suc n" k] by simp
  also have "\<dots> = 65536 ^ k * (?W div ?V * ?V + ?W mod ?V) + dval u1 (Suc j + n) k" by (simp add: tail)
  also have "\<dots> = unat h * 65536 ^ k * ?V + dval u1 (Suc j) (n + k)"
  proof -
    have "?W div ?V = unat h" "?W mod ?V = dval u1 (Suc j) n" using ds by simp_all
    then show ?thesis unfolding dval_append by (simp add: algebra_simps del: dval.simps)
  qed
  also have "unat h = unat (q' ! j)" using IH(5) Suc.prems(3) ds by (simp add: q1_def unat_low_digit)
  finally have "dval u j (n + Suc k) = dval q' j (Suc k) * ?V + dval u' (j + Suc k) n"
    unfolding IH(1) dval_head by (simp add: algebra_simps)
  moreover have "\<forall>i. j \<le> i \<and> i < j + Suc k \<longrightarrow> u' ! i = 0"
    using IH(5,6) ds by (metis le_antisym lessI not_less_eq_eq unat_eq_0)
  moreover have "\<forall>i. i < j \<longrightarrow> u' ! i = u ! i \<and> q' ! i = q ! i" using IH(5) ds by (simp add: q1_def)
  ultimately show ?case using IH(2-4) by blast
qed auto

section \<open>The shifts\<close>

lemma split_pow: "sh \<le> 16 \<Longrightarrow> (65536 :: nat) = 2 ^ sh * 2 ^ (16 - sh)"
  by (simp flip: power_add)

text \<open>The bits shifted out of a number of \<open>k + 1\<close> digits come from its first digit.\<close>

lemma carry_out:
  assumes "sh \<le> 16"
  shows "dval p i (Suc k) * 2 ^ sh div 65536 ^ Suc k = unat (p ! i) div 2 ^ (16 - sh)"
proof -
  have "dval p i (Suc k) * 2 ^ sh div 65536 ^ Suc k = dval p i (Suc k) * 2 ^ sh div (65536 ^ k * 2 ^ (16 - sh) * 2 ^ sh)"
  proof -
    have "(65536 :: nat) ^ Suc k = 65536 ^ k * (2 ^ sh * 2 ^ (16 - sh))" using split_pow [OF assms] by (metis power_Suc2)
    then show ?thesis by (simp only: mult.commute [of "2 ^ sh" "2 ^ (16 - sh)"] mult.assoc)
  qed
  also have "\<dots> = dval p i (Suc k) div (65536 ^ k * 2 ^ (16 - sh))" by (rule div_mult_mult2) simp
  also have "\<dots> = dval p i (Suc k) div 65536 ^ k div 2 ^ (16 - sh)" by (rule div_mult2_eq)
  also have "dval p i (Suc k) div 65536 ^ k = unat (p ! i)"
    unfolding dval_head using dval_bound [of p "Suc i" k] by simp
  finally show ?thesis .
qed

lemma unat_or_digits:
  fixes a b :: u32
  assumes "2 ^ sh dvd unat a" "unat b < 2 ^ sh" "unat a + unat b < 65536"
  shows "unat (a OR b) = unat a + unat b"
proof -
  have "a AND b = 0"
  proof (rule bit_word_eqI)
    fix k
    have "\<not> bit (unat a) k" if "k < sh" using assms(1) that by (metis bit_push_bit_iff_nat dvd_def mult.commute not_le push_bit_eq_mult)
    moreover have "\<not> bit (unat b) k" if "sh \<le> k"
      using assms(2) that by (metis bit_take_bit_iff not_le take_bit_nat_eq_self)
    ultimately show "bit (a AND b) k = bit 0 k" by (cases "k < sh") (auto simp: bit_and_iff bit_unsigned_iff)
  qed
  then have "a OR b = a + b" by (simp add: disjunctive_add_eq_or)
  then show ?thesis using assms(3) by (simp add: unat_word_ariths)
qed

lemma unat_push_digit: "sh \<le> 16 \<Longrightarrow> unat (push_bit sh (ucast (d :: u16)) :: u32) = unat d * 2 ^ sh"
proof -
  assume sh: "sh \<le> 16"
  have "unat d * 2 ^ sh \<le> 65535 * 2 ^ 16"
    using unat_digit [of d] sh by (intro mult_le_mono power_increasing) simp_all
  then show ?thesis unfolding unsigned_push_bit_eq by (simp add: push_bit_eq_mult take_bit_eq_mod)
qed

lemma unat_drop_digit: "unat (drop_bit sh (ucast (d :: u16)) :: u32) = unat d div 2 ^ sh"
  unfolding unat_drop_bit_eq by (simp add: drop_bit_eq_div)

text \<open>A digit shifted left with the carry of the next one.\<close>

lemma shl_digit:
  assumes "sh \<le> 16"
  shows "unat (ucast (LHALF (push_bit sh (ucast (x :: u16))) OR drop_bit (HALF_BITS - sh) (ucast (y :: u16)) :: u32) :: u16)
    = unat x * 2 ^ sh mod 65536 + unat y div 2 ^ (16 - sh)"
    and "unat x * 2 ^ sh mod 65536 + unat y div 2 ^ (16 - sh) < 65536"
proof -
  have a: "unat x * 2 ^ sh mod 65536 = (unat x mod 2 ^ (16 - sh)) * 2 ^ sh"
    using split_pow [OF assms] by (metis mult.commute mult_mod_right)
  have "unat y < 2 ^ sh * 2 ^ (16 - sh)" using unat_digit [of y] split_pow [OF assms] by linarith
  then have y: "unat y div 2 ^ (16 - sh) < 2 ^ sh" by (simp add: div_less_iff_less_mult)
  have "(unat x mod 2 ^ (16 - sh) + 1) * 2 ^ sh \<le> 2 ^ (16 - sh) * 2 ^ sh"
    by (rule mult_le_mono1) (simp add: Suc_leI)
  then have "(unat x mod 2 ^ (16 - sh)) * 2 ^ sh + 2 ^ sh \<le> 65536"
    using split_pow [OF assms] by (simp add: algebra_simps)
  then show s: "unat x * 2 ^ sh mod 65536 + unat y div 2 ^ (16 - sh) < 65536" using a y by linarith
  have l: "unat (LHALF (push_bit sh (ucast x))) = unat x * 2 ^ sh mod 65536"
    using assms by (simp only: unat_LHALF_mod unat_push_digit)
  have "unat (LHALF (push_bit sh (ucast x)) OR drop_bit (HALF_BITS - sh) (ucast y))
      = unat (LHALF (push_bit sh (ucast x))) + unat (drop_bit (HALF_BITS - sh) (ucast y) :: u32)"
    by (rule unat_or_digits [of sh]) (use a l y s in \<open>simp_all add: unat_drop_digit HALF_BITS_def\<close>)
  then show "unat (ucast (LHALF (push_bit sh (ucast x)) OR drop_bit (HALF_BITS - sh) (ucast y) :: u32) :: u16)
    = unat x * 2 ^ sh mod 65536 + unat y div 2 ^ (16 - sh)"
    using s l by (simp add: unat_low_digit unat_drop_digit HALF_BITS_def)
qed

lemma shl_from_spec:
  assumes "sh \<le> 16" "i + k < length p"
  shows "dval (shl_from k i sh p) i (Suc k) = dval p i (Suc k) * 2 ^ sh mod 65536 ^ Suc k
    \<and> length (shl_from k i sh p) = length p \<and> (\<forall>l. l < i \<longrightarrow> shl_from k i sh p ! l = p ! l)"
  using assms(2)
proof (induction k arbitrary: i p)
  case 0
  then show ?case using assms(1) by (simp add: unat_low_digit unat_LHALF_mod unat_push_digit)
next
  case (Suc k)
  define x where "x = p ! i"
  define y where "y = p ! Suc i"
  define p1 where "p1 = p[i := ucast (LHALF (push_bit sh (ucast x)) OR drop_bit (HALF_BITS - sh) (ucast y) :: u32)]"
  define D where "D = dval p (Suc i) (Suc k)"
  have rec: "shl_from (Suc k) i sh p = shl_from k (Suc i) sh p1" by (simp add: p1_def x_def y_def)
  have same: "dval p1 (Suc i) (Suc k) = D" unfolding D_def by (rule dval_cong) (simp add: p1_def)
  have IH: "dval (shl_from k (Suc i) sh p1) (Suc i) (Suc k) = D * 2 ^ sh mod 65536 ^ Suc k"
      "length (shl_from k (Suc i) sh p1) = length p" "\<forall>l. l < Suc i \<longrightarrow> shl_from k (Suc i) sh p1 ! l = p1 ! l"
    using Suc.IH [of "Suc i" p1] Suc.prems unfolding same by (simp_all add: p1_def)
  have x1: "unat (shl_from k (Suc i) sh p1 ! i) = unat x * 2 ^ sh mod 65536 + unat y div 2 ^ (16 - sh)"
    using IH(3) Suc.prems shl_digit(1) [OF assms(1), of x y] by (simp add: p1_def)
  have c: "D * 2 ^ sh div 65536 ^ Suc k = unat y div 2 ^ (16 - sh)"
    unfolding D_def y_def by (rule carry_out [OF assms(1)])
  have "dval p i (Suc (Suc k)) * 2 ^ sh mod 65536 ^ Suc (Suc k)
      = (unat x * 2 ^ sh * 65536 ^ Suc k + D * 2 ^ sh) mod (65536 ^ Suc k * 65536)"
    unfolding dval_head [of p i] by (simp add: x_def D_def algebra_simps)
  also have "\<dots> = 65536 ^ Suc k * ((unat x * 2 ^ sh + unat y div 2 ^ (16 - sh)) mod 65536) + D * 2 ^ sh mod 65536 ^ Suc k"
  proof -
    have "(A * M + E) mod (M * 65536) = M * ((A + E div M) mod 65536) + E mod M" if "M = 65536 ^ Suc k" for A E M :: nat
      using that by (simp only: mod_mult2_eq) (simp add: add.commute)
    then show ?thesis by (simp only: c flip: c)
  qed
  also have "(unat x * 2 ^ sh + unat y div 2 ^ (16 - sh)) mod 65536 = unat x * 2 ^ sh mod 65536 + unat y div 2 ^ (16 - sh)"
    using shl_digit(2) [OF assms(1), of x y] by (metis mod_add_left_eq mod_less)
  finally show ?case unfolding rec dval_head [of _ i] IH(1) x1 using IH(2,3) by (simp add: p1_def mult.commute)
qed

lemma shl_spec:
  assumes "sh \<le> 16" "k < length p" "dval p 0 (Suc k) * 2 ^ sh < 65536 ^ Suc k"
  shows "dval (shl k sh p) 0 (Suc k) = dval p 0 (Suc k) * 2 ^ sh \<and> length (shl k sh p) = length p"
  using shl_from_spec [OF assms(1), of 0 k p] assms(2,3) by (simp add: shl_def del: dval.simps)

lemma shr_loop_spec:
  assumes "d \<le> 16" "m + k < length u"
  shows "dval (shr_loop k m d u) (Suc m) k = dval u m (Suc k) div 2 ^ d mod 65536 ^ k
    \<and> length (shr_loop k m d u) = length u \<and> (\<forall>l. l < m \<or> m + k < l \<longrightarrow> shr_loop k m d u ! l = u ! l)
    \<and> shr_loop k m d u ! m = 0"
  using assms(2)
proof (induction k arbitrary: u)
  case (Suc k)
  define x where "x = u ! (m + Suc k)"
  define y where "y = u ! (m + k)"
  define u1 where "u1 = u[m + Suc k := ucast (drop_bit d (ucast x) OR LHALF (push_bit (HALF_BITS - d) (ucast y)) :: u32)]"
  define Y where "Y = dval u m (Suc k)"
  have rec: "shr_loop (Suc k) m d u = shr_loop k m d u1" by (simp add: u1_def x_def y_def)
  have same: "dval u1 m (Suc k) = Y" unfolding Y_def by (rule dval_cong) (simp add: u1_def)
  have IH: "dval (shr_loop k m d u1) (Suc m) k = Y div 2 ^ d mod 65536 ^ k"
      "length (shr_loop k m d u1) = length u" "\<forall>l. l < m \<or> m + k < l \<longrightarrow> shr_loop k m d u1 ! l = u1 ! l"
      "shr_loop k m d u1 ! m = 0"
    using Suc.IH [of u1] Suc.prems unfolding same by (simp_all add: u1_def)
  have x1: "unat (shr_loop k m d u1 ! (m + Suc k)) = unat y * 2 ^ (16 - d) mod 65536 + unat x div 2 ^ d"
  proof -
    have "shr_loop k m d u1 ! (m + Suc k) = u1 ! (m + Suc k)" using IH(3) by simp
    then show ?thesis
      using shl_digit(1) [of "16 - d" y x] Suc.prems assms(1) by (simp add: u1_def HALF_BITS_def or.commute)
  qed
  have Xd: "(65536 * Y + unat x) div 2 ^ d = 2 ^ (16 - d) * Y + unat x div 2 ^ d"
    unfolding split_pow [OF assms(1)] by (simp add: mult.assoc)
  have Yy: "Y mod 2 ^ d = unat y mod 2 ^ d"
  proof -
    have "(2 :: nat) ^ d dvd 65536 * dval u m k" using split_pow [OF assms(1)] by (metis dvd_mult2 dvd_triv_left)
    then have "(65536 * dval u m k + unat y) mod 2 ^ d = unat y mod 2 ^ d" by (simp add: mod_add_left_eq mod_eq_0_iff_dvd flip: mod_add_left_eq)
    then show ?thesis by (simp add: Y_def y_def)
  qed
  have low: "unat y * 2 ^ (16 - d) mod 65536 = 2 ^ (16 - d) * (Y mod 2 ^ d)"
    unfolding Yy using split_pow [OF assms(1)] by (metis mult.commute mult_mod_right)
  have "dval u m (Suc (Suc k)) div 2 ^ d = 2 ^ (16 - d) * Y + unat x div 2 ^ d" using Xd by (simp add: Y_def x_def)
  also have "\<dots> = 65536 * (Y div 2 ^ d) + (2 ^ (16 - d) * (Y mod 2 ^ d) + unat x div 2 ^ d)"
  proof -
    have b: "2 ^ (16 - d) * 2 ^ d = (65536 :: nat)" using split_pow [OF assms(1)] by (simp only: mult.commute)
    have "2 ^ (16 - d) * Y = 2 ^ (16 - d) * (2 ^ d * (Y div 2 ^ d)) + 2 ^ (16 - d) * (Y mod 2 ^ d)"
      by (simp only: mult_div_mod_eq flip: distrib_left)
    also have "2 ^ (16 - d) * (2 ^ d * (Y div 2 ^ d)) = 65536 * (Y div 2 ^ d)" by (simp only: b flip: mult.assoc)
    finally show ?thesis by (simp only: add.assoc)
  qed
  finally have e: "dval u m (Suc (Suc k)) div 2 ^ d = 65536 * (Y div 2 ^ d) + unat (shr_loop k m d u1 ! (m + Suc k))"
    by (simp only: x1 low)
  have "(65536 * A + b) mod 65536 ^ Suc k = 65536 * (A mod 65536 ^ k) + b" if "b < 65536" for A b :: nat
    using that by (simp add: mod_mult2_eq)
  then have "dval (shr_loop k m d u1) (Suc m) (Suc k) = dval u m (Suc (Suc k)) div 2 ^ d mod 65536 ^ Suc k"
    unfolding e using unat_digit IH(1) by (simp add: add.commute)
  then show ?case unfolding rec using IH(2-4) by (auto simp: u1_def)
qed simp

text \<open>The normalisation loop ends within 16 rounds for a leading digit other than 0.\<close>

lemma norm_loop_spec:
  assumes "unat t < 65536" "65536 \<le> unat t * 2 ^ fuel"
  shows "\<exists>e < fuel. norm_loop fuel t d = Inr (d + e) \<and> unat t * 2 ^ e < 65536"
  using assms
proof (induction fuel arbitrary: t d)
  case (Suc fuel)
  show ?case
  proof (cases "t < BASE div 2")
    case True
    then have l: "unat t < 32768" by (simp add: BASE_eq word_less_nat_alt)
    then have p: "unat (push_bit 1 t) = unat t * 2" by (simp add: push_bit_eq_mult unat_word_ariths)
    obtain e where "e < fuel" "norm_loop fuel (push_bit 1 t) (Suc d) = Inr (Suc d + e)" "unat t * 2 * 2 ^ e < 65536"
      using Suc.IH [of "push_bit 1 t" "Suc d"] Suc.prems(2) l unfolding p by auto
    then show ?thesis using True by (intro exI [of _ "Suc e"]) (simp add: algebra_simps)
  next
    case False
    then show ?thesis using Suc.prems(1) by (intro exI [of _ 0]) simp
  qed
qed simp

section \<open>Division of two or more digits\<close>

lemma dval_skip:
  assumes "\<And>i. i < k \<Longrightarrow> x ! (j + i) = 0"
  shows "dval x j (k + i) = dval x (j + k) i"
proof -
  have "dval x j k = 0" using assms by (induction k) simp_all
  then show ?thesis by (simp only: dval_append mult_0_right add_0)
qed

lemma dval_drop: "k \<le> length x \<Longrightarrow> dval (drop k x) j i = dval x (k + j) i"
  by (induction i) (simp_all add: add.assoc)

lemma dval_Cons: "dval (a # p) (Suc j) i = dval p j i"
  by (induction i) simp_all

lemma dval_tl: "x \<noteq> [] \<Longrightarrow> dval (tl x) j i = dval x (Suc j) i"
  by (cases x) (simp_all add: dval_Cons)

text \<open>The divisor and the dividend after the normalisation shift.\<close>

definition norm_u :: "nat \<Rightarrow> nat \<Rightarrow> u16 list \<Rightarrow> u16 list" where
  "norm_u k d u = (if d > 0 then shl k d u else u)"

definition norm_v :: "nat \<Rightarrow> nat \<Rightarrow> u16 list \<Rightarrow> u16 list" where
  "norm_v n d v = (if d > 0 then v ! 0 # shl (n - 1) d (tl v) else v)"

lemma norm_u_spec:
  assumes "length u = Suc k" "u ! 0 = 0" "d < 16"
  shows "dval (norm_u k d u) 0 (Suc k) = dval u 1 k * 2 ^ d \<and> length (norm_u k d u) = Suc k"
proof -
  have u: "dval u 0 (Suc k) = dval u 1 k" unfolding dval_head using assms(2) by simp
  have "dval u 1 k * 2 ^ d < 65536 ^ k * 65536"
    by (rule mult_less_le_imp_less [OF dval_bound]) (use assms(3) power_increasing [of d 16 "2 :: nat"] in simp_all)
  then have "dval u 0 (Suc k) * 2 ^ d < 65536 ^ Suc k" unfolding u by (simp only: power_Suc mult.commute)
  then show ?thesis using shl_spec [of d k u] assms(1,3) u by (simp add: norm_u_def del: dval.simps)
qed

lemma norm_v_spec:
  assumes "length v = Suc n" "0 < n" "d < 16" "unat (v ! 1) * 2 ^ d < 65536"
  shows "dval (norm_v n d v) 1 n = dval v 1 n * 2 ^ d"
proof (cases "d > 0")
  case True
  obtain k where n: "n = Suc k" using assms(2) by (cases n) auto
  have t: "dval (tl v) 0 (Suc k) = dval v 1 n" unfolding n using assms(1) by (subst dval_tl) auto
  have b: "2 ^ (16 - d) * 2 ^ d = (65536 :: nat)" using split_pow [of d] assms(3) by (metis less_imp_le mult.commute)
  have "unat (v ! 1) * 2 ^ d < 2 ^ (16 - d) * 2 ^ d" unfolding b by (rule assms(4))
  then have "unat (v ! 1) < 2 ^ (16 - d)" by (simp only: mult_less_cancel2)
  then have "unat (v ! 1) + 1 \<le> 2 ^ (16 - d)" by linarith
  then have "(unat (v ! 1) + 1) * 2 ^ d \<le> 2 ^ (16 - d) * 2 ^ d" by (rule mult_le_mono1)
  then have a: "(unat (v ! 1) + 1) * 2 ^ d \<le> 65536" unfolding b .
  have "dval v 1 n < (unat (v ! 1) + 1) * 65536 ^ k"
    unfolding n dval_head using dval_bound [of v "Suc 1" k] by simp
  then have "dval v 1 n * 2 ^ d < (unat (v ! 1) + 1) * 65536 ^ k * 2 ^ d" by simp
  also have "\<dots> = (unat (v ! 1) + 1) * 2 ^ d * 65536 ^ k" by (simp only: ac_simps)
  also have "\<dots> \<le> 65536 * 65536 ^ k" using a by (rule mult_le_mono1)
  finally have "dval (tl v) 0 (Suc k) * 2 ^ d < 65536 ^ Suc k" unfolding t by simp
  then show ?thesis
    using shl_spec [of d k "tl v"] True assms(1,3) n t by (simp add: norm_v_def dval_Cons del: dval.simps)
qed (simp add: norm_v_def)

lemma top_digit_le: "0 < unat (x ! j) \<Longrightarrow> 65536 ^ k \<le> dval x j (Suc k)"
  unfolding dval_head by (metis Suc_leI add_leD1 le_add1 le_trans mult_le_mono1 nat_mult_1 One_nat_def)

lemma top_digit_pos:
  assumes "65536 ^ k \<le> dval x j (Suc k)"
  shows "0 < unat (x ! j)"
proof (rule ccontr)
  assume "\<not> ?thesis"
  then have "dval x j (Suc k) = dval x (Suc j) k" unfolding dval_head by simp
  then show False using assms dval_bound [of x "Suc j" k] by simp
qed

lemma long_div:
  assumes n: "2 \<le> n" and len: "length u = Suc (m + n)" "length v = Suc n"
    and u0: "u ! 0 = 0" and v1: "0 < unat (v ! 1)"
    and d: "d < 16" "unat (v ! 1) * 2 ^ d < 65536"
    and loop: "div_loop (Suc m) 0 n (norm_v n d v) (norm_u (m + n) d u) (replicate (Suc m) 0) = (u2, q)"
  defines "u3 \<equiv> if d > 0 then shr_loop n m d u2 else u2"
    and "U \<equiv> dval u 1 (m + n)" and "V \<equiv> dval v 1 n"
  shows "dval q 0 (Suc m) = U div V" "dval u3 (Suc m) n = U mod V" "length q = Suc m"
    "length u3 = Suc (m + n)" "\<forall>i \<le> m. u3 ! i = 0"
proof -
  obtain k where k: "n = Suc k" using n by (cases n) auto
  note nu = norm_u_spec [OF len(1) u0 d(1), folded U_def]
  have nv: "dval (norm_v n d v) 1 n = V * 2 ^ d" using norm_v_spec [OF len(2) _ d] n by (simp add: V_def)
  have V0: "65536 ^ k \<le> V" unfolding V_def k by (rule top_digit_le [OF v1])
  then have "0 < V" by (metis gr0I le_zero_eq power_eq_0_iff zero_neq_numeral)
  have nv1: "0 < unat (norm_v n d v ! 1)"
  proof (rule top_digit_pos [of k])
    have "65536 ^ k * 1 \<le> V * 2 ^ d" using V0 by (rule mult_le_mono) simp
    then show "65536 ^ k \<le> dval (norm_v n d v) 1 (Suc k)" using nv unfolding k by simp
  qed
  have first: "dval (norm_u (m + n) d u) 0 n < dval (norm_v n d v) 1 n"
  proof -
    have "dval (norm_u (m + n) d u) 0 n * 65536 ^ Suc m \<le> dval (norm_u (m + n) d u) 0 (n + Suc m)"
      unfolding dval_append by (simp only: mult.commute le_add1)
    also have "\<dots> = U * 2 ^ d" using nu by (simp only: add_Suc_right add.commute)
    also have "\<dots> < 65536 ^ (m + n) * 2 ^ d" using dval_bound [of u 1 "m + n"] by (simp add: U_def)
    also have "\<dots> = 65536 ^ k * 2 ^ d * 65536 ^ Suc m" by (simp add: k power_add)
    also have "\<dots> \<le> V * 2 ^ d * 65536 ^ Suc m" using V0 by simp
    finally show ?thesis unfolding nv by (simp only: mult_less_cancel2)
  qed
  have "0 + n + Suc m \<le> length (norm_u (m + n) d u)" "0 + Suc m \<le> length (replicate (Suc m) (0 :: u16))"
    using nu by simp_all
  note dl = div_loop_spec [OF n nv1 first this loop, unfolded nv]
  define R where "R = dval u2 (Suc m) n"
  have eq: "U * 2 ^ d = dval q 0 (Suc m) * (V * 2 ^ d) + R" and R: "R < V * 2 ^ d"
    using dl nu by (simp_all add: R_def add.commute del: dval.simps)
  show "dval q 0 (Suc m) = U div V"
  proof -
    have "U * 2 ^ d div (V * 2 ^ d) = dval q 0 (Suc m)" unfolding eq using R \<open>0 < V\<close> by (intro div_mult_self3 [THEN trans]) simp_all
    then show ?thesis by simp
  qed
  have Rm: "R = U mod V * 2 ^ d"
  proof -
    have "U * 2 ^ d mod (V * 2 ^ d) = R" unfolding eq using R by simp
    then show ?thesis by (simp only: mult_mod_left)
  qed
  have zero: "\<forall>i \<le> m. u2 ! i = 0" and len2: "length u2 = Suc (m + n)" using dl nu by simp_all
  show "length q = Suc m" using dl by simp
  have win: "dval u2 m (Suc n) = R" unfolding dval_head R_def using zero by simp
  have small: "U mod V < 65536 ^ n" using \<open>0 < V\<close> dval_bound [of v 1 n] unfolding V_def by (meson less_trans mod_less_divisor)
  have "m + n < length u2" using len2 by simp
  note sh = shr_loop_spec [OF less_imp_le [OF d(1)] this, unfolded win]
  show "dval u3 (Suc m) n = U mod V"
    using sh small Rm by (cases "d > 0") (simp_all add: u3_def R_def)
  show "length u3 = Suc (m + n)" using sh len2 by (simp add: u3_def)
  show "\<forall>i \<le> m. u3 ! i = 0" using sh zero by (auto simp: u3_def) (metis le_neq_implies_less)
qed

section \<open>A divisor of one digit\<close>

lemma short_step:
  assumes "r < t" "t < 65536" "x < 65536"
  shows "(r * 65536 + x) div t < (65536 :: nat)" "(r * 65536 + x) mod t < t"
proof -
  have "(r + 1) * 65536 \<le> t * 65536" using assms(1) by (intro mult_le_mono1) simp
  then have "r * 65536 + x < t * 65536" using assms(3) by simp
  then show "(r * 65536 + x) div t < 65536" using assms(1) by (simp add: div_less_iff_less_mult mult.commute)
qed (use assms(1) in simp)

lemma short_digit:
  fixes x :: u16 and r t :: u32
  assumes "unat r < unat t" "unat t < 65536"
  defines "c \<equiv> COMBINE r (ucast x)"
  shows "unat (ucast (c div t) :: u16) = (unat r * 65536 + unat x) div unat t"
    "unat (c mod t) = (unat r * 65536 + unat x) mod unat t"
    "unat (c mod t) < unat t"
proof -
  have c: "unat c = unat r * 65536 + unat x" using assms(1,2) unat_digit [of x] by (simp add: c_def unat_COMBINE)
  note st = short_step [OF assms(1,2) unat_digit, of x]
  have "unat (c div t) = (unat r * 65536 + unat x) div unat t" by (simp add: unat_div_distrib c)
  then show "unat (ucast (c div t) :: u16) = (unat r * 65536 + unat x) div unat t" using st(1) by (simp add: unat_low_digit)
  show "unat (c mod t) = (unat r * 65536 + unat x) mod unat t" by (simp add: unat_mod_distrib c)
  then show "unat (c mod t) < unat t" using st(2) by simp
qed

lemma div_digit:
  "(X * 65536 + x) div t = X div t * 65536 + (X mod t * 65536 + x) div (t :: nat)"
  "(X * 65536 + x) mod t = (X mod t * 65536 + x) mod t"
proof -
  have e: "X * 65536 + x = t * (X div t * 65536) + (X mod t * 65536 + x)"
    by (metis (no_types) add.assoc distrib_right mult.assoc mult_div_mod_eq)
  show "(X * 65536 + x) mod t = (X mod t * 65536 + x) mod t" by (subst e) simp
  show "(X * 65536 + x) div t = X div t * 65536 + (X mod t * 65536 + x) div t"
    by (cases "t = 0") (simp, subst e, simp)
qed

lemma dval_4: "dval x 1 4 = ((unat (x ! 1) * 65536 + unat (x ! 2)) * 65536 + unat (x ! 3)) * 65536 + unat (x ! 4)"
proof -
  have e: "(4 :: nat) = Suc 3" "Suc 1 = 2" "Suc 2 = 3" "1 + 3 = Suc 3" by simp_all
  have "dval x 1 (Suc 3) = 65536 * dval x 1 3 + unat (x ! (1 + 3))" by (rule dval.simps(2))
  then show ?thesis unfolding dval_3 e(2-4) unfolding e(1) by (simp only: mult.commute)
qed

lemma unat_COMBINE_digits: "unat (COMBINE (ucast (a :: u16)) (ucast (b :: u16))) = unat a * 65536 + unat b"
  using unat_COMBINE [of "ucast a" "ucast b"] unat_digit by simp

lemma short_div_spec:
  assumes "unat t < 65536" "0 < unat t"
  shows "unat (fst (short_div u t)) = dval u 1 4 div unat t" "unat (snd (short_div u t)) = dval u 1 4 mod unat t"
proof -
  define T where "T = unat t"
  define r1 where "r1 = ucast (u ! 1) mod t"
  define c2 where "c2 = COMBINE r1 (ucast (u ! 2))"
  define c3 where "c3 = COMBINE (c2 mod t) (ucast (u ! 3))"
  define c4 where "c4 = COMBINE (c3 mod t) (ucast (u ! 4))"
  have r1: "unat r1 = unat (u ! 1) mod T" by (simp add: r1_def unat_mod_distrib T_def)
  then have "unat r1 < unat t" using assms(2) by (simp add: T_def)
  note s2 = short_digit [OF this assms(1), of "u ! 2", folded c2_def T_def]
  note s3 = short_digit [OF s2(3) [unfolded T_def] assms(1), of "u ! 3", folded c3_def T_def]
  note s4 = short_digit [OF s3(3) [unfolded T_def] assms(1), of "u ! 4", folded c4_def T_def]
  have q1: "unat (ucast ((ucast (u ! 1) :: u32) div t) :: u16) = unat (u ! 1) div T"
  proof -
    have "unat ((ucast (u ! 1) :: u32) div t) = unat (u ! 1) div T" by (simp add: unat_div_distrib T_def)
    moreover have "unat (u ! 1) div T < 65536" using unat_digit [of "u ! 1"] by (meson div_le_dividend le_less_trans)
    ultimately show ?thesis by (simp add: unat_low_digit)
  qed
  have sd: "short_div u t =
      (uu (COMBINE (ucast (ucast ((ucast (u ! 1) :: u32) div t) :: u16)) (ucast (ucast (c2 div t) :: u16)))
          (COMBINE (ucast (ucast (c3 div t) :: u16)) (ucast (ucast (c4 div t) :: u16))), ucast (c4 mod t))"
    by (simp only: short_div_def Let_def flip: r1_def c2_def c3_def c4_def)
  define A1 where "A1 = unat (u ! 1)"
  define A2 where "A2 = A1 * 65536 + unat (u ! 2)"
  define A3 where "A3 = A2 * 65536 + unat (u ! 3)"
  define A4 where "A4 = A3 * 65536 + unat (u ! 4)"
  have dv: "dval u 1 4 = A4" by (simp only: dval_4 A1_def A2_def A3_def A4_def)
  note d2 = div_digit [of A1 "unat (u ! 2)" T, folded A2_def]
  note d3 = div_digit [of A2 "unat (u ! 3)" T, folded A3_def]
  note d4 = div_digit [of A3 "unat (u ! 4)" T, folded A4_def]
  have m2: "unat (c2 mod t) = A2 mod T" using s2(2) r1 d2(2) by (simp only: A1_def)
  have m3: "unat (c3 mod t) = A3 mod T" using s3(2) m2 d3(2) by (simp only:)
  have m4: "unat (c4 mod t) = A4 mod T" using s4(2) m3 d4(2) by (simp only:)
  have "unat (fst (short_div u t))
      = (A1 div T * 65536 + (A1 mod T * 65536 + unat (u ! 2)) div T) * 4294967296
        + ((A2 mod T * 65536 + unat (u ! 3)) div T * 65536 + (A3 mod T * 65536 + unat (u ! 4)) div T)"
    unfolding sd fst_conv unat_uu
    by (simp only: unat_COMBINE_digits q1 s2(1) s3(1) s4(1) r1 m2 m3 A1_def) simp
  also have "\<dots> = A4 div T" unfolding d4(1) d3(1) d2(1) by simp
  finally show "unat (fst (short_div u t)) = dval u 1 4 div unat t" by (simp only: dv T_def)
  show "unat (snd (short_div u t)) = dval u 1 4 mod unat t"
    unfolding sd snd_conv dv T_def [symmetric] using m4 by (simp only: unat_ucast_64)
qed

section \<open>The whole division\<close>

lemma lead_zeros_le: "lead_zeros ds \<le> length ds"
  by (induction ds) auto

lemma lead_zeros_zero: "i < lead_zeros ds \<Longrightarrow> ds ! i = 0"
  by (induction ds arbitrary: i) (auto simp: nth_Cons split: if_splits nat.splits)

lemma lead_zeros_head: "lead_zeros ds < length ds \<Longrightarrow> ds ! lead_zeros ds \<noteq> 0"
  by (induction ds) auto

lemma length_digits4 [simp]: "length (digits4 x) = 5"
  by (simp add: digits4_def)

lemma digit_halves: "unat h = unat (ucast (HHALF h) :: u16) * 65536 + unat (ucast (LHALF h) :: u16)"
  using unat_HHALF [of h] unat_LHALF [of h] by (simp add: unat_low_digit unat_HHALF_div unat_LHALF_mod)

lemma dval_digits4: "dval (digits4 x) 1 4 = unat x"
proof -
  have "dval (digits4 x) 1 4 = unat (uiH x) * 4294967296 + unat (uiL x)"
    unfolding digit_halves [of "uiH x"] digit_halves [of "uiL x"] dval_4 by (simp add: digits4_def)
  then show ?thesis using unat_halves [of x] by simp
qed

lemma unat_undigits4: "unat (undigits4 x) = dval x 1 4"
  by (simp add: undigits4_def unat_uu unat_COMBINE_digits dval_4 [simplified])

text \<open>The array from the first significant digit on, with one 0 before it.\<close>

lemma significant:
  assumes "x \<noteq> 0"
  defines "z \<equiv> lead_zeros (tl (digits4 x))"
  shows "z < 4" "drop z (digits4 x) ! 0 = 0" "0 < unat (drop z (digits4 x) ! 1)"
    "dval (drop z (digits4 x)) 1 (4 - z) = unat x" "\<forall>i \<le> z. digits4 x ! i = 0"
proof -
  have z: "z \<le> 4" using lead_zeros_le [of "tl (digits4 x)"] by (simp add: z_def)
  have zs: "digits4 x ! i = 0" if "i \<le> z" for i
    using that lead_zeros_zero [of "i - 1" "tl (digits4 x)"]
    by (cases i) (auto simp: z_def digits4_def nth_tl)
  then show "\<forall>i \<le> z. digits4 x ! i = 0" by blast
  have sk: "dval (digits4 x) 1 4 = dval (digits4 x) (1 + z) (4 - z)"
    using dval_skip [of z "digits4 x" 1 "4 - z"] zs z by simp
  show "z < 4"
  proof (rule ccontr)
    assume "\<not> ?thesis"
    then have "unat x = 0" using sk dval_digits4 [of x] z by simp
    then show False using assms(1) by (simp add: unat_eq_0)
  qed
  then have "tl (digits4 x) ! z \<noteq> 0" unfolding z_def by (intro lead_zeros_head) simp
  then show "0 < unat (drop z (digits4 x) ! 1)" using \<open>z < 4\<close> by (simp add: nth_tl unat_gt_0)
  show "drop z (digits4 x) ! 0 = 0" using zs z by simp
  show "dval (drop z (digits4 x)) 1 (4 - z) = unat x"
    using sk dval_digits4 [of x] z by (simp add: dval_drop add.commute)
qed

lemma undigits_quotient:
  assumes "length q = Suc m" "m \<le> 3"
  shows "unat (undigits4 (replicate (4 - m) 0 @ q)) = dval q 0 (Suc m)"
proof -
  let ?x = "replicate (4 - m) 0 @ q"
  have "dval ?x 1 4 = dval ?x 1 (3 - m + Suc m)" using assms(2) by simp
  also have "\<dots> = dval ?x (1 + (3 - m)) (Suc m)"
    by (rule dval_skip) (use assms(2) in \<open>auto simp: nth_append\<close>)
  also have "1 + (3 - m) = 4 - m" using assms(2) by simp
  also have "dval ?x (4 - m) (Suc m) = dval (drop (4 - m) ?x) 0 (Suc m)" by (subst dval_drop) simp_all
  finally show ?thesis by (simp add: unat_undigits4)
qed

lemma undigits_remainder:
  assumes "length y = z" "length u = Suc (m + n)" "z + m + n = 4" "\<forall>i < z. y ! i = 0" "\<forall>i \<le> m. u ! i = 0"
  shows "unat (undigits4 (y @ u)) = dval u (Suc m) n"
proof -
  let ?x = "y @ u"
  have "dval ?x 1 4 = dval ?x 1 (z + m + n)" using assms(3) by simp
  also have "\<dots> = dval ?x (1 + (z + m)) n"
    by (rule dval_skip) (use assms in \<open>auto simp: nth_append\<close>)
  also have "\<dots> = dval (drop z ?x) (Suc m) n" using assms(1) by (subst dval_drop) simp_all
  finally show ?thesis using assms(1) by (simp add: unat_undigits4)
qed

text \<open>The dividend has at least as many significant digits as the divisor.\<close>

lemma more_digits:
  assumes "b \<noteq> 0" "b \<le> a" "a \<noteq> 0"
  shows "lead_zeros (tl (digits4 a)) \<le> lead_zeros (tl (digits4 b))"
proof -
  let ?u = "lead_zeros (tl (digits4 a))" and ?v = "lead_zeros (tl (digits4 b))"
  note sa = significant [OF assms(3)] and sb = significant [OF assms(1)]
  have "65536 ^ (3 - ?v) \<le> dval (drop ?v (digits4 b)) 1 (Suc (3 - ?v))" by (rule top_digit_le [OF sb(3)])
  also have "Suc (3 - ?v) = 4 - ?v" using sb(1) by simp
  also have "dval (drop ?v (digits4 b)) 1 (4 - ?v) = unat b" by (rule sb(4))
  also have "\<dots> \<le> unat a" using assms(2) by (simp add: word_le_nat_alt)
  also have "\<dots> < 65536 ^ (4 - ?u)" using dval_bound sa(4) by metis
  finally have "3 - ?v < 4 - ?u" by (rule power_less_imp_less_exp [rotated]) simp
  then show ?thesis using sb(1) by simp
qed

lemma qdivrem_long:
  assumes "b \<noteq> 0" "a \<noteq> 0" "\<not> a < b" "lead_zeros (tl (digits4 b)) < 3"
  shows "qdivrem a b = Inr (a div b, a mod b)"
proof -
  define vo where "vo = lead_zeros (tl (digits4 b))"
  define uo where "uo = lead_zeros (tl (digits4 a))"
  define v where "v = drop vo (digits4 b)"
  define u where "u = drop uo (digits4 a)"
  define n where "n = 4 - vo"
  define m where "m = 4 - n - uo"
  note sb = significant [OF assms(1), folded vo_def, folded v_def n_def]
  note sa = significant [OF assms(2), folded uo_def, folded u_def]
  have uv: "uo \<le> vo" using more_digits [OF assms(1) _ assms(2)] assms(3) by (simp add: uo_def vo_def)
  have n: "2 \<le> n" and mn: "m + n = 4 - uo" and vo: "vo < 3"
    using assms(4) uv by (auto simp: n_def m_def vo_def)
  have len: "length u = Suc (m + n)" "length v = Suc n"
    using mn sa(1) vo by (simp_all add: u_def v_def n_def)
  have "65536 \<le> unat (ucast (v ! 1) :: u32) * 2 ^ 16" using sb(3) by simp
  then obtain d where d: "d < 16" "norm_loop 16 (ucast (v ! 1)) 0 = Inr d" "unat (v ! 1) * 2 ^ d < 65536"
    using norm_loop_spec [of "ucast (v ! 1)" 16 0] unat_digit [of "v ! 1"] by auto
  obtain u2 q where loop: "div_loop (Suc m) 0 n (norm_v n d v) (norm_u (m + n) d u) (replicate (Suc m) 0) = (u2, q)"
    by force
  define u3 where "u3 = (if d > 0 then shr_loop n m d u2 else u2)"
  note ld = long_div [OF n len sa(2) sb(3) d(1,3) loop, folded u3_def]
  have val: "dval u 1 (m + n) = unat a" "dval v 1 n = unat b" using sa(4) sb(4) mn by simp_all
  have "unat (undigits4 (replicate (4 - m) 0 @ q)) = unat a div unat b"
    using undigits_quotient [OF ld(3)] ld(1) val uv vo by (simp add: m_def n_def)
  then have q: "undigits4 (replicate (4 - m) 0 @ q) = a div b" by (simp add: word_unat_eq_iff unat_div_distrib)
  have "unat (undigits4 (take uo (digits4 a) @ u3)) = dval u3 (Suc m) n"
    by (rule undigits_remainder [OF _ ld(4) _ _ ld(5)]) (use sa(1,5) mn in auto)
  then have r: "undigits4 (take uo (digits4 a) @ u3) = a mod b"
    using ld(2) val by (simp add: word_unat_eq_iff unat_mod_distrib)
  note def = qdivrem_def [of a b, unfolded Let_def, folded vo_def uo_def, folded v_def u_def n_def, folded m_def,
      folded norm_u_def norm_v_def]
  show ?thesis
    unfolding def using assms(1,3) vo q r by (simp add: d(2) [unfolded One_nat_def] loop u3_def del: div_loop.simps replicate.simps)
qed

lemma qdivrem_eq: "b \<noteq> 0 \<Longrightarrow> qdivrem a b = Inr (a div b, a mod b)"
proof -
  assume b: "b \<noteq> 0"
  define vo where "vo = lead_zeros (tl (digits4 b))"
  note sb = significant [OF b, folded vo_def]
  consider (small) "a < b" | (short) "b \<le> a" "3 \<le> vo" | (long) "b \<le> a" "vo < 3" by (metis not_le)
  then show ?thesis
  proof cases
    case small
    then have "a div b = 0" "a mod b = a"
      by (simp_all add: word_unat_eq_iff unat_div_distrib unat_mod_distrib word_less_nat_alt)
    then show ?thesis using b small by (simp add: qdivrem_def)
  next
    case short
    have vo: "vo = 3" using sb(1) short(2) by simp
    let ?t = "ucast (digits4 b ! 4) :: u32"
    have t: "unat ?t = unat b" "unat ?t < 65536" "0 < unat ?t"
      using sb(3,4) unat_digit [of "digits4 b ! 4"] vo by simp_all
    note sd = short_div_spec [OF t(2,3), of "digits4 a", unfolded dval_digits4 t(1)]
    have "short_div (digits4 a) ?t = (a div b, a mod b)"
      using sd by (simp add: prod_eq_iff word_unat_eq_iff unat_div_distrib unat_mod_distrib)
    moreover have "\<not> a < b" using short(1) by simp
    ultimately show ?thesis using b short(2) by (simp add: qdivrem_def Let_def flip: vo_def)
  next
    case long
    have a: "a \<noteq> 0" using b long(1) by (metis word_le_0_iff)
    have "\<not> a < b" using long by simp
    then show ?thesis by (rule qdivrem_long [OF b a _ long(2) [unfolded vo_def]])
  qed
qed

section \<open>Signed division\<close>

lemma sint_range64: "- (2 ^ 63) \<le> sint (a :: u64)" "sint (a :: u64) < 2 ^ 63"
  using sint_ge [of a] sint_less [of a] by simp_all

lemma sint_of_int64: "- (2 ^ 63) \<le> k \<Longrightarrow> k < 2 ^ 63 \<Longrightarrow> sint (of_int k :: u64) = k"
  using signed_take_bit_int_eq_self [of 63 k] by (simp add: signed_of_int)

lemma sint_eq_0: "sint (b :: u64) = 0 \<longleftrightarrow> b = 0"
proof
  assume "sint b = 0"
  then have "(of_int (sint b) :: u64) = 0" by (simp only: of_int_0)
  then show "b = 0" by simp
qed simp

text \<open>The only quotient out of range is that of the least number by -1.\<close>

lemma quotient_range:
  fixes x y :: int
  assumes "- (2 ^ 63) \<le> x" "x < 2 ^ 63" "y \<noteq> 0" "\<not> (x = - (2 ^ 63) \<and> y = - 1)"
  defines "q \<equiv> sgn x * sgn y * (\<bar>x\<bar> div \<bar>y\<bar>)"
  shows "- (2 ^ 63) \<le> q \<and> q < 2 ^ 63"
proof -
  define Q where "Q = \<bar>x\<bar> div \<bar>y\<bar>"
  have "Q \<le> \<bar>x\<bar> div 1" unfolding Q_def using assms(3) by (intro zdiv_mono2) auto
  then have le: "Q \<le> \<bar>x\<bar>" "0 \<le> Q" using assms(3) by (simp_all add: Q_def pos_imp_zdiv_nonneg_iff)
  have half: "Q \<le> 2 ^ 62" if "x = - (2 ^ 63)" "y < 0"
  proof -
    have "Q \<le> \<bar>x\<bar> div 2" unfolding Q_def using that assms(4) by (intro zdiv_mono2) auto
    then show ?thesis using that(1) by simp
  qed
  have q: "q = (if (x < 0) = (y < 0) then Q else - Q)"
    using assms(3) unfolding q_def Q_def [symmetric] by (auto simp: sgn_if Q_def)
  show ?thesis
  proof (cases "(x < 0) = (y < 0)")
    case True
    then show ?thesis using q le half assms(1,2) by (cases "x = - (2 ^ 63)") auto
  next
    case False
    then show ?thesis using q le assms(1,2) by auto
  qed
qed

lemma unat_magnitude: "unat (if sint a < 0 then - a else a) = nat \<bar>sint (a :: u64)\<bar>"
proof -
  have "(if sint a < 0 then - a else a) = of_int \<bar>sint a\<bar>" by simp
  also have "uint (of_int \<bar>sint a\<bar> :: u64) = \<bar>sint a\<bar>"
    using sint_range64 [of a] by (simp add: uint_word_of_int)
  finally show ?thesis by (metis nat_uint_eq)
qed

lemma signed_div_spec:
  fixes a b :: u64
  assumes "b \<noteq> 0"
  defines "A \<equiv> \<bar>sint a\<bar>" and "B \<equiv> \<bar>sint b\<bar>"
  shows "divdi3 a b = Inr (of_int (sgn (sint a) * sgn (sint b) * (A div B)))"
    "moddi3 a b = Inr (of_int (sgn (sint a) * (A mod B)))"
proof -
  let ?x = "if sint a < 0 then - a else a" and ?y = "if sint b < 0 then - b else b"
  have y: "?y \<noteq> 0" using assms(1) by simp
  note qr = qdivrem_eq [OF y, of ?x]
  have mag: "uint ?x = A" "uint ?y = B" unfolding A_def B_def uint_nat unat_magnitude by simp_all
  have q: "?x div ?y = of_int (A div B)"
  proof -
    have "uint (?x div ?y) = A div B"
      unfolding uint_div_distrib mag ..
    then show ?thesis by (metis word_of_int_uint)
  qed
  have r: "?x mod ?y = of_int (A mod B)"
  proof -
    have "uint (?x mod ?y) = A mod B"
      unfolding uint_mod_distrib mag ..
    then show ?thesis by (metis word_of_int_uint)
  qed
  have b0: "sint b \<noteq> 0" using assms(1) by (simp only: sint_eq_0 not_False_eq_True)
  show "divdi3 a b = Inr (of_int (sgn (sint a) * sgn (sint b) * (A div B)))"
    using qr b0 unfolding q r divdi3_def by (cases "sint a = 0") (auto simp: sgn_if A_def)
  show "moddi3 a b = Inr (of_int (sgn (sint a) * (A mod B)))"
    using qr b0 unfolding q r moddi3_def by (cases "sint a = 0") (auto simp: sgn_if A_def)
qed

section \<open>The 64-bit routines\<close>

text \<open>
  C27: The routines for 64-bit sums, differences, negation, products, comparisons and bit
  operations, which work on 32-bit halves, compute the operations of 64-bit words.
\<close>

theorem millicode_arith:
  "adddi3 a b = a + b \<and> subdi3 a b = a - b \<and> negdi2 a = - a \<and> muldi3 a b = a * b
   \<and> ucmpdi2 a b = (if a < b then 0 else if a = b then 1 else 2)
   \<and> cmpdi2 a b = (if sint a < sint b then 0 else if a = b then 1 else 2)
   \<and> anddi3 a b = a AND b \<and> iordi3 a b = a OR b \<and> xordi3 a b = a XOR b \<and> one_cmpldi2 a = NOT a"
  by (simp only: adddi3_eq subdi3_eq negdi2_eq muldi3_eq ucmpdi2_eq cmpdi2_eq
      anddi3_eq iordi3_eq xordi3_eq one_cmpldi2_eq simp_thms)

text \<open>
  C28: The 64-bit shifts agree with the shifts of 64-bit words for every distance below 64, across
  the boundary between the halves too; the arithmetic shift keeps the sign.
\<close>

theorem millicode_shifts:
  assumes "shift < 64"
  shows "ashldi3 a shift = push_bit shift a \<and> lshldi3 a shift = push_bit shift a
    \<and> lshrdi3 a shift = drop_bit shift a \<and> ashrdi3 a shift = signed_drop_bit shift a"
  using ashldi3_eq [OF assms] lshldi3_eq [OF assms] lshrdi3_eq [OF assms] ashrdi3_eq [OF assms] by simp

theorem millicode_shifts_witness: "ashldi3 5 33 = 0xa00000000 \<and> lshrdi3 0xa00000000 33 = 5"
  using millicode_shifts [of 33 5] millicode_shifts [of 33 "0xa00000000"]
  by (simp add: push_bit_eq_mult drop_bit_eq_div)

text \<open>
  C4: Unsigned 64-bit division by Knuth's algorithm on 16-bit digits returns, for every dividend
  and every divisor but 0, the quotient and the remainder; for the divisor 0 it runs into the
  division by zero of the machine. The 16 rounds allowed to the normalisation are always
  enough.
\<close>

theorem qdivrem_correct:
  "qdivrem a b = (if b = 0 then Inl DivZero else Inr (a div b, a mod b))
   \<and> udivdi3 a b = (if b = 0 then Inl DivZero else Inr (a div b))
   \<and> umoddi3 a b = (if b = 0 then Inl DivZero else Inr (a mod b))"
proof (cases "b = 0")
  case True
  then show ?thesis by (simp add: qdivrem_def udivdi3_def umoddi3_def)
next
  case False
  then show ?thesis by (simp add: qdivrem_eq udivdi3_def umoddi3_def)
qed

text \<open>
  C26: Signed 64-bit division rounds towards zero, and the remainder has the sign of the dividend.
  The one quotient that does not fit, of the least number by -1, wraps to the least number, and
  its remainder is 0.
\<close>

theorem signed_division:
  assumes "b \<noteq> 0"
  shows "\<exists>q r. divdi3 a b = Inr q \<and> moddi3 a b = Inr r
    \<and> sint r = sgn (sint a) * (\<bar>sint a\<bar> mod \<bar>sint b\<bar>)
    \<and> (if sint a = - (2 ^ 63) \<and> sint b = - 1 then q = a
       else sint q = sgn (sint a) * sgn (sint b) * (\<bar>sint a\<bar> div \<bar>sint b\<bar>))"
proof -
  let ?A = "\<bar>sint a\<bar>" and ?B = "\<bar>sint b\<bar>"
  let ?q = "sgn (sint a) * sgn (sint b) * (?A div ?B)" and ?r = "sgn (sint a) * (?A mod ?B)"
  have b0: "sint b \<noteq> 0" using assms by (simp only: sint_eq_0 not_False_eq_True)
  then have "0 \<le> ?A mod ?B" "?A mod ?B < ?B" by simp_all
  then have "- (2 ^ 63) \<le> ?r" "?r < 2 ^ 63" using sint_range64 [of b] by (auto simp: sgn_if)
  then have "sint (of_int ?r :: u64) = ?r" by (rule sint_of_int64)
  moreover have "if sint a = - (2 ^ 63) \<and> sint b = - 1 then of_int ?q = a else sint (of_int ?q :: u64) = ?q"
  proof (cases "sint a = - (2 ^ 63) \<and> sint b = - 1")
    case True
    have "of_int (sint a) = a" by simp
    then have "a = - (2 ^ 63)" using True by simp
    then show ?thesis using True by simp
  next
    case False
    then have "sint (of_int ?q :: u64) = ?q"
      by (intro sint_of_int64) (use quotient_range [OF sint_range64 b0 False] in blast)+
    then show ?thesis unfolding if_not_P [OF False] .
  qed
  ultimately show ?thesis using signed_div_spec [OF assms, of a] by blast
qed

theorem signed_division_witness:
  "\<exists>q r. divdi3 (- 7) 2 = Inr q \<and> moddi3 (- 7) 2 = Inr r \<and> sint r = - 1 \<and> sint q = - 3"
  using signed_division [of 2 "- 7"] by simp

end
