(* ===== verification/Bitmap.thy ===== *)
theory Bitmap
  imports KHeap
begin

unbundle bit_operations_syntax

text \<open>
  The bitmap of \<open>kern/lib/bitmap.c\<close>: a fixed number of bits in an array of bytes on the kernel
  heap, used to manage storage. The two blocks of a bitmap are allocated and released through
  the heap; the bytes of the array are kept as a list. The bits past the end of the last byte
  are set, so that the search for a clear bit cannot find them.
\<close>

section \<open>The code\<close>

definition BITS_PER_WORD :: u32 where "BITS_PER_WORD = 8"
definition WORD_ALLBITS :: u8 where "WORD_ALLBITS = 0xff"

record bitmap =
  nbits :: u32
  bm_v :: "u8 list"
  bm_self :: u32
  bm_addr :: u32

definition sizeof_bitmap :: u32 where "sizeof_bitmap = 8"

text \<open>Mark the bits past the end of the last byte.\<close>

definition set_leftover :: "nat \<Rightarrow> nat \<Rightarrow> u8 list \<Rightarrow> u8 list res" where
  "set_leftover ix overbits v =
     rfold (\<lambda>j v. rbind (aget v ix) (\<lambda>w. aset v ix (w OR push_bit j 1))) [overbits..<8] v"

definition bitmap_create :: "u32 \<Rightarrow> kheap \<Rightarrow> (bitmap option \<times> kheap) res" where
  "bitmap_create n h =
     (let words = DIVROUNDUP n BITS_PER_WORD
      in rbind (kmalloc sizeof_bitmap h) (\<lambda>(b, h).
         if b = 0 then Inr (None, h)
         else rbind (kmalloc words h) (\<lambda>(p, h).
           if p = 0 then rbind (kfree b h) (\<lambda>h. Inr (None, h))
           else
             let v = replicate (unat words) 0;
                 ix = words - 1;
                 overbits = n - ix * BITS_PER_WORD
             in rbind (if words > n div BITS_PER_WORD
                       then KASSERT (n div BITS_PER_WORD = words - 1)
                             (KASSERT (overbits > 0 \<and> overbits < BITS_PER_WORD)
                               (set_leftover (unat ix) (unat overbits) v))
                       else Inr v) (\<lambda>v.
                Inr (Some \<lparr>nbits = n, bm_v = v, bm_self = b, bm_addr = p\<rparr>, h)))))"

definition bitmap_getdata :: "bitmap \<Rightarrow> u8 list" where
  "bitmap_getdata b = bm_v b"

fun find_offset :: "nat \<Rightarrow> nat \<Rightarrow> u8 \<Rightarrow> nat option" where
  "find_offset 0 offset w = None"
| "find_offset (Suc k) offset w =
     (if w AND push_bit offset 1 = 0 then Some offset else find_offset k (Suc offset) w)"

text \<open>\<open>bitmap_alloc\<close> returns the error code and, on success, stores an index.\<close>

fun alloc_from :: "nat \<Rightarrow> nat \<Rightarrow> bitmap \<Rightarrow> (int \<times> u32 option \<times> bitmap) res" where
  "alloc_from 0 ix b = Inr (ENOSPC, None, b)"
| "alloc_from (Suc k) ix b =
     rbind (aget (bm_v b) ix) (\<lambda>w.
       if w \<noteq> WORD_ALLBITS
       then (case find_offset 8 0 w of
               None \<Rightarrow> Inl AssertFail
             | Some offset \<Rightarrow>
                 let index = of_nat ix * BITS_PER_WORD + of_nat offset
                 in KASSERT (index < nbits b)
                     (Inr (0, Some index, b\<lparr>bm_v := (bm_v b)[ix := w OR push_bit offset 1]\<rparr>)))
       else alloc_from k (Suc ix) b)"

definition bitmap_alloc :: "bitmap \<Rightarrow> (int \<times> u32 option \<times> bitmap) res" where
  "bitmap_alloc b = alloc_from (unat (DIVROUNDUP (nbits b) BITS_PER_WORD)) 0 b"

definition bitmap_translate :: "u32 \<Rightarrow> nat \<times> u8" where
  "bitmap_translate bitno =
     (unat (bitno div BITS_PER_WORD), push_bit (unat (bitno mod BITS_PER_WORD)) 1)"

definition bitmap_mark :: "bitmap \<Rightarrow> u32 \<Rightarrow> bitmap res" where
  "bitmap_mark b index =
     KASSERT (index < nbits b)
      (let (ix, mask) = bitmap_translate index
       in rbind (aget (bm_v b) ix) (\<lambda>w.
          KASSERT (w AND mask = 0) (Inr (b\<lparr>bm_v := (bm_v b)[ix := w OR mask]\<rparr>))))"

definition bitmap_unmark :: "bitmap \<Rightarrow> u32 \<Rightarrow> bitmap res" where
  "bitmap_unmark b index =
     KASSERT (index < nbits b)
      (let (ix, mask) = bitmap_translate index
       in rbind (aget (bm_v b) ix) (\<lambda>w.
          KASSERT (w AND mask \<noteq> 0) (Inr (b\<lparr>bm_v := (bm_v b)[ix := w AND NOT mask]\<rparr>))))"

definition bitmap_isset :: "bitmap \<Rightarrow> u32 \<Rightarrow> u8 res" where
  "bitmap_isset b index =
     (let (ix, mask) = bitmap_translate index in rbind (aget (bm_v b) ix) (\<lambda>w. Inr (w AND mask)))"

definition bitmap_destroy :: "bitmap \<Rightarrow> kheap \<Rightarrow> kheap res" where
  "bitmap_destroy b h = rbind (kfree (bm_addr b) h) (\<lambda>h. kfree (bm_self b) h)"

section \<open>The set of marked bits\<close>

definition bm_bit :: "u8 list \<Rightarrow> nat \<Rightarrow> bool" where
  "bm_bit v i \<longleftrightarrow> bit (v ! (i div 8)) (i mod 8)"

definition marked_bits :: "bitmap \<Rightarrow> nat set" where
  "marked_bits b = {i. i < unat (nbits b) \<and> bm_bit (bm_v b) i}"

definition bitmap_wf :: "bitmap \<Rightarrow> bool" where
  "bitmap_wf b \<longleftrightarrow> unat (nbits b) < 2 ^ 31 \<and> length (bm_v b) = (unat (nbits b) + 7) div 8
     \<and> (\<forall>i. unat (nbits b) \<le> i \<and> i < 8 * length (bm_v b) \<longrightarrow> bm_bit (bm_v b) i)"

lemma of_nat_less_word: "n < unat w \<Longrightarrow> of_nat n < (w :: u32)"
  by (simp add: word_less_nat_alt unat_of_nat take_bit_eq_mod)

lemma and_bit_eq_0: "w AND 2 ^ k = 0 \<longleftrightarrow> \<not> bit w k" if "k < 8" for w :: u8
  using that by (simp add: and_exp_eq_0_iff_not_bit)

lemma bit_or_mask: "k < 8 \<Longrightarrow> bit (w OR 2 ^ k :: u8) j \<longleftrightarrow> bit w j \<or> j = k"
  by (auto simp: bit_or_iff bit_exp_iff)

lemma bit_and_not_mask: "j < 8 \<Longrightarrow> bit (w AND NOT (2 ^ k) :: u8) j \<longleftrightarrow> bit w j \<and> j \<noteq> k"
  by (auto simp: bit_and_iff bit_not_iff bit_exp_iff)

lemma full_byte_iff: "w = WORD_ALLBITS \<longleftrightarrow> (\<forall>k < 8. bit (w :: u8) k)"
proof -
  have w: "WORD_ALLBITS = mask 8" by (simp add: WORD_ALLBITS_def mask_eq_exp_minus_1)
  have "bit WORD_ALLBITS k \<longleftrightarrow> k < 8" for k unfolding w bit_mask_iff by auto
  then show ?thesis by (auto intro!: bit_word_eqI)
qed

lemma bm_bit_update:
  assumes "i < 8 * length v"
  shows "bm_bit (v[i div 8 := v ! (i div 8) OR 2 ^ (i mod 8)]) j \<longleftrightarrow> bm_bit v j \<or> j = i"
proof -
  have "i div 8 < length v" using assms by (simp add: div_less_iff_less_mult mult.commute)
  moreover have "j = i" if "j div 8 = i div 8" "j mod 8 = i mod 8"
    using that by (metis div_mod_decomp)
  ultimately show ?thesis by (auto simp: bm_bit_def nth_list_update bit_or_mask)
qed

lemma bm_bit_clear:
  assumes "i < 8 * length v"
  shows "bm_bit (v[i div 8 := v ! (i div 8) AND NOT (2 ^ (i mod 8))]) j \<longleftrightarrow> bm_bit v j \<and> j \<noteq> i"
proof -
  have "i div 8 < length v" using assms by (simp add: div_less_iff_less_mult mult.commute)
  moreover have "j = i" if "j div 8 = i div 8" "j mod 8 = i mod 8"
    using that by (metis div_mod_decomp)
  ultimately show ?thesis by (auto simp: bm_bit_def nth_list_update bit_and_not_mask)
qed

lemma unat_DIVROUNDUP: "unat n < 2 ^ 31 \<Longrightarrow> unat (DIVROUNDUP n BITS_PER_WORD) = (unat n + 7) div 8"
  by (simp add: DIVROUNDUP_def BITS_PER_WORD_def unat_div_distrib unat_word_ariths)

lemma translate_eq:
  "bitmap_translate i = (unat i div 8, 2 ^ (unat i mod 8))"
  by (simp add: bitmap_translate_def BITS_PER_WORD_def unat_div_distrib unat_mod_distrib)

lemma wf_index: "bitmap_wf b \<Longrightarrow> i < unat (nbits b) \<Longrightarrow> i < 8 * length (bm_v b)"
  by (simp add: bitmap_wf_def)

section \<open>Marking and testing\<close>

lemma bitmap_mark_spec:
  assumes "bitmap_wf b" "unat i < unat (nbits b)" "unat i \<notin> marked_bits b"
  shows "\<exists>b'. bitmap_mark b i = Inr b' \<and> bitmap_wf b' \<and> nbits b' = nbits b
    \<and> marked_bits b' = insert (unat i) (marked_bits b) \<and> bm_self b' = bm_self b \<and> bm_addr b' = bm_addr b"
proof -
  note len = wf_index [OF assms(1,2)]
  have "unat i div 8 < length (bm_v b)" using len by (simp add: div_less_iff_less_mult mult.commute)
  moreover have "\<not> bm_bit (bm_v b) (unat i)" using assms(2,3) by (simp add: marked_bits_def)
  ultimately show ?thesis
    using assms(1,2) bm_bit_update [OF len]
    by (auto simp: bitmap_mark_def translate_eq and_bit_eq_0 bm_bit_def [of "bm_v b" "unat i"]
        word_less_nat_alt bitmap_wf_def marked_bits_def)
qed

lemma bitmap_unmark_spec:
  assumes "bitmap_wf b" "unat i \<in> marked_bits b"
  shows "\<exists>b'. bitmap_unmark b i = Inr b' \<and> bitmap_wf b' \<and> nbits b' = nbits b
    \<and> marked_bits b' = marked_bits b - {unat i} \<and> bm_self b' = bm_self b \<and> bm_addr b' = bm_addr b"
proof -
  have i: "unat i < unat (nbits b)" using assms(2) by (simp add: marked_bits_def)
  note len = wf_index [OF assms(1) i]
  have "unat i div 8 < length (bm_v b)" using len by (simp add: div_less_iff_less_mult mult.commute)
  moreover have "bm_bit (bm_v b) (unat i)" using assms(2) by (simp add: marked_bits_def)
  ultimately show ?thesis
    using assms(1) i bm_bit_clear [OF len]
    by (auto simp: bitmap_unmark_def translate_eq and_bit_eq_0 bm_bit_def [of "bm_v b" "unat i"]
        word_less_nat_alt bitmap_wf_def marked_bits_def)
qed

lemma bitmap_isset_spec:
  assumes "bitmap_wf b" "unat i < unat (nbits b)"
  shows "\<exists>w. bitmap_isset b i = Inr w \<and> (w \<noteq> 0 \<longleftrightarrow> unat i \<in> marked_bits b)"
proof -
  have "unat i div 8 < length (bm_v b)"
    using wf_index [OF assms] by (simp add: div_less_iff_less_mult mult.commute)
  then show ?thesis
    using assms(2) by (simp add: bitmap_isset_def translate_eq and_bit_eq_0 marked_bits_def bm_bit_def)
qed

section \<open>Allocation\<close>

lemma find_offset_None:
  "offset + k = 8 \<Longrightarrow> find_offset k offset w = None \<Longrightarrow> offset \<le> j \<Longrightarrow> j < 8 \<Longrightarrow> bit w j"
proof (induction k offset w rule: find_offset.induct)
  case (2 k offset w)
  then show ?case by (cases "j = offset") (auto simp: and_bit_eq_0 split: if_splits)
qed simp

lemma find_offset_Some:
  "offset + k = 8 \<Longrightarrow> find_offset k offset w = Some i \<Longrightarrow>
    offset \<le> i \<and> i < 8 \<and> \<not> bit w i \<and> (\<forall>j. offset \<le> j \<and> j < i \<longrightarrow> bit w j)"
proof (induction k offset w rule: find_offset.induct)
  case (2 k offset w)
  then show ?case by (auto simp: and_bit_eq_0 split: if_splits) (metis Suc_leI le_neq_implies_less)
qed simp

text \<open>The outcome of the search from byte \<open>ix\<close> on, when all bits before it are set.\<close>

lemma alloc_from_spec:
  assumes "bitmap_wf b" "ix + k = length (bm_v b)" "\<forall>i < 8 * ix. bm_bit (bm_v b) i"
  shows "(\<forall>i < 8 * length (bm_v b). bm_bit (bm_v b) i) \<and> alloc_from k ix b = Inr (ENOSPC, None, b)
    \<or> (\<exists>i < unat (nbits b). \<not> bm_bit (bm_v b) i \<and> (\<forall>j < i. bm_bit (bm_v b) j)
        \<and> alloc_from k ix b = Inr (0, Some (of_nat i), b\<lparr>bm_v := (bm_v b)[i div 8 := bm_v b ! (i div 8) OR 2 ^ (i mod 8)]\<rparr>))"
  using assms(2,3)
proof (induction k arbitrary: ix)
  case (Suc k)
  let ?w = "bm_v b ! ix"
  have ix: "ix < length (bm_v b)" using Suc.prems(1) by simp
  show ?case
  proof (cases "?w = WORD_ALLBITS")
    case True
    have "bm_bit (bm_v b) i" if "i < 8 * Suc ix" for i
    proof (cases "i < 8 * ix")
      case False
      then have "i div 8 = ix" using that by (simp add: div_nat_eqI)
      then show ?thesis using True full_byte_iff [of ?w] by (simp add: bm_bit_def)
    qed (use Suc.prems(2) in blast)
    then show ?thesis using Suc.IH [of "Suc ix"] Suc.prems(1) ix True by simp
  next
    case False
    then obtain off where off: "find_offset 8 0 ?w = Some off"
      using find_offset_None [of 0 8 ?w] full_byte_iff [of ?w] by (cases "find_offset 8 0 ?w") auto
    note fo = find_offset_Some [OF _ off]
    let ?i = "ix * 8 + off"
    have i: "?i div 8 = ix" "?i mod 8 = off" using fo by simp_all
    have clear: "\<not> bm_bit (bm_v b) ?i" using fo i by (simp add: bm_bit_def)
    have "?i < 8 * length (bm_v b)" using ix fo by simp
    then have small: "?i < unat (nbits b)" using assms(1) clear by (metis bitmap_wf_def not_le)
    have before: "bm_bit (bm_v b) j" if "j < ?i" for j
    proof (cases "j < 8 * ix")
      case False
      then have "j div 8 = ix" using that fo by (auto simp: div_nat_eqI)
      moreover from this have "j mod 8 < off" using that div_mod_decomp [of j 8] by simp
      ultimately have "j div 8 = ix" "j mod 8 < off" by simp_all
      then show ?thesis using fo by (simp add: bm_bit_def)
    qed (use Suc.prems(2) in blast)
    have "of_nat ix * BITS_PER_WORD + of_nat off = (of_nat ?i :: u32)" by (simp add: BITS_PER_WORD_def)
    moreover have "(of_nat ?i :: u32) < nbits b"
      using small by (rule of_nat_less_word)
    ultimately have "alloc_from (Suc k) ix b
        = Inr (0, Some (of_nat ?i), b\<lparr>bm_v := (bm_v b)[?i div 8 := bm_v b ! (?i div 8) OR 2 ^ (?i mod 8)]\<rparr>)"
      using ix False off i by simp
    then show ?thesis using small clear before by blast
  qed
qed simp

lemma bitmap_alloc_spec:
  assumes "bitmap_wf b"
  shows "if marked_bits b = {..<unat (nbits b)} then bitmap_alloc b = Inr (ENOSPC, None, b)
    else \<exists>i b'. bitmap_alloc b = Inr (0, Some i, b') \<and> bitmap_wf b' \<and> nbits b' = nbits b
      \<and> unat i < unat (nbits b) \<and> unat i \<notin> marked_bits b \<and> {..<unat i} \<subseteq> marked_bits b
      \<and> marked_bits b' = insert (unat i) (marked_bits b) \<and> bm_self b' = bm_self b \<and> bm_addr b' = bm_addr b"
proof -
  have "alloc_from (length (bm_v b)) 0 b = bitmap_alloc b"
    using assms unat_DIVROUNDUP [of "nbits b"] by (simp add: bitmap_alloc_def bitmap_wf_def)
  note spec = alloc_from_spec [OF assms, of 0 "length (bm_v b)", unfolded this, simplified]
  show ?thesis
  proof (cases "\<forall>i < 8 * length (bm_v b). bm_bit (bm_v b) i")
    case True
    then have "marked_bits b = {..<unat (nbits b)}" using wf_index [OF assms] by (auto simp: marked_bits_def)
    moreover have "\<not> (\<exists>i < unat (nbits b). \<not> bm_bit (bm_v b) i)" using True wf_index [OF assms] by blast
    ultimately show ?thesis using spec by auto
  next
    case False
    then obtain i where i: "i < unat (nbits b)" "\<not> bm_bit (bm_v b) i" "\<forall>j < i. bm_bit (bm_v b) j"
        "bitmap_alloc b = Inr (0, Some (of_nat i), b\<lparr>bm_v := (bm_v b)[i div 8 := bm_v b ! (i div 8) OR 2 ^ (i mod 8)]\<rparr>)"
      using spec by blast
    note up = bm_bit_update [OF wf_index [OF assms i(1)]]
    have u: "unat (of_nat i :: u32) = i"
      using i(1) unsigned_less [of "nbits b", where 'a = nat] by (simp add: unat_of_nat)
    have "marked_bits b \<noteq> {..<unat (nbits b)}" using i(1,2) by (auto simp: marked_bits_def)
    moreover have "{..<i} \<subseteq> marked_bits b" using i(1,3) by (auto simp: marked_bits_def)
    moreover have "i \<notin> marked_bits b" using i(2) by (simp add: marked_bits_def)
    ultimately show ?thesis using i(1,4) u up assms by (auto simp: bitmap_wf_def marked_bits_def)
  qed
qed

section \<open>Creation and destruction\<close>

lemma set_leftover_upto:
  fixes v :: "u8 list"
  assumes "ix < length v" "e \<le> 8"
  shows "\<exists>v'. rfold (\<lambda>j v. rbind (aget v ix) (\<lambda>w. aset v ix (w OR push_bit j 1))) [overbits..<e] v = Inr v'
    \<and> length v' = length v \<and> (\<forall>i. i \<noteq> ix \<longrightarrow> v' ! i = v ! i)
    \<and> (\<forall>k. bit (v' ! ix) k \<longleftrightarrow> bit (v ! ix) k \<or> overbits \<le> k \<and> k < e)"
  using assms(2)
proof (induction e)
  case (Suc e)
  then obtain v' where v': "rfold (\<lambda>j v. rbind (aget v ix) (\<lambda>w. aset v ix (w OR push_bit j 1))) [overbits..<e] v = Inr v'"
      "length v' = length v" "\<forall>i. i \<noteq> ix \<longrightarrow> v' ! i = v ! i"
      "\<forall>k. bit (v' ! ix) k \<longleftrightarrow> bit (v ! ix) k \<or> overbits \<le> k \<and> k < e"
    by auto
  show ?case
  proof (cases "overbits \<le> e")
    case True
    then show ?thesis using v' assms(1) Suc.prems by (auto simp: rfold_append bit_or_mask less_Suc_eq)
  next
    case False
    then have "[overbits..<Suc e] = [overbits..<e]" by simp
    moreover have "overbits \<le> k \<and> k < Suc e \<longleftrightarrow> overbits \<le> k \<and> k < e" for k using False by linarith
    ultimately show ?thesis using v' by (simp only:) blast
  qed
qed simp

text \<open>The bytes of a new bitmap: no bit is set but those past the end.\<close>

lemma create_bytes:
  assumes "unat n < 2 ^ 31"
  defines "words \<equiv> DIVROUNDUP n BITS_PER_WORD"
  shows "\<exists>v. (if words > n div BITS_PER_WORD
              then KASSERT (n div BITS_PER_WORD = words - 1)
                (KASSERT (n - (words - 1) * BITS_PER_WORD > 0 \<and> n - (words - 1) * BITS_PER_WORD < BITS_PER_WORD)
                  (set_leftover (unat (words - 1)) (unat (n - (words - 1) * BITS_PER_WORD)) (replicate (unat words) 0)))
              else Inr (replicate (unat words) 0)) = Inr v
    \<and> length v = (unat n + 7) div 8 \<and> (\<forall>i < 8 * length v. bm_bit v i \<longleftrightarrow> unat n \<le> i)"
proof -
  have w: "unat words = (unat n + 7) div 8" using assms(1) by (simp add: words_def unat_DIVROUNDUP)
  have nd: "unat (n div BITS_PER_WORD) = unat n div 8" by (simp add: BITS_PER_WORD_def unat_div_distrib)
  have gt: "words > n div BITS_PER_WORD \<longleftrightarrow> unat n mod 8 \<noteq> 0"
    unfolding word_less_nat_alt w nd by presburger
  have zero: "\<not> bm_bit (replicate k 0) i" if "i < 8 * k" for i k
    using that by (simp add: bm_bit_def div_less_iff_less_mult mult.commute)
  show ?thesis
  proof (cases "unat n mod 8 = 0")
    case True
    then show ?thesis using gt w zero by auto
  next
    case False
    then have one: "unat words = unat n div 8 + 1" unfolding w by presburger
    have ix: "unat (words - 1) = unat n div 8"
      using one by (simp add: unat_sub word_le_nat_alt)
    then have e1: "n div BITS_PER_WORD = words - 1" using nd by (simp add: word_unat_eq_iff)
    have ov: "unat (n - (words - 1) * BITS_PER_WORD) = unat n mod 8"
    proof -
      have "unat ((words - 1) * BITS_PER_WORD) = unat n div 8 * 8"
        unfolding BITS_PER_WORD_def unat_word_ariths(2) ix using assms(1) by simp
      then show ?thesis by (simp add: unat_sub word_le_nat_alt minus_div_mult_eq_mod)
    qed
    let ?ov = "n - (words - 1) * BITS_PER_WORD"
    have b: "?ov > 0 \<and> ?ov < BITS_PER_WORD"
      using ov False unfolding word_less_nat_alt by (simp add: BITS_PER_WORD_def)
    have "unat n div 8 < length (replicate (unat words) (0 :: u8))" using one by simp
    from set_leftover_upto [OF this, of 8 "unat n mod 8"] obtain v where v:
        "set_leftover (unat n div 8) (unat n mod 8) (replicate (unat words) 0) = Inr v"
        "length v = unat words" "\<forall>i. i \<noteq> unat n div 8 \<longrightarrow> v ! i = replicate (unat words) 0 ! i"
        "\<forall>k. bit (v ! (unat n div 8)) k \<longleftrightarrow> bit (replicate (unat words) (0 :: u8) ! (unat n div 8)) k \<or> unat n mod 8 \<le> k \<and> k < 8"
      by (auto simp: set_leftover_def)
    have "bm_bit v i \<longleftrightarrow> unat n \<le> i" if "i < 8 * length v" for i
    proof (cases "i div 8 = unat n div 8")
      case True
      have "replicate (unat words) (0 :: u8) ! (unat n div 8) = 0" by (rule nth_replicate) (simp only: one)
      then have "bm_bit v i \<longleftrightarrow> unat n mod 8 \<le> i mod 8" using v(4) True by (simp add: bm_bit_def)
      also have "\<dots> \<longleftrightarrow> unat n \<le> i" using True div_mod_decomp [of i 8] div_mod_decomp [of "unat n" 8] by linarith
      finally show ?thesis .
    next
      case False
      then have "\<not> bm_bit v i" using v(2,3) zero [of i "unat words"] that by (simp add: bm_bit_def)
      moreover have "i div 8 < unat n div 8" using False that v(2) one by (simp add: div_less_iff_less_mult mult.commute)
      then have "i < unat n" by (meson div_le_mono not_less)
      ultimately show ?thesis by simp
    qed
    then show ?thesis using v(1,2) w False gt e1 b ix ov by auto
  qed
qed

text \<open>Both blocks are allocated or neither, and destruction gives back exactly these two.\<close>

lemma bitmap_create_spec:
  assumes "heap_inv h" "unat n \<le> 16000"
  shows "\<exists>r h'. bitmap_create n h = Inr (r, h') \<and> heap_inv h' \<and>
    (case r of
       None \<Rightarrow> allocated h' = allocated h
     | Some b \<Rightarrow> bitmap_wf b \<and> nbits b = n \<and> marked_bits b = {} \<and>
         (\<exists>y z. allocated h' = insert (bm_addr b, z) (insert (bm_self b, y) (allocated h))
           \<and> (bm_self b, y) \<notin> allocated h \<and> (bm_addr b, z) \<notin> insert (bm_self b, y) (allocated h)))"
proof -
  let ?words = "DIVROUNDUP n BITS_PER_WORD"
  have w: "unat ?words < 2048" using assms(2) by (simp add: unat_DIVROUNDUP)
  obtain v where v: "(if ?words > n div BITS_PER_WORD
              then KASSERT (n div BITS_PER_WORD = ?words - 1)
                (KASSERT (n - (?words - 1) * BITS_PER_WORD > 0 \<and> n - (?words - 1) * BITS_PER_WORD < BITS_PER_WORD)
                  (set_leftover (unat (?words - 1)) (unat (n - (?words - 1) * BITS_PER_WORD)) (replicate (unat ?words) 0)))
              else Inr (replicate (unat ?words) 0)) = Inr v"
      "length v = (unat n + 7) div 8" "\<forall>i < 8 * length v. bm_bit v i \<longleftrightarrow> unat n \<le> i"
    using create_bytes [of n] assms(2) by auto
  obtain b h1 where k1: "kmalloc sizeof_bitmap h = Inr (b, h1)" "heap_inv h1"
      and c1: "b = 0 \<and> allocated h1 = allocated h \<or> b \<noteq> 0 \<and> (\<exists>y. (b, y) \<notin> allocated h \<and> allocated h1 = insert (b, y) (allocated h))"
    using kheap.alloc_total [OF assms(1), of sizeof_bitmap] by (auto simp: sizeof_bitmap_def)
  show ?thesis
  proof (cases "b = 0")
    case True
    then show ?thesis using k1 c1 by (simp add: bitmap_create_def Let_def)
  next
    case False
    then obtain y where y: "(b, y) \<notin> allocated h" "allocated h1 = insert (b, y) (allocated h)" using c1 by blast
    obtain p h2 where k2: "kmalloc ?words h1 = Inr (p, h2)" "heap_inv h2"
        and c2: "p = 0 \<and> allocated h2 = allocated h1 \<or> p \<noteq> 0 \<and> (\<exists>z. (p, z) \<notin> allocated h1 \<and> allocated h2 = insert (p, z) (allocated h1))"
      using kheap.alloc_total [OF k1(2) w] by blast
    show ?thesis
    proof (cases "p = 0")
      case True
      then have a2: "allocated h2 = insert (b, y) (allocated h)" using c2 y(2) by simp
      then obtain h3 where "kfree b h2 = Inr h3" "heap_inv h3" "allocated h3 = allocated h2 - {(b, y)}"
        using kheap.release_total [OF k2(2), of b y] by auto
      then show ?thesis using a2 y(1) True False k1 k2 by (auto simp: bitmap_create_def Let_def)
    next
      case ok: False
      then obtain z where z: "(p, z) \<notin> allocated h1" "allocated h2 = insert (p, z) (allocated h1)" using c2 by blast
      let ?b = "\<lparr>nbits = n, bm_v = v, bm_self = b, bm_addr = p\<rparr>"
      have "bitmap_create n h = Inr (Some ?b, h2)"
        using False ok k1(1) k2(1) v(1) unfolding bitmap_create_def Let_def by simp
      moreover have wf: "bitmap_wf ?b" using v(2,3) assms(2) by (simp add: bitmap_wf_def)
      moreover have "marked_bits ?b = {}" using v(3) wf_index [OF wf] by (auto simp: marked_bits_def)
      ultimately show ?thesis using k2(2) y z by auto
    qed
  qed
qed

lemma bitmap_destroy_spec:
  assumes "heap_inv h" "(bm_addr b, z) \<in> allocated h" "(bm_self b, y) \<in> allocated h" "(bm_self b, y) \<noteq> (bm_addr b, z)"
  shows "\<exists>h'. bitmap_destroy b h = Inr h' \<and> heap_inv h' \<and> allocated h' = allocated h - {(bm_addr b, z), (bm_self b, y)}"
proof -
  obtain h1 where h1: "kfree (bm_addr b) h = Inr h1" "heap_inv h1" "allocated h1 = allocated h - {(bm_addr b, z)}"
    using kheap.release_total [OF assms(1,2)] by blast
  then have "(bm_self b, y) \<in> allocated h1" using assms(3,4) by simp
  then obtain h2 where "kfree (bm_self b) h1 = Inr h2" "heap_inv h2" "allocated h2 = allocated h1 - {(bm_self b, y)}"
    using kheap.release_total [OF h1(2)] by blast
  then show ?thesis using h1 by (auto simp: bitmap_destroy_def)
qed

section \<open>A pool of indices\<close>

text \<open>
  What the users of a bitmap rely on: a pool of the numbers below \<open>size\<close>, from which \<open>take\<close> hands
  out the least free one, or reports that there is none, and to which \<open>give\<close> returns one.
\<close>

locale index_pool =
  fixes take_index :: "'b \<Rightarrow> (int \<times> u32 option \<times> 'b) res"
    and give_index :: "'b \<Rightarrow> u32 \<Rightarrow> 'b res"
    and pool_inv :: "'b \<Rightarrow> bool"
    and pool_size :: "'b \<Rightarrow> nat"
    and in_use :: "'b \<Rightarrow> nat set"
  assumes in_use_range: "pool_inv b \<Longrightarrow> in_use b \<subseteq> {..<pool_size b}"
    and take_full: "pool_inv b \<Longrightarrow> in_use b = {..<pool_size b} \<Longrightarrow> take_index b = Inr (ENOSPC, None, b)"
    and take_free: "pool_inv b \<Longrightarrow> in_use b \<noteq> {..<pool_size b} \<Longrightarrow>
      \<exists>i b'. take_index b = Inr (0, Some i, b') \<and> pool_inv b' \<and> pool_size b' = pool_size b
        \<and> unat i < pool_size b \<and> unat i \<notin> in_use b \<and> in_use b' = insert (unat i) (in_use b)"
    and give: "pool_inv b \<Longrightarrow> unat i \<in> in_use b \<Longrightarrow>
      \<exists>b'. give_index b i = Inr b' \<and> pool_inv b' \<and> pool_size b' = pool_size b \<and> in_use b' = in_use b - {unat i}"
begin

lemma take_give:
  assumes "pool_inv b" "take_index b = Inr (0, Some i, b')"
  shows "\<exists>b''. give_index b' i = Inr b'' \<and> pool_inv b'' \<and> in_use b'' = in_use b"
proof (cases "in_use b = {..<pool_size b}")
  case True
  then show ?thesis using take_full [OF assms(1)] assms(2) by simp
next
  case False
  then have b': "pool_inv b'" "unat i \<notin> in_use b" "in_use b' = insert (unat i) (in_use b)"
    using take_free [OF assms(1)] assms(2) by auto
  then show ?thesis using give [OF b'(1), of i] by auto
qed

end

interpretation bits: index_pool bitmap_alloc bitmap_unmark bitmap_wf "\<lambda>b. unat (nbits b)" marked_bits
proof unfold_locales
  fix b
  assume wf: "bitmap_wf b"
  show "marked_bits b \<subseteq> {..<unat (nbits b)}" by (auto simp: marked_bits_def)
  show "marked_bits b = {..<unat (nbits b)} \<Longrightarrow> bitmap_alloc b = Inr (ENOSPC, None, b)"
    using bitmap_alloc_spec [OF wf] by simp
  show "marked_bits b \<noteq> {..<unat (nbits b)} \<Longrightarrow>
      \<exists>i b'. bitmap_alloc b = Inr (0, Some i, b') \<and> bitmap_wf b' \<and> unat (nbits b') = unat (nbits b)
        \<and> unat i < unat (nbits b) \<and> unat i \<notin> marked_bits b \<and> marked_bits b' = insert (unat i) (marked_bits b)"
    using bitmap_alloc_spec [OF wf] by auto
  show "\<exists>b'. bitmap_unmark b i = Inr b' \<and> bitmap_wf b'
      \<and> unat (nbits b') = unat (nbits b) \<and> marked_bits b' = marked_bits b - {unat i}"
    if "unat i \<in> marked_bits b" for i
    using bitmap_unmark_spec [OF wf that] by auto
qed

section \<open>Properties\<close>

text \<open>
  C13: Allocating a bit returns the least clear one and marks it, whatever bits are marked, and
  releasing it gives back the set of marked bits; with all bits marked it returns
  \<open>ENOSPC\<close> and changes nothing. No assertion of the search can fail.
\<close>

theorem bitmap_alloc_correct:
  assumes "bitmap_wf b"
  shows "if marked_bits b = {..<unat (nbits b)} then bitmap_alloc b = Inr (ENOSPC, None, b)
    else \<exists>i b' b''. bitmap_alloc b = Inr (0, Some i, b') \<and> bitmap_wf b'
      \<and> unat i < unat (nbits b) \<and> unat i \<notin> marked_bits b \<and> {..<unat i} \<subseteq> marked_bits b
      \<and> marked_bits b' = insert (unat i) (marked_bits b)
      \<and> bitmap_unmark b' i = Inr b'' \<and> bitmap_wf b'' \<and> marked_bits b'' = marked_bits b"
proof (cases "marked_bits b = {..<unat (nbits b)}")
  case True
  then show ?thesis using bitmap_alloc_spec [OF assms] by simp
next
  case False
  then obtain i b' where b': "bitmap_alloc b = Inr (0, Some i, b')" "bitmap_wf b'"
      "unat i < unat (nbits b)" "unat i \<notin> marked_bits b" "{..<unat i} \<subseteq> marked_bits b"
      "marked_bits b' = insert (unat i) (marked_bits b)"
    using bitmap_alloc_spec [OF assms] by auto
  then show ?thesis using bits.take_give [OF assms b'(1)] False by auto
qed

definition two_free :: bitmap where
  "two_free = \<lparr>nbits = 10, bm_v = [0xff, 0xfc], bm_self = 0x80001000, bm_addr = 0x80001010\<rparr>"

lemma two_free_wf: "bitmap_wf two_free"
proof -
  have "bm_bit [0xff, 0xfc] i" if "10 \<le> i" "i < 16" for i
  proof -
    have "i \<in> {10, 11, 12, 13, 14, 15}" using that by auto
    then show ?thesis by (auto simp: bm_bit_def)
  qed
  then show ?thesis by (simp add: bitmap_wf_def two_free_def)
qed

theorem bitmap_alloc_correct_witness:
  "\<exists>i b'. bitmap_alloc two_free = Inr (0, Some i, b') \<and> bitmap_wf b' \<and> unat i \<notin> marked_bits two_free"
proof -
  have "9 \<notin> marked_bits two_free" by (simp add: marked_bits_def two_free_def bm_bit_def)
  moreover have "9 < unat (nbits two_free)" by (simp add: two_free_def)
  ultimately have "marked_bits two_free \<noteq> {..<unat (nbits two_free)}" by blast
  from bitmap_alloc_correct [OF two_free_wf, unfolded if_not_P [OF this]] show ?thesis by blast
qed



end
