(* ===== verification/ThreadList.thy ===== *)
theory ThreadList
  imports Prelude
begin

text \<open>
  The doubly linked thread lists of \<open>kern/thread/threadlist.c\<close>. The list nodes live in one store:
  every list has two bookend nodes, every thread has the node embedded in its structure, and
  pointers are optional node names, null being \<^term>\<open>None\<close>. The debug assertions are turned off
  in \<open>lib.h\<close>; following a null pointer is a fault. All lists of the system are related at once to
  a map from lists to sequences of threads, so that an operation on one list is also shown to
  leave the others alone.
\<close>

section \<open>The code\<close>

text \<open>The address of a node: the bookends of a list, or the node inside a thread.\<close>

datatype nodeptr = TlHead nat | TlTail nat | TNode nat

record threadlistnode =
  tln_prev :: "nodeptr option"
  tln_next :: "nodeptr option"
  tln_self :: "nat option"

record tlstore =
  tl_nodes :: "nodeptr \<Rightarrow> threadlistnode"
  tl_count :: "nat \<Rightarrow> u32"

definition set_prev :: "nodeptr \<Rightarrow> nodeptr option \<Rightarrow> tlstore \<Rightarrow> tlstore" where
  "set_prev p x s = s\<lparr>tl_nodes := (tl_nodes s)(p := (tl_nodes s p)\<lparr>tln_prev := x\<rparr>)\<rparr>"

definition set_next :: "nodeptr \<Rightarrow> nodeptr option \<Rightarrow> tlstore \<Rightarrow> tlstore" where
  "set_next p x s = s\<lparr>tl_nodes := (tl_nodes s)(p := (tl_nodes s p)\<lparr>tln_next := x\<rparr>)\<rparr>"

definition set_self :: "nodeptr \<Rightarrow> nat option \<Rightarrow> tlstore \<Rightarrow> tlstore" where
  "set_self p x s = s\<lparr>tl_nodes := (tl_nodes s)(p := (tl_nodes s p)\<lparr>tln_self := x\<rparr>)\<rparr>"

definition set_count :: "nat \<Rightarrow> u32 \<Rightarrow> tlstore \<Rightarrow> tlstore" where
  "set_count l x s = s\<lparr>tl_count := (tl_count s)(l := x)\<rparr>"

definition nonnull :: "'a option \<Rightarrow> 'a res" where
  "nonnull p = (case p of None \<Rightarrow> Inl NullDeref | Some x \<Rightarrow> Inr x)"

definition threadlistnode_init :: "nodeptr \<Rightarrow> nat option \<Rightarrow> tlstore \<Rightarrow> tlstore res" where
  "threadlistnode_init tln t s =
     KASSERT (t \<noteq> None) (Inr (set_self tln t (set_prev tln None (set_next tln None s))))"

definition threadlistnode_cleanup :: "nodeptr \<Rightarrow> tlstore \<Rightarrow> unit res" where
  "threadlistnode_cleanup tln s =
     KASSERT (tln_next (tl_nodes s tln) = None)
      (KASSERT (tln_prev (tl_nodes s tln) = None)
        (KASSERT (tln_self (tl_nodes s tln) \<noteq> None) (Inr ())))"

definition threadlist_init :: "nat \<Rightarrow> tlstore \<Rightarrow> tlstore" where
  "threadlist_init lst s =
     (let s = set_next (TlHead lst) (Some (TlTail lst)) s;
          s = set_prev (TlHead lst) None s;
          s = set_next (TlTail lst) None s;
          s = set_prev (TlTail lst) (Some (TlHead lst)) s;
          s = set_self (TlHead lst) None s;
          s = set_self (TlTail lst) None s
      in set_count lst 0 s)"

definition threadlist_isempty :: "nat \<Rightarrow> tlstore \<Rightarrow> bool" where
  "threadlist_isempty lst s = (tl_count s lst = 0)"

definition threadlist_cleanup :: "nat \<Rightarrow> tlstore \<Rightarrow> unit res" where
  "threadlist_cleanup lst s =
     KASSERT (threadlist_isempty lst s) (KASSERT (tl_count s lst = 0) (Inr ()))"

definition threadlist_insertafternode :: "nodeptr \<Rightarrow> nat \<Rightarrow> tlstore \<Rightarrow> tlstore res" where
  "threadlist_insertafternode onlist t s =
     (let addee = TNode t;
          s = set_prev addee (Some onlist) s;
          s = set_next addee (tln_next (tl_nodes s onlist)) s
      in rbind (nonnull (tln_prev (tl_nodes s addee))) (\<lambda>p.
         let s = set_next p (Some addee) s
         in rbind (nonnull (tln_next (tl_nodes s addee))) (\<lambda>n.
            Inr (set_prev n (Some addee) s))))"

definition threadlist_insertbeforenode :: "nat \<Rightarrow> nodeptr \<Rightarrow> tlstore \<Rightarrow> tlstore res" where
  "threadlist_insertbeforenode t onlist s =
     (let addee = TNode t;
          s = set_prev addee (tln_prev (tl_nodes s onlist)) s;
          s = set_next addee (Some onlist) s
      in rbind (nonnull (tln_prev (tl_nodes s addee))) (\<lambda>p.
         let s = set_next p (Some addee) s
         in rbind (nonnull (tln_next (tl_nodes s addee))) (\<lambda>n.
            Inr (set_prev n (Some addee) s))))"

definition threadlist_removenode :: "nodeptr \<Rightarrow> tlstore \<Rightarrow> tlstore res" where
  "threadlist_removenode tln s =
     rbind (nonnull (tln_prev (tl_nodes s tln))) (\<lambda>p.
     let s = set_next p (tln_next (tl_nodes s tln)) s
     in rbind (nonnull (tln_next (tl_nodes s tln))) (\<lambda>n.
        let s = set_prev n (tln_prev (tl_nodes s tln)) s;
            s = set_prev tln None s
        in Inr (set_next tln None s)))"

definition threadlist_addhead :: "nat \<Rightarrow> nat \<Rightarrow> tlstore \<Rightarrow> tlstore res" where
  "threadlist_addhead lst t s =
     rbind (threadlist_insertafternode (TlHead lst) t s) (\<lambda>s. Inr (set_count lst (tl_count s lst + 1) s))"

definition threadlist_addtail :: "nat \<Rightarrow> nat \<Rightarrow> tlstore \<Rightarrow> tlstore res" where
  "threadlist_addtail lst t s =
     rbind (threadlist_insertbeforenode t (TlTail lst) s) (\<lambda>s. Inr (set_count lst (tl_count s lst + 1) s))"

definition threadlist_remhead :: "nat \<Rightarrow> tlstore \<Rightarrow> (nat option \<times> tlstore) res" where
  "threadlist_remhead lst s =
     rbind (nonnull (tln_next (tl_nodes s (TlHead lst)))) (\<lambda>tln.
       if tln_next (tl_nodes s tln) = None then Inr (None, s)
       else rbind (threadlist_removenode tln s) (\<lambda>s.
         let s = set_count lst (tl_count s lst - 1) s
         in Inr (tln_self (tl_nodes s tln), s)))"

definition threadlist_remtail :: "nat \<Rightarrow> tlstore \<Rightarrow> (nat option \<times> tlstore) res" where
  "threadlist_remtail lst s =
     rbind (nonnull (tln_prev (tl_nodes s (TlTail lst)))) (\<lambda>tln.
       if tln_prev (tl_nodes s tln) = None then Inr (None, s)
       else rbind (threadlist_removenode tln s) (\<lambda>s.
         let s = set_count lst (tl_count s lst - 1) s
         in Inr (tln_self (tl_nodes s tln), s)))"

definition threadlist_insertafter :: "nat \<Rightarrow> nat \<Rightarrow> nat \<Rightarrow> tlstore \<Rightarrow> tlstore res" where
  "threadlist_insertafter lst onlist addee s =
     rbind (threadlist_insertafternode (TNode onlist) addee s) (\<lambda>s. Inr (set_count lst (tl_count s lst + 1) s))"

definition threadlist_insertbefore :: "nat \<Rightarrow> nat \<Rightarrow> nat \<Rightarrow> tlstore \<Rightarrow> tlstore res" where
  "threadlist_insertbefore lst addee onlist s =
     rbind (threadlist_insertbeforenode addee (TNode onlist) s) (\<lambda>s. Inr (set_count lst (tl_count s lst + 1) s))"

definition threadlist_remove :: "nat \<Rightarrow> nat \<Rightarrow> tlstore \<Rightarrow> tlstore res" where
  "threadlist_remove lst t s =
     rbind (threadlist_removenode (TNode t) s) (\<lambda>s. Inr (set_count lst (tl_count s lst - 1) s))"

text \<open>
  The iteration macro of \<open>threadlist.h\<close>: the loop variable is a thread, taken from the \<open>self\<close> field
  of the next node; the test reads the \<open>next\<close> field of that thread's node. The list of threads
  visited is returned.
\<close>

fun forall_from :: "nat \<Rightarrow> nat option \<Rightarrow> tlstore \<Rightarrow> nat list res" where
  "forall_from 0 itervar s = Inl Diverge"
| "forall_from (Suc fuel) itervar s =
     rbind (nonnull itervar) (\<lambda>t.
       case tln_next (tl_nodes s (TNode t)) of
         None \<Rightarrow> Inr []
       | Some n \<Rightarrow> rbind (forall_from fuel (tln_self (tl_nodes s n)) s) (\<lambda>ts. Inr (t # ts)))"

definition THREADLIST_FORALL :: "nat \<Rightarrow> nat \<Rightarrow> tlstore \<Rightarrow> nat list res" where
  "THREADLIST_FORALL fuel lst s =
     rbind (nonnull (tln_next (tl_nodes s (TlHead lst)))) (\<lambda>n. forall_from fuel (tln_self (tl_nodes s n)) s)"

section \<open>Chains\<close>

fun chain :: "(nodeptr \<Rightarrow> threadlistnode) \<Rightarrow> nodeptr list \<Rightarrow> bool" where
  "chain n (a # b # ps) \<longleftrightarrow> tln_next (n a) = Some b \<and> tln_prev (n b) = Some a \<and> chain n (b # ps)"
| "chain n ps \<longleftrightarrow> True"

lemma chain_append:
  "chain n (ps @ a # b # qs) \<longleftrightarrow>
     chain n (ps @ [a]) \<and> tln_next (n a) = Some b \<and> tln_prev (n b) = Some a \<and> chain n (b # qs)"
proof (induction ps)
  case (Cons p ps)
  then show ?case by (cases ps) auto
qed simp

text \<open>A chain depends only on the \<open>next\<close> of all nodes but its last, the \<open>prev\<close> of all but its first.\<close>

lemma node_chain_cong:
  assumes "\<And>p. p \<in> set (butlast ps) \<Longrightarrow> tln_next (m p) = tln_next (n p)"
    and "\<And>p. p \<in> set (tl ps) \<Longrightarrow> tln_prev (m p) = tln_prev (n p)"
  shows "chain m ps \<longleftrightarrow> chain n ps"
  using assms
proof (induction n ps rule: chain.induct)
  case (1 n a b ps)
  have "chain m (b # ps) \<longleftrightarrow> chain n (b # ps)"
    using "1.prems" by (intro "1.IH") (auto dest: list.set_sel(2) [rotated])
  then show ?case using "1.prems"(1) [of a] "1.prems"(2) [of b] by simp
qed simp_all

section \<open>The lists of the system\<close>

definition tl_path :: "nat \<Rightarrow> nat list \<Rightarrow> nodeptr list" where
  "tl_path l ts = TlHead l # map TNode ts @ [TlTail l]"

definition is_list :: "tlstore \<Rightarrow> nat \<Rightarrow> nat list \<Rightarrow> bool" where
  "is_list s l ts \<longleftrightarrow> chain (tl_nodes s) (tl_path l ts) \<and> distinct ts
     \<and> tln_prev (tl_nodes s (TlHead l)) = None \<and> tln_next (tl_nodes s (TlTail l)) = None
     \<and> tln_self (tl_nodes s (TlHead l)) = None \<and> tln_self (tl_nodes s (TlTail l)) = None
     \<and> tl_count s l = of_nat (length ts)"

text \<open>
  \<open>L\<close> gives the contents of every initialised list, \<open>T\<close> the initialised threads. A thread is on
  one list at most; the node of a thread on no list has null links.
\<close>

definition lists_inv :: "(nat \<rightharpoonup> nat list) \<Rightarrow> nat set \<Rightarrow> tlstore \<Rightarrow> bool" where
  "lists_inv L T s \<longleftrightarrow> finite T \<and> card T < 2 ^ 32
     \<and> (\<forall>l ts. L l = Some ts \<longrightarrow> is_list s l ts \<and> set ts \<subseteq> T)
     \<and> (\<forall>l m ts us. L l = Some ts \<and> L m = Some us \<and> l \<noteq> m \<longrightarrow> set ts \<inter> set us = {})
     \<and> (\<forall>t \<in> T. tln_self (tl_nodes s (TNode t)) = Some t
         \<and> ((\<forall>l ts. L l = Some ts \<longrightarrow> t \<notin> set ts) \<longrightarrow>
             tln_prev (tl_nodes s (TNode t)) = None \<and> tln_next (tl_nodes s (TNode t)) = None))"

definition off_lists :: "(nat \<rightharpoonup> nat list) \<Rightarrow> nat \<Rightarrow> bool" where
  "off_lists L t \<longleftrightarrow> (\<forall>l ts. L l = Some ts \<longrightarrow> t \<notin> set ts)"

lemma lists_invD:
  assumes "lists_inv L T s"
  shows "finite T" "card T < 2 ^ 32" "L l = Some ts \<Longrightarrow> is_list s l ts" "L l = Some ts \<Longrightarrow> set ts \<subseteq> T"
    "L l = Some ts \<Longrightarrow> L m = Some us \<Longrightarrow> l \<noteq> m \<Longrightarrow> set ts \<inter> set us = {}"
    "t \<in> T \<Longrightarrow> tln_self (tl_nodes s (TNode t)) = Some t"
    "t \<in> T \<Longrightarrow> off_lists L t \<Longrightarrow> tln_prev (tl_nodes s (TNode t)) = None \<and> tln_next (tl_nodes s (TNode t)) = None"
  using assms unfolding lists_inv_def off_lists_def by blast+

lemma set_tl_path: "set (tl_path l ts) = {TlHead l, TlTail l} \<union> TNode ` set ts"
  by (auto simp: tl_path_def)

lemma distinct_tl_path: "distinct ts \<Longrightarrow> distinct (tl_path l ts)"
  by (auto simp: tl_path_def distinct_map inj_on_def)

lemma tl_path_disjoint: "l \<noteq> m \<Longrightarrow> set ts \<inter> set us = {} \<Longrightarrow> set (tl_path l ts) \<inter> set (tl_path m us) = {}"
  by (auto simp: set_tl_path)

section \<open>Linking and unlinking a node\<close>

definition link_in :: "nodeptr \<Rightarrow> nodeptr \<Rightarrow> nodeptr \<Rightarrow> (nodeptr \<Rightarrow> threadlistnode) \<Rightarrow> nodeptr \<Rightarrow> threadlistnode" where
  "link_in a x b n p = (n p)
     \<lparr>tln_next := if p = a then Some x else if p = x then Some b else tln_next (n p),
      tln_prev := if p = b then Some x else if p = x then Some a else tln_prev (n p)\<rparr>"

definition link_out :: "nodeptr \<Rightarrow> nodeptr \<Rightarrow> nodeptr \<Rightarrow> (nodeptr \<Rightarrow> threadlistnode) \<Rightarrow> nodeptr \<Rightarrow> threadlistnode" where
  "link_out a x b n p = (n p)
     \<lparr>tln_next := if p = a then Some b else if p = x then None else tln_next (n p),
      tln_prev := if p = b then Some a else if p = x then None else tln_prev (n p)\<rparr>"

lemmas store_defs = set_prev_def set_next_def set_self_def set_count_def

lemma insertafternode_eq:
  assumes "tln_next (tl_nodes s a) = Some b" "TNode t \<noteq> a" "TNode t \<noteq> b"
  shows "threadlist_insertafternode a t s = Inr (s\<lparr>tl_nodes := link_in a (TNode t) b (tl_nodes s)\<rparr>)"
proof -
  have "threadlist_insertafternode a t s
      = Inr (set_prev b (Some (TNode t)) (set_next a (Some (TNode t)) (set_next (TNode t) (Some b) (set_prev (TNode t) (Some a) s))))"
    using assms by (auto simp: threadlist_insertafternode_def store_defs nonnull_def Let_def)
  also have "\<dots> = Inr (s\<lparr>tl_nodes := link_in a (TNode t) b (tl_nodes s)\<rparr>)"
    using assms(2,3) by (auto simp: store_defs link_in_def fun_eq_iff)
  finally show ?thesis .
qed

lemma insertbeforenode_eq:
  assumes "tln_prev (tl_nodes s b) = Some a" "TNode t \<noteq> a" "TNode t \<noteq> b"
  shows "threadlist_insertbeforenode t b s = Inr (s\<lparr>tl_nodes := link_in a (TNode t) b (tl_nodes s)\<rparr>)"
proof -
  have "threadlist_insertbeforenode t b s
      = Inr (set_prev b (Some (TNode t)) (set_next a (Some (TNode t)) (set_next (TNode t) (Some b) (set_prev (TNode t) (Some a) s))))"
    using assms by (auto simp: threadlist_insertbeforenode_def store_defs nonnull_def Let_def)
  also have "\<dots> = Inr (s\<lparr>tl_nodes := link_in a (TNode t) b (tl_nodes s)\<rparr>)"
    using assms(2,3) by (auto simp: store_defs link_in_def fun_eq_iff)
  finally show ?thesis .
qed

lemma removenode_eq:
  assumes "tln_prev (tl_nodes s x) = Some a" "tln_next (tl_nodes s x) = Some b" "x \<noteq> a" "x \<noteq> b"
  shows "threadlist_removenode x s = Inr (s\<lparr>tl_nodes := link_out a x b (tl_nodes s)\<rparr>)"
proof -
  have "threadlist_removenode x s
      = Inr (set_next x None (set_prev x None (set_prev b (Some a) (set_next a (Some b) s))))"
    using assms by (auto simp: threadlist_removenode_def store_defs nonnull_def Let_def)
  also have "\<dots> = Inr (s\<lparr>tl_nodes := link_out a x b (tl_nodes s)\<rparr>)"
    using assms(3,4) by (auto simp: store_defs link_out_def fun_eq_iff)
  finally show ?thesis .
qed

lemma set_tl_snoc: "p \<in> set (tl (ps @ [a])) \<Longrightarrow> p \<in> set ps \<or> p = a"
  by (cases ps) auto

text \<open>A chain stays a chain when a node is linked in, or out.\<close>

lemma chain_link_in:
  assumes "chain n (ps @ a # b # qs)" "distinct (ps @ a # b # qs)" "x \<notin> set (ps @ a # b # qs)"
  shows "chain (link_in a x b n) (ps @ a # x # b # qs)"
proof -
  have "chain (link_in a x b n) (ps @ [a]) = chain n (ps @ [a])"
    by (rule node_chain_cong) (use assms(2,3) in \<open>auto simp: link_in_def dest: set_tl_snoc\<close>)
  moreover have "chain (link_in a x b n) (b # qs) = chain n (b # qs)"
    by (rule node_chain_cong) (use assms(2,3) in \<open>auto simp: link_in_def dest: in_set_butlastD split: if_splits\<close>)
  ultimately show ?thesis using assms unfolding chain_append by (auto simp: link_in_def)
qed

lemma chain_link_out:
  assumes "chain n (ps @ a # x # b # qs)" "distinct (ps @ a # x # b # qs)"
  shows "chain (link_out a x b n) (ps @ a # b # qs)"
proof -
  have "chain (link_out a x b n) (ps @ [a]) = chain n (ps @ [a])"
    by (rule node_chain_cong) (use assms(2) in \<open>auto simp: link_out_def dest: set_tl_snoc\<close>)
  moreover have "chain (link_out a x b n) (b # qs) = chain n (b # qs)"
    by (rule node_chain_cong) (use assms(2) in \<open>auto simp: link_out_def dest: in_set_butlastD split: if_splits\<close>)
  ultimately show ?thesis using assms unfolding chain_append by (auto simp: link_out_def)
qed

lemma other_list_cong:
  assumes "is_list s l ts" "\<And>p. p \<in> set (tl_path l ts) \<Longrightarrow> tl_nodes s' p = tl_nodes s p" "tl_count s' l = tl_count s l"
  shows "is_list s' l ts"
proof -
  have "chain (tl_nodes s') (tl_path l ts) = chain (tl_nodes s) (tl_path l ts)"
    by (rule node_chain_cong) (use assms(2) in \<open>auto dest: in_set_butlastD simp: tl_path_def\<close>)
  then show ?thesis using assms(1,3) assms(2) [of "TlHead l"] assms(2) [of "TlTail l"] by (simp add: is_list_def set_tl_path)
qed

lemma count_less: "lists_inv L T s \<Longrightarrow> L l = Some ts \<Longrightarrow> length ts < 2 ^ 32"
  using lists_invD(1,2) [of L T s] lists_invD(3,4) [of L T s l ts] card_mono [of T "set ts"]
  by (auto simp: is_list_def distinct_card)

text \<open>The contents of one list change by the thread \<open>t\<close>, and only nodes of that list and of \<open>t\<close> change.\<close>

lemma update_list_inv:
  assumes inv: "lists_inv L T s" and L: "L l = Some ts" and t: "t \<in> T" "\<And>m us. L m = Some us \<Longrightarrow> m \<noteq> l \<Longrightarrow> t \<notin> set us"
    and new: "is_list s' l ts'" "set ts' - {t} = set ts - {t}"
    and nodes: "\<And>p. p \<notin> set (tl_path l ts) \<Longrightarrow> p \<noteq> TNode t \<Longrightarrow> tl_nodes s' p = tl_nodes s p"
    and rest: "\<And>m. m \<noteq> l \<Longrightarrow> tl_count s' m = tl_count s m" "\<And>p. tln_self (tl_nodes s' p) = tln_self (tl_nodes s p)"
    and off_t: "t \<notin> set ts' \<Longrightarrow> tln_prev (tl_nodes s' (TNode t)) = None \<and> tln_next (tl_nodes s' (TNode t)) = None"
  shows "lists_inv (L(l \<mapsto> ts')) T s'" (is "lists_inv ?L T s'")
proof -
  have other: "is_list s' m us" if m: "L m = Some us" "m \<noteq> l" for m us
  proof (rule other_list_cong [OF lists_invD(3) [OF inv m(1)] _ rest(1) [OF m(2)]])
    fix p
    assume p: "p \<in> set (tl_path m us)"
    have "set (tl_path m us) \<inter> set (tl_path l ts) = {}"
      by (rule tl_path_disjoint [OF m(2) lists_invD(5) [OF inv m(1) L m(2)]])
    moreover have "p \<noteq> TNode t" using t(2) [OF m] p by (auto simp: set_tl_path)
    ultimately show "tl_nodes s' p = tl_nodes s p" using p nodes by blast
  qed
  have apart: "set ts' \<inter> set ws = {}" if "L j = Some ws" "j \<noteq> l" for j ws
    using that new(2) t(2) [OF that] lists_invD(5) [OF inv L, of j ws] by auto
  have sub: "set ts' \<subseteq> T" using new(2) t(1) lists_invD(4) [OF inv L] by blast
  show ?thesis
    unfolding lists_inv_def off_lists_def [symmetric]
  proof (intro conjI allI impI ballI)
    fix k us
    assume k: "?L k = Some us"
    show "is_list s' k us" using k new(1) other by (cases "k = l") auto
    show "set us \<subseteq> T" using k sub lists_invD(4) [OF inv, of k us] by (cases "k = l") auto
  next
    fix k m us vs
    assume km: "?L k = Some us \<and> ?L m = Some vs \<and> k \<noteq> m"
    show "set us \<inter> set vs = {}"
    proof (cases "k = l \<or> m = l")
      case True
      then show ?thesis using km apart [of m vs] apart [of k us] by auto
    next
      case False
      then show ?thesis using km lists_invD(5) [OF inv, of k us m vs] by simp
    qed
  next
    fix u
    assume u: "u \<in> T"
    show "tln_self (tl_nodes s' (TNode u)) = Some u" using lists_invD(6) [OF inv u] rest(2) by simp
    assume o: "off_lists ?L u"
    have ut: "u \<notin> set ts'" using o [unfolded off_lists_def, rule_format, of l ts'] by simp
    have "tln_prev (tl_nodes s' (TNode u)) = None \<and> tln_next (tl_nodes s' (TNode u)) = None"
    proof (cases "u = t")
      case False
      then have n: "u \<notin> set ts" using ut new(2) by blast
      then have "off_lists L u" using o L unfolding off_lists_def by (metis fun_upd_apply option.inject)
      moreover have "tl_nodes s' (TNode u) = tl_nodes s (TNode u)"
        using nodes [of "TNode u"] n False by (auto simp: set_tl_path)
      ultimately show ?thesis using lists_invD(7) [OF inv u] by simp
    qed (use off_t ut in simp)
    then show "tln_prev (tl_nodes s' (TNode u)) = None" "tln_next (tl_nodes s' (TNode u)) = None" by simp_all
  qed (use lists_invD(1,2) [OF inv] in simp_all)
qed

text \<open>The bookends are the first and the last node of a path.\<close>

lemma path_ends:
  assumes "tl_path l ts = ps @ a # qs" "distinct ts"
  shows "b \<in> set qs \<Longrightarrow> TlHead l \<noteq> b" "qs \<noteq> [] \<Longrightarrow> TlTail l \<noteq> a"
proof -
  have dist: "distinct (ps @ a # qs)" using distinct_tl_path [OF assms(2), of l] assms(1) by simp
  show "TlHead l \<noteq> b" if "b \<in> set qs" using assms(1) dist that by (cases ps) (auto simp: tl_path_def)
  show "TlTail l \<noteq> a" if "qs \<noteq> []"
  proof -
    have "last (tl_path l ts) = TlTail l" by (simp add: tl_path_def)
    then have "last qs = TlTail l" using assms(1) that by simp
    then have "TlTail l \<in> set qs" using that by (metis last_in_set)
    then show ?thesis using dist by auto
  qed
qed

text \<open>Linking a thread that is on no list between two neighbours of a list.\<close>

lemma link_in_inv:
  assumes inv: "lists_inv L T s" and L: "L l = Some ts" and t: "t \<in> T" "off_lists L t"
    and path: "tl_path l ts = ps @ a # b # qs" "tl_path l ts' = ps @ a # TNode t # b # qs"
    and ts': "set ts' = insert t (set ts)" "distinct ts'"
  shows "lists_inv (L(l \<mapsto> ts')) T (s\<lparr>tl_nodes := link_in a (TNode t) b (tl_nodes s), tl_count := (tl_count s)(l := tl_count s l + 1)\<rparr>)"
    (is "lists_inv ?L T ?s")
proof (rule update_list_inv [OF inv L t(1)])
  note il = lists_invD(3) [OF inv L, unfolded is_list_def]
  have dist: "distinct (ps @ a # b # qs)" using distinct_tl_path [of ts l] il path(1) by simp
  have tn: "TNode t \<notin> set (tl_path l ts)" using t(2) L by (auto simp: set_tl_path off_lists_def)
  have "length ts' = Suc (length ts)"
    using ts' il t(2) L by (metis card_insert_disjoint distinct_card finite_set off_lists_def)
  moreover have "chain (tl_nodes ?s) (tl_path l ts')"
    unfolding path(2) by simp (rule chain_link_in; use il path(1) dist tn in simp)
  ultimately show "is_list ?s l ts'"
    using il ts'(2) path_ends [OF path(1)] by (simp add: is_list_def link_in_def)
qed (use t(2) ts' path(1) in \<open>auto simp: off_lists_def link_in_def\<close>)

text \<open>Unlinking a thread from its list.\<close>

lemma link_out_inv:
  assumes inv: "lists_inv L T s" and L: "L l = Some ts"
    and path: "tl_path l ts = ps @ a # TNode t # b # qs" "tl_path l ts' = ps @ a # b # qs"
    and ts': "set ts' = set ts - {t}" "t \<in> set ts" "distinct ts'"
  shows "lists_inv (L(l \<mapsto> ts')) T (s\<lparr>tl_nodes := link_out a (TNode t) b (tl_nodes s), tl_count := (tl_count s)(l := tl_count s l - 1)\<rparr>)"
    (is "lists_inv ?L T ?s")
proof (rule update_list_inv [OF inv L])
  note il = lists_invD(3) [OF inv L, unfolded is_list_def]
  have dist: "distinct (ps @ a # TNode t # b # qs)" using distinct_tl_path [of ts l] il path(1) by simp
  have "length ts = Suc (length ts')"
    using ts' il by (metis card_Suc_Diff1 distinct_card finite_set)
  moreover have "chain (tl_nodes ?s) (tl_path l ts')"
    unfolding path(2) by simp (rule chain_link_out; use il path(1) dist in simp)
  ultimately show "is_list ?s l ts'"
    using il ts'(3) path_ends [OF path(1)] by (simp add: is_list_def link_out_def)
  show "t \<in> T" using ts'(2) lists_invD(4) [OF inv L] by blast
  show "t \<notin> set us" if "L m = Some us" "m \<noteq> l" for m us
    using ts'(2) lists_invD(5) [OF inv L that(1)] that(2) by auto
  have "TNode t \<noteq> a" "TNode t \<noteq> b" using dist by auto
  then show "tln_prev (tl_nodes ?s (TNode t)) = None \<and> tln_next (tl_nodes ?s (TNode t)) = None"
    by (simp add: link_out_def)
qed (use ts' path(1) in \<open>auto simp: link_out_def\<close>)

section \<open>The operations on the contents\<close>

lemma list_in_path:
  assumes "lists_inv L T s" "L l = Some ts"
  shows "is_list s l ts" "set ts \<subseteq> T" "distinct ts" "chain (tl_nodes s) (tl_path l ts)"
  using lists_invD(3,4) [OF assms] by (simp_all add: is_list_def)

text \<open>The two nodes around the gap between \<open>xs\<close> and \<open>ys\<close>.\<close>

definition before_gap :: "nat \<Rightarrow> nat list \<Rightarrow> nodeptr" where
  "before_gap l xs = last (TlHead l # map TNode xs)"

definition after_gap :: "nat \<Rightarrow> nat list \<Rightarrow> nodeptr" where
  "after_gap l ys = hd (map TNode ys @ [TlTail l])"

lemma gap_path:
  obtains ps qs where "tl_path l (xs @ ys) = ps @ before_gap l xs # after_gap l ys # qs"
    "tl_path l (xs @ t # ys) = ps @ before_gap l xs # TNode t # after_gap l ys # qs"
proof
  let ?ps = "butlast (TlHead l # map TNode xs)" and ?qs = "List.tl (map TNode ys @ [TlTail l])"
  have l: "TlHead l # map TNode xs = ?ps @ [before_gap l xs]"
    unfolding before_gap_def by (metis append_butlast_last_id list.distinct(1))
  have r: "map TNode ys @ [TlTail l] = after_gap l ys # ?qs" by (simp add: after_gap_def)
  have "tl_path l (xs @ ys) = (TlHead l # map TNode xs) @ (map TNode ys @ [TlTail l])" by (simp add: tl_path_def)
  then show "tl_path l (xs @ ys) = ?ps @ before_gap l xs # after_gap l ys # ?qs" using l r by (metis append_Cons append_Nil append_assoc)
  have "tl_path l (xs @ t # ys) = (TlHead l # map TNode xs) @ TNode t # (map TNode ys @ [TlTail l])" by (simp add: tl_path_def)
  then show "tl_path l (xs @ t # ys) = ?ps @ before_gap l xs # TNode t # after_gap l ys # ?qs"
    using l r by (metis append_Cons append_Nil append_assoc)
qed

lemma gap_neq: "t \<notin> set xs \<Longrightarrow> TNode t \<noteq> before_gap l xs" "t \<notin> set ys \<Longrightarrow> TNode t \<noteq> after_gap l ys"
proof -
  show "t \<notin> set xs \<Longrightarrow> TNode t \<noteq> before_gap l xs" by (cases xs rule: rev_cases) (auto simp: before_gap_def)
  show "t \<notin> set ys \<Longrightarrow> TNode t \<noteq> after_gap l ys" by (cases ys) (auto simp: after_gap_def)
qed

definition linked :: "nat \<Rightarrow> nat list \<Rightarrow> nat \<Rightarrow> nat list \<Rightarrow> tlstore \<Rightarrow> tlstore" where
  "linked l xs t ys s = s\<lparr>tl_nodes := link_in (before_gap l xs) (TNode t) (after_gap l ys) (tl_nodes s),
     tl_count := (tl_count s)(l := tl_count s l + 1)\<rparr>"

definition unlinked :: "nat \<Rightarrow> nat list \<Rightarrow> nat \<Rightarrow> nat list \<Rightarrow> tlstore \<Rightarrow> tlstore" where
  "unlinked l xs t ys s = s\<lparr>tl_nodes := link_out (before_gap l xs) (TNode t) (after_gap l ys) (tl_nodes s),
     tl_count := (tl_count s)(l := tl_count s l - 1)\<rparr>"

lemma insert_spec:
  assumes "lists_inv L T s" "L l = Some (xs @ ys)" "t \<in> T" "off_lists L t"
  shows "rbind (threadlist_insertafternode (before_gap l xs) t s) (\<lambda>s. Inr (set_count l (tl_count s l + 1) s)) = Inr (linked l xs t ys s)"
    "rbind (threadlist_insertbeforenode t (after_gap l ys) s) (\<lambda>s. Inr (set_count l (tl_count s l + 1) s)) = Inr (linked l xs t ys s)"
    "lists_inv (L(l \<mapsto> xs @ t # ys)) T (linked l xs t ys s)"
proof -
  have nt: "t \<notin> set xs" "t \<notin> set ys" using assms(4) [unfolded off_lists_def, rule_format, OF assms(2)] by simp_all
  obtain ps qs where path: "tl_path l (xs @ ys) = ps @ before_gap l xs # after_gap l ys # qs"
    "tl_path l (xs @ t # ys) = ps @ before_gap l xs # TNode t # after_gap l ys # qs" by (rule gap_path)
  have "tln_next (tl_nodes s (before_gap l xs)) = Some (after_gap l ys)"
      "tln_prev (tl_nodes s (after_gap l ys)) = Some (before_gap l xs)"
    using list_in_path(4) [OF assms(1,2)] unfolding path(1) chain_append by simp_all
  note eqs = insertafternode_eq [OF this(1) gap_neq(1) [OF nt(1)] gap_neq(2) [OF nt(2)]]
    insertbeforenode_eq [OF this(2) gap_neq(1) [OF nt(1)] gap_neq(2) [OF nt(2)]]
  show "rbind (threadlist_insertafternode (before_gap l xs) t s) (\<lambda>s. Inr (set_count l (tl_count s l + 1) s)) = Inr (linked l xs t ys s)"
    "rbind (threadlist_insertbeforenode t (after_gap l ys) s) (\<lambda>s. Inr (set_count l (tl_count s l + 1) s)) = Inr (linked l xs t ys s)"
    unfolding eqs by (simp_all add: linked_def set_count_def)
  show "lists_inv (L(l \<mapsto> xs @ t # ys)) T (linked l xs t ys s)"
    unfolding linked_def
    by (rule link_in_inv [OF assms path]) (use nt list_in_path(3) [OF assms(1,2)] in auto)
qed

lemma tl_remove_spec:
  assumes "lists_inv L T s" "L l = Some (xs @ t # ys)"
  shows "tln_prev (tl_nodes s (TNode t)) = Some (before_gap l xs)" "tln_next (tl_nodes s (TNode t)) = Some (after_gap l ys)"
    "rbind (threadlist_removenode (TNode t) s) (\<lambda>s. Inr (set_count l (tl_count s l - 1) s)) = Inr (unlinked l xs t ys s)"
    "lists_inv (L(l \<mapsto> xs @ ys)) T (unlinked l xs t ys s)" "tln_self (tl_nodes (unlinked l xs t ys s) (TNode t)) = Some t"
proof -
  have d: "distinct (xs @ t # ys)" and t: "t \<in> T" using list_in_path [OF assms] by simp_all
  obtain ps qs where path: "tl_path l (xs @ ys) = ps @ before_gap l xs # after_gap l ys # qs"
    "tl_path l (xs @ t # ys) = ps @ before_gap l xs # TNode t # after_gap l ys # qs" by (rule gap_path)
  show n: "tln_prev (tl_nodes s (TNode t)) = Some (before_gap l xs)" "tln_next (tl_nodes s (TNode t)) = Some (after_gap l ys)"
    using list_in_path(4) [OF assms] unfolding path(2) chain_append by simp_all
  have ne: "TNode t \<noteq> before_gap l xs" "TNode t \<noteq> after_gap l ys" using gap_neq d by auto
  show "rbind (threadlist_removenode (TNode t) s) (\<lambda>s. Inr (set_count l (tl_count s l - 1) s)) = Inr (unlinked l xs t ys s)"
    unfolding removenode_eq [OF n ne] by (simp add: unlinked_def set_count_def)
  show "lists_inv (L(l \<mapsto> xs @ ys)) T (unlinked l xs t ys s)"
    unfolding unlinked_def by (rule link_out_inv [OF assms path(2,1)]) (use d in auto)
  show "tln_self (tl_nodes (unlinked l xs t ys s) (TNode t)) = Some t"
    using lists_invD(6) [OF assms(1) t] by (simp add: unlinked_def link_out_def)
qed

lemma gap_simps [simp]: "before_gap l [] = TlHead l" "before_gap l (xs @ [x]) = TNode x"
  "after_gap l [] = TlTail l" "after_gap l (y # ys) = TNode y"
  by (simp_all add: before_gap_def after_gap_def)

section \<open>The interface\<close>

text \<open>What the scheduler relies on: queues of threads with first-in first-out order.\<close>

locale thread_queue =
  fixes enq :: "nat \<Rightarrow> nat \<Rightarrow> 's \<Rightarrow> 's res"
    and deq :: "nat \<Rightarrow> 's \<Rightarrow> (nat option \<times> 's) res"
    and is_empty :: "nat \<Rightarrow> 's \<Rightarrow> bool"
    and queues :: "(nat \<rightharpoonup> nat list) \<Rightarrow> nat set \<Rightarrow> 's \<Rightarrow> bool"
  assumes enq: "queues L T s \<Longrightarrow> L l = Some ts \<Longrightarrow> t \<in> T \<Longrightarrow> off_lists L t \<Longrightarrow>
      \<exists>s'. enq l t s = Inr s' \<and> queues (L(l \<mapsto> ts @ [t])) T s'"
    and deq_empty: "queues L T s \<Longrightarrow> L l = Some [] \<Longrightarrow> deq l s = Inr (None, s)"
    and deq_first: "queues L T s \<Longrightarrow> L l = Some (t # ts) \<Longrightarrow>
      \<exists>s'. deq l s = Inr (Some t, s') \<and> queues (L(l \<mapsto> ts)) T s'"
    and is_empty: "queues L T s \<Longrightarrow> L l = Some ts \<Longrightarrow> is_empty l s \<longleftrightarrow> ts = []"
    and on_one: "queues L T s \<Longrightarrow> L l = Some ts \<Longrightarrow> t \<in> set ts \<Longrightarrow> L m = Some us \<Longrightarrow> m \<noteq> l \<Longrightarrow> t \<notin> set us"
    and member: "queues L T s \<Longrightarrow> L l = Some ts \<Longrightarrow> distinct ts \<and> set ts \<subseteq> T"
begin

lemma deq_off:
  assumes "queues L T s" "L l = Some (t # ts)"
  shows "off_lists (L(l \<mapsto> ts)) t"
proof -
  have "t \<notin> set ts" using member [OF assms] by simp
  moreover have "t \<notin> set us" if "L m = Some us" "m \<noteq> l" for m us
    using on_one [OF assms _ that] by simp
  ultimately show ?thesis by (simp add: off_lists_def)
qed

end

lemma list_empty_iff: "lists_inv L T s \<Longrightarrow> L l = Some ts \<Longrightarrow> threadlist_isempty l s \<longleftrightarrow> ts = []"
  using list_in_path(1) [of L T s l ts] count_less [of L T s l ts]
  by (simp add: threadlist_isempty_def is_list_def word_unat_eq_iff unat_of_nat take_bit_nat_eq_self)

interpretation tlists: thread_queue threadlist_addtail threadlist_remhead threadlist_isempty lists_inv
proof unfold_locales
  fix L T s l ts t
  assume inv: "lists_inv L T s"
  { assume a: "L l = Some ts" "t \<in> T" "off_lists L t"
    show "\<exists>s'. threadlist_addtail l t s = Inr s' \<and> lists_inv (L(l \<mapsto> ts @ [t])) T s'"
      using insert_spec [OF inv, of l ts "[]" t] a by (simp add: threadlist_addtail_def) }
  { assume a: "L l = Some []"
    have "tln_next (tl_nodes s (TlHead l)) = Some (TlTail l)" "tln_next (tl_nodes s (TlTail l)) = None"
      using list_in_path(1) [OF inv a] by (simp_all add: is_list_def tl_path_def)
    then show "threadlist_remhead l s = Inr (None, s)" by (simp add: threadlist_remhead_def nonnull_def) }
  { assume a: "L l = Some (t # ts)"
    have "tln_next (tl_nodes s (TlHead l)) = Some (TNode t)"
      using list_in_path(1) [OF inv a] by (simp add: is_list_def tl_path_def)
    then show "\<exists>s'. threadlist_remhead l s = Inr (Some t, s') \<and> lists_inv (L(l \<mapsto> ts)) T s'"
      using tl_remove_spec [OF inv, of l "[]" t ts] a
      by (auto simp: threadlist_remhead_def nonnull_def rbind_eq_Inr Let_def) }
  { fix m us
    assume "L l = Some ts" "t \<in> set ts" "L m = Some us" "m \<noteq> l"
    then show "t \<notin> set us" using lists_invD(5) [OF inv, of l ts m us] by auto }
  { assume "L l = Some ts"
    then show "distinct ts \<and> set ts \<subseteq> T" using list_in_path [OF inv] by blast }
qed (rule list_empty_iff)

lemma lists_invI:
  assumes "finite T" "card T < 2 ^ 32" "\<And>l ts. L l = Some ts \<Longrightarrow> is_list s l ts \<and> set ts \<subseteq> T"
    "\<And>l m ts us. L l = Some ts \<Longrightarrow> L m = Some us \<Longrightarrow> l \<noteq> m \<Longrightarrow> set ts \<inter> set us = {}"
    "\<And>t. t \<in> T \<Longrightarrow> tln_self (tl_nodes s (TNode t)) = Some t"
    "\<And>t. t \<in> T \<Longrightarrow> off_lists L t \<Longrightarrow> tln_prev (tl_nodes s (TNode t)) = None \<and> tln_next (tl_nodes s (TNode t)) = None"
  shows "lists_inv L T s"
  using assms unfolding lists_inv_def off_lists_def by blast

lemma off_lists_empty: "L l = None \<Longrightarrow> off_lists (L(l \<mapsto> [])) t = off_lists L t"
  "L l = Some [] \<Longrightarrow> off_lists (L(l := None)) t = off_lists L t"
  unfolding off_lists_def fun_upd_apply
  by (metis empty_iff list.set(1) option.distinct(1) option.inject)+

lemma threadlist_init_inv:
  assumes "lists_inv L T s" "L l = None"
  shows "lists_inv (L(l \<mapsto> [])) T (threadlist_init l s)"
proof -
  have other: "is_list (threadlist_init l s) m ts \<longleftrightarrow> is_list s m ts" if "m \<noteq> l" for m ts
  proof -
    have "chain (tl_nodes (threadlist_init l s)) (tl_path m ts) = chain (tl_nodes s) (tl_path m ts)"
      by (rule node_chain_cong)
        (use that in \<open>auto simp: threadlist_init_def store_defs Let_def tl_path_def dest: in_set_butlastD\<close>)
    then show ?thesis using that by (auto simp: is_list_def threadlist_init_def store_defs Let_def)
  qed
  have "is_list (threadlist_init l s) l []"
    by (simp add: is_list_def threadlist_init_def store_defs Let_def tl_path_def)
  moreover have "tl_nodes (threadlist_init l s) (TNode t) = tl_nodes s (TNode t)" for t
    by (simp add: threadlist_init_def store_defs Let_def)
  ultimately show ?thesis
    using lists_invD [OF assms(1)] other assms(2) off_lists_empty(1) [of L l, OF assms(2)]
    by (intro lists_invI) (auto split: if_splits)
qed

lemma threadlist_cleanup_inv:
  assumes "lists_inv L T s" "L l = Some []"
  shows "threadlist_cleanup l s = Inr ()" "lists_inv (L(l := None)) T s"
proof -
  show "threadlist_cleanup l s = Inr ()"
    using list_empty_iff [OF assms] by (simp add: threadlist_cleanup_def threadlist_isempty_def)
  show "lists_inv (L(l := None)) T s"
    using lists_invD [OF assms(1)] off_lists_empty(2) [of L l, OF assms(2)]
    by (intro lists_invI) (auto split: if_splits)
qed

lemma threadlistnode_init_inv:
  assumes "lists_inv L T s" "t \<notin> T" "card T + 1 < 2 ^ 32"
  shows "\<exists>s'. threadlistnode_init (TNode t) (Some t) s = Inr s' \<and> lists_inv L (insert t T) s'"
proof -
  let ?s = "set_self (TNode t) (Some t) (set_prev (TNode t) None (set_next (TNode t) None s))"
  have "is_list ?s l ts \<longleftrightarrow> is_list s l ts" if "t \<notin> set ts" for l ts
  proof -
    have "chain (tl_nodes ?s) (tl_path l ts) = chain (tl_nodes s) (tl_path l ts)"
      by (rule node_chain_cong) (use that in \<open>auto simp: store_defs tl_path_def dest: in_set_butlastD\<close>)
    then show ?thesis by (auto simp: is_list_def store_defs)
  qed
  moreover have "t \<notin> set ts" if "L l = Some ts" for l ts using lists_invD(4) [OF assms(1) that] assms(2) by auto
  ultimately have "lists_inv L (insert t T) ?s"
    using lists_invD [OF assms(1)] subset_insertI2 [OF lists_invD(4) [OF assms(1)]] assms(2,3)
    by (intro lists_invI) (auto simp: store_defs card_insert_if simp del: subset_insert)
  then show ?thesis by (simp add: threadlistnode_init_def)
qed

lemma threadlistnode_cleanup_inv:
  assumes "lists_inv L T s" "t \<in> T" "off_lists L t"
  shows "threadlistnode_cleanup (TNode t) s = Inr ()" "lists_inv L (T - {t}) s"
proof -
  show "threadlistnode_cleanup (TNode t) s = Inr ()"
    using lists_invD(6,7) [OF assms(1)] assms(2,3) by (simp add: threadlistnode_cleanup_def)
  have "set ts \<subseteq> T - {t}" if "L l = Some ts" for l ts
    using assms that unfolding lists_inv_def off_lists_def by blast
  moreover have "card (T - {t}) \<le> card T" by (rule card_mono) (use assms(1) in \<open>auto simp: lists_inv_def\<close>)
  ultimately show "lists_inv L (T - {t}) s"
    using lists_invD [OF assms(1)] by (intro lists_invI) auto
qed

lemma list_count: "lists_inv L T s \<Longrightarrow> L l = Some ts \<Longrightarrow> unat (tl_count s l) = length ts"
  using list_in_path(1) [of L T s l ts] count_less [of L T s l ts]
  by (simp add: is_list_def unat_of_nat take_bit_nat_eq_self)

section \<open>Properties\<close>

lemma remhead_Cons:
  "lists_inv L T s \<Longrightarrow> L l = Some (t # ts) \<Longrightarrow>
    \<exists>s'. threadlist_remhead l s = Inr (Some t, s') \<and> lists_inv (L(l \<mapsto> ts)) T s'"
  by (rule tlists.deq_first)

lemma remtail_snoc:
  assumes inv: "lists_inv L T s" and a: "L l = Some (ts @ [t])"
  shows "\<exists>s'. threadlist_remtail l s = Inr (Some t, s') \<and> lists_inv (L(l \<mapsto> ts)) T s'"
proof -
  have "tl_path l (ts @ [t]) = (TlHead l # map TNode ts) @ TNode t # TlTail l # []" by (simp add: tl_path_def)
  then have "tln_prev (tl_nodes s (TlTail l)) = Some (TNode t)"
    using list_in_path(4) [OF inv a] by (simp only: chain_append)
  then show ?thesis
    using tl_remove_spec [OF inv, of l ts t "[]"] a
    by (auto simp: threadlist_remtail_def nonnull_def rbind_eq_Inr Let_def)
qed

lemma remtail_empty:
  assumes "lists_inv L T s" "L l = Some []"
  shows "threadlist_remtail l s = Inr (None, s)"
proof -
  have "tln_prev (tl_nodes s (TlTail l)) = Some (TlHead l)" "tln_prev (tl_nodes s (TlHead l)) = None"
    using list_in_path(1) [OF assms] by (simp_all add: is_list_def tl_path_def)
  then show ?thesis by (simp add: threadlist_remtail_def nonnull_def)
qed

text \<open>
  C12: The linked lists implement sequences. On a state whose lists hold the sequences \<open>L\<close>, every
  operation on the list \<open>l\<close> returns and has the effect of the corresponding operation on
  sequences, the lists other than \<open>l\<close> staying as they are: insertion at both ends and before
  and after a member, removal of a member and from both ends, also from an empty list.
\<close>

theorem threadlist_refines:
  assumes "lists_inv L T s" "L l = Some (xs @ ys)" "t \<in> T" "off_lists L t"
  shows "(\<exists>s'. threadlist_addhead l t s = Inr s' \<and> lists_inv (L(l \<mapsto> t # xs @ ys)) T s')
    \<and> (\<exists>s'. threadlist_addtail l t s = Inr s' \<and> lists_inv (L(l \<mapsto> xs @ ys @ [t])) T s')
    \<and> (xs \<noteq> [] \<longrightarrow> (\<exists>s'. threadlist_insertafter l (last xs) t s = Inr s' \<and> lists_inv (L(l \<mapsto> xs @ t # ys)) T s'))
    \<and> (ys \<noteq> [] \<longrightarrow> (\<exists>s'. threadlist_insertbefore l t (hd ys) s = Inr s' \<and> lists_inv (L(l \<mapsto> xs @ t # ys)) T s'))
    \<and> (ys \<noteq> [] \<longrightarrow> (\<exists>s'. threadlist_remove l (hd ys) s = Inr s' \<and> lists_inv (L(l \<mapsto> xs @ List.tl ys)) T s'))
    \<and> (\<exists>s'. threadlist_remhead l s =
         Inr (case xs @ ys of [] \<Rightarrow> (None, s) | u # us \<Rightarrow> (Some u, s')) \<and> (xs @ ys \<noteq> [] \<longrightarrow> lists_inv (L(l \<mapsto> List.tl (xs @ ys))) T s'))
    \<and> (\<exists>s'. threadlist_remtail l s =
         Inr (if xs @ ys = [] then (None, s) else (Some (last (xs @ ys)), s')) \<and> (xs @ ys \<noteq> [] \<longrightarrow> lists_inv (L(l \<mapsto> butlast (xs @ ys))) T s'))"
proof (intro conjI impI)
  note inv = assms(1) and L = assms(2)
  show "\<exists>s'. threadlist_addhead l t s = Inr s' \<and> lists_inv (L(l \<mapsto> t # xs @ ys)) T s'"
    using insert_spec [OF inv, of l "[]" "xs @ ys" t] assms by (simp add: threadlist_addhead_def)
  show "\<exists>s'. threadlist_addtail l t s = Inr s' \<and> lists_inv (L(l \<mapsto> xs @ ys @ [t])) T s'"
    using tlists.enq [OF assms] by simp
  show "\<exists>s'. threadlist_insertafter l (last xs) t s = Inr s' \<and> lists_inv (L(l \<mapsto> xs @ t # ys)) T s'" if "xs \<noteq> []"
    using insert_spec [OF assms] that by (cases xs rule: rev_cases) (simp_all add: threadlist_insertafter_def)
  show "\<exists>s'. threadlist_insertbefore l t (hd ys) s = Inr s' \<and> lists_inv (L(l \<mapsto> xs @ t # ys)) T s'" if "ys \<noteq> []"
    using insert_spec [OF assms] that by (cases ys) (simp_all add: threadlist_insertbefore_def)
  show "\<exists>s'. threadlist_remove l (hd ys) s = Inr s' \<and> lists_inv (L(l \<mapsto> xs @ List.tl ys)) T s'" if "ys \<noteq> []"
    using tl_remove_spec [OF inv, of l xs "hd ys" "List.tl ys"] L that by (cases ys) (simp_all add: threadlist_remove_def)
  show "\<exists>s'. threadlist_remhead l s = Inr (case xs @ ys of [] \<Rightarrow> (None, s) | u # us \<Rightarrow> (Some u, s'))
      \<and> (xs @ ys \<noteq> [] \<longrightarrow> lists_inv (L(l \<mapsto> List.tl (xs @ ys))) T s')"
    using remhead_Cons [OF inv] tlists.deq_empty [OF inv, of l] L by (cases "xs @ ys") fastforce+
  show "\<exists>s'. threadlist_remtail l s = Inr (if xs @ ys = [] then (None, s) else (Some (last (xs @ ys)), s'))
      \<and> (xs @ ys \<noteq> [] \<longrightarrow> lists_inv (L(l \<mapsto> butlast (xs @ ys))) T s')"
  proof (cases "xs @ ys" rule: rev_cases)
    case Nil
    then show ?thesis using remtail_empty [OF inv] L by simp
  next
    case (snoc zs z)
    then show ?thesis using remtail_snoc [OF inv, of l zs z] L by simp
  qed
qed

text \<open>One list with two threads, and a third thread on no list.\<close>

definition tl_demo :: tlstore where
  "tl_demo = \<lparr>tl_nodes =
     (\<lambda>p. \<lparr>tln_prev = None, tln_next = None, tln_self = None\<rparr>)
       (TlHead 0 := \<lparr>tln_prev = None, tln_next = Some (TNode 1), tln_self = None\<rparr>,
        TNode 1 := \<lparr>tln_prev = Some (TlHead 0), tln_next = Some (TNode 2), tln_self = Some 1\<rparr>,
        TNode 2 := \<lparr>tln_prev = Some (TNode 1), tln_next = Some (TlTail 0), tln_self = Some 2\<rparr>,
        TlTail 0 := \<lparr>tln_prev = Some (TNode 2), tln_next = None, tln_self = None\<rparr>,
        TNode 3 := \<lparr>tln_prev = None, tln_next = None, tln_self = Some 3\<rparr>),
     tl_count = (\<lambda>_. 0)(0 := 2)\<rparr>"

lemma tl_demo_inv: "lists_inv [0 \<mapsto> [1, 2]] {1, 2, 3} tl_demo" "off_lists [0 \<mapsto> [1, 2]] 3"
proof -
  have "is_list tl_demo 0 [1, 2]" by (simp add: is_list_def tl_path_def tl_demo_def)
  then show "lists_inv [0 \<mapsto> [1, 2]] {1, 2, 3} tl_demo"
    unfolding lists_inv_def by (auto simp: tl_demo_def split: if_splits)
qed (simp add: off_lists_def)

theorem threadlist_refines_witness:
  "\<exists>s'. threadlist_insertafter 0 1 3 tl_demo = Inr s' \<and> lists_inv [0 \<mapsto> [1, 3, 2]] {1, 2, 3} s'"
  using threadlist_refines [OF tl_demo_inv(1) _ _ tl_demo_inv(2), of 0 "[1]" "[2]"] by simp

lemma forall_from_faults:
  assumes "lists_inv L T s" "L l = Some (xs @ ts)" "length ts < fuel"
  shows "forall_from fuel (tln_self (tl_nodes s (after_gap l ts))) s = Inl NullDeref"
  using assms(2,3)
proof (induction ts arbitrary: xs fuel)
  case Nil
  then have "tln_self (tl_nodes s (TlTail l)) = None" using list_in_path(1) [OF assms(1)] by (simp add: is_list_def)
  then show ?case using Nil by (cases fuel) (simp_all add: nonnull_def)
next
  case (Cons t ts)
  have "t \<in> T" using list_in_path(2) [OF assms(1) Cons.prems(1)] by simp
  then have "tln_self (tl_nodes s (TNode t)) = Some t" by (rule lists_invD(6) [OF assms(1)])
  moreover have "tln_next (tl_nodes s (TNode t)) = Some (after_gap l ts)"
    by (rule tl_remove_spec(2) [OF assms(1) Cons.prems(1)])
  moreover obtain g where "fuel = Suc g" "length ts < g" using Cons.prems(2) by (cases fuel) auto
  ultimately show ?case using Cons.IH [of "xs @ [t]" g] Cons.prems(1) by (simp add: nonnull_def)
qed

text \<open>
  C33: The iteration macro never reaches the end of a list: at the last thread it takes the \<open>self\<close>
  field of the closing bookend, which is null, and reads through it. It faults on every list,
  the empty one included.
\<close>

theorem forall_always_faults:
  assumes "lists_inv L T s" "L l = Some ts" "length ts < fuel"
  shows "THREADLIST_FORALL fuel l s = Inl NullDeref"
proof -
  obtain qs where "tl_path l ts = [] @ TlHead l # after_gap l ts # qs"
    by (rule gap_path [of l "[]" ts]) (auto simp: Cons_eq_append_conv tl_path_def)
  then have "tln_next (tl_nodes s (TlHead l)) = Some (after_gap l ts)"
    using list_in_path(4) [OF assms(1,2)] by simp
  then show ?thesis
    using forall_from_faults [OF assms(1), of l "[]" ts fuel] assms(2,3) by (simp add: THREADLIST_FORALL_def nonnull_def)
qed

theorem forall_always_faults_witness: "THREADLIST_FORALL 10 0 tl_demo = Inl NullDeref"
  using forall_always_faults [OF tl_demo_inv(1), of 0 "[1, 2]" 10] by simp

end
