(* ===== verification/Thread.thy ===== *)
theory Thread
  imports AddrSpace ThreadList
begin

unbundle bit_operations_syntax

text \<open>
  The thread system of \<open>kern/thread/thread.c\<close>: threads, CPUs with their run queues, context
  switches, wait channels, migration between CPUs and interprocessor interrupts, with the reference
  counts of \<open>kern/vfs/vnode.c\<close> that threads hold on their working directory. Thread structures
  live in a typed heap under the address that \<open>kmalloc\<close> returned; run queues, zombie lists
  and wait channels are lists of the store of \<open>ThreadList\<close>. Every critical section, protected
  in the source by the lock of a run queue or a wait channel with interrupts off, is one step of the CPU
  \<open>me\<close> that executes it; \<open>thread_switch\<close> releases the lock only while the CPU idles,
  so it is split there. The saved registers of a thread (\<open>t_context\<close>, \<open>t_machdep\<close>) and
  the hardware signal behind an interprocessor interrupt are not modelled.
\<close>

section \<open>Structures\<close>

datatype threadstate = S_RUN | S_READY | S_SLEEP | S_ZOMBIE

record thread =
  t_pid :: u32
  t_id :: u32
  t_name :: u32
  t_wchan_name :: "string option"
  t_state :: threadstate
  t_stack :: u32
  t_cpu :: "nat option"
  t_in_interrupt :: bool
  t_addrspace :: u32
  t_cwd :: u32

record cpu =
  c_curthread :: "nat option"
  c_isidle :: bool
  c_ipi_pending :: u32
  c_shootdown :: "(u32 \<times> u32) list"
  c_numshootdown :: int
  c_tlb :: tlb_state

record vnode =
  vn_refcount :: int
  vn_opencount :: int

record tsys =
  allcpus :: "cpu list"
  tls :: tlstore
  thr :: "nat \<rightharpoonup> thread"
  wchans :: "nat \<rightharpoonup> string"
  vnodes :: "u32 \<rightharpoonup> vnode"
  tvm :: vm
  gpid :: u32
  t_id_counter :: u32

text \<open>The lists: run queue and zombies of each CPU, wait channels, and a list on a kernel stack.\<close>

definition runq :: "nat \<Rightarrow> nat" where "runq c = 4 * c"
definition zombq :: "nat \<Rightarrow> nat" where "zombq c = 4 * c + 1"
definition wchanq :: "nat \<Rightarrow> nat" where "wchanq w = 4 * w + 2"
definition localq :: "nat \<Rightarrow> nat" where "localq c = 4 * c + 3"

definition STACK_SIZE :: u32 where "STACK_SIZE = 4096"
definition THREAD_STACK_MAGIC :: u32 where "THREAD_STACK_MAGIC = 0xbaadf00d"
definition sizeof_thread :: u32 where "sizeof_thread = 112"
definition sizeof_wchan :: u32 where "sizeof_wchan = 40"
definition TLBSHOOTDOWN_MAX :: int where "TLBSHOOTDOWN_MAX = 16"
definition TLBSHOOTDOWN_ALL :: int where "TLBSHOOTDOWN_ALL = -1"
definition IPI_PANIC :: nat where "IPI_PANIC = 0"
definition IPI_OFFLINE :: nat where "IPI_OFFLINE = 1"
definition IPI_UNIDLE :: nat where "IPI_UNIDLE = 2"
definition IPI_TLBSHOOTDOWN :: nat where "IPI_TLBSHOOTDOWN = 3"

definition curthread :: "nat \<Rightarrow> tsys \<Rightarrow> nat res" where
  "curthread me s = rbind (aget (allcpus s) me) (\<lambda>c. nonnull (c_curthread c))"

definition set_cpu :: "nat \<Rightarrow> (cpu \<Rightarrow> cpu) \<Rightarrow> tsys \<Rightarrow> tsys res" where
  "set_cpu c f s = rbind (aget (allcpus s) c) (\<lambda>x. Inr (s\<lparr>allcpus := (allcpus s)[c := f x]\<rparr>))"

definition set_thread :: "nat \<Rightarrow> (thread \<Rightarrow> thread) \<Rightarrow> tsys \<Rightarrow> tsys res" where
  "set_thread t f s = rbind (deref (thr s) t) (\<lambda>x. Inr (s\<lparr>thr := (thr s)(t \<mapsto> f x)\<rparr>))"

definition with_tls :: "(tlstore \<Rightarrow> tlstore res) \<Rightarrow> tsys \<Rightarrow> tsys res" where
  "with_tls f s = rbind (f (tls s)) (\<lambda>l. Inr (s\<lparr>tls := l\<rparr>))"

definition t_kmalloc :: "u32 \<Rightarrow> tsys \<Rightarrow> (u32 \<times> tsys) res" where
  "t_kmalloc sz s = rbind (vm_kmalloc sz (tvm s)) (\<lambda>(p, v). Inr (p, s\<lparr>tvm := v\<rparr>))"

definition t_kfree :: "u32 \<Rightarrow> tsys \<Rightarrow> tsys res" where
  "t_kfree p s = rbind (vm_kfree p (tvm s)) (\<lambda>v. Inr (s\<lparr>tvm := v\<rparr>))"

text \<open>A routine of the memory system runs with the TLB of the CPU that executes it.\<close>

definition on_cpu :: "nat \<Rightarrow> (vm \<Rightarrow> vm res) \<Rightarrow> tsys \<Rightarrow> tsys res" where
  "on_cpu me f s =
     rbind (aget (allcpus s) me) (\<lambda>c.
     rbind (f (tvm s\<lparr>ts := c_tlb c\<rparr>)) (\<lambda>v.
     set_cpu me (\<lambda>c. c\<lparr>c_tlb := ts v\<rparr>) (s\<lparr>tvm := v\<rparr>)))"

section \<open>Stack guard\<close>

definition thread_checkstack_init :: "u32 \<Rightarrow> tsys \<Rightarrow> tsys" where
  "thread_checkstack_init stack s =
     (let h = kh (tvm s);
          m = store32 (kmem h) stack THREAD_STACK_MAGIC;
          m = store32 m (stack + 4) THREAD_STACK_MAGIC;
          m = store32 m (stack + 8) THREAD_STACK_MAGIC;
          m = store32 m (stack + 12) THREAD_STACK_MAGIC
      in s\<lparr>tvm := (tvm s)\<lparr>kh := h\<lparr>kmem := m\<rparr>\<rparr>\<rparr>)"

definition thread_checkstack :: "u32 \<Rightarrow> tsys \<Rightarrow> unit res" where
  "thread_checkstack stack s =
     (let m = kmem (kh (tvm s))
      in if stack \<noteq> 0
         then KASSERT (load32 m stack = THREAD_STACK_MAGIC)
               (KASSERT (load32 m (stack + 4) = THREAD_STACK_MAGIC)
                 (KASSERT (load32 m (stack + 8) = THREAD_STACK_MAGIC)
                   (KASSERT (load32 m (stack + 12) = THREAD_STACK_MAGIC) (Inr ()))))
         else Inr ())"

section \<open>Reference counts of vnodes\<close>

definition vnode_incref :: "u32 \<Rightarrow> tsys \<Rightarrow> tsys res" where
  "vnode_incref vn s =
     KASSERT (vn \<noteq> 0)
      (rbind (deref (vnodes s) vn) (\<lambda>v.
        Inr (s\<lparr>vnodes := (vnodes s)(vn \<mapsto> v\<lparr>vn_refcount := vn_refcount v + 1\<rparr>)\<rparr>)))"

text \<open>\<open>VOP_RECLAIM\<close> is a method of the file system the vnode belongs to; its result is only printed.\<close>

definition vnode_decref :: "(u32 \<Rightarrow> tsys \<Rightarrow> tsys res) \<Rightarrow> u32 \<Rightarrow> tsys \<Rightarrow> tsys res" where
  "vnode_decref reclaim vn s =
     KASSERT (vn \<noteq> 0)
      (rbind (deref (vnodes s) vn) (\<lambda>v.
        KASSERT (vn_refcount v > 0)
          (if vn_refcount v > 1
           then Inr (s\<lparr>vnodes := (vnodes s)(vn \<mapsto> v\<lparr>vn_refcount := vn_refcount v - 1\<rparr>)\<rparr>)
           else reclaim vn s)))"

section \<open>Creation and destruction\<close>

definition thread_create :: "string \<Rightarrow> tsys \<Rightarrow> (nat option \<times> tsys) res" where
  "thread_create name s =
     rbind (t_kmalloc sizeof_thread s) (\<lambda>(p, s).
       if p = 0 then Inr (None, s)
       else
         let pid = gpid s; s = s\<lparr>gpid := gpid s + 1\<rparr>
         in rbind (kstrdup name (kh (tvm s))) (\<lambda>(n, h).
            let s = s\<lparr>tvm := (tvm s)\<lparr>kh := h\<rparr>\<rparr>;
                tid = t_id_counter s;
                s = s\<lparr>t_id_counter := t_id_counter s + 1\<rparr>
            in if n = 0 then rbind (t_kfree p s) (\<lambda>s. Inr (None, s))
               else
                 let t = unat p;
                     new = \<lparr>t_pid = pid, t_id = tid, t_name = n, t_wchan_name = Some ''NEW'', t_state = S_READY,
                            t_stack = 0, t_cpu = None, t_in_interrupt = False, t_addrspace = 0, t_cwd = 0\<rparr>
                 in rbind (with_tls (threadlistnode_init (TNode t) (Some t)) (s\<lparr>thr := (thr s)(t \<mapsto> new)\<rparr>)) (\<lambda>s.
                    Inr (Some t, s))))"

definition thread_destroy :: "nat \<Rightarrow> nat \<Rightarrow> tsys \<Rightarrow> tsys res" where
  "thread_destroy me t s =
     rbind (curthread me s) (\<lambda>cur.
     rbind (deref (thr s) t) (\<lambda>th.
       KASSERT (t \<noteq> cur)
        (KASSERT (t_state th \<noteq> S_RUN)
          (KASSERT (t_cwd th = 0)
            (KASSERT (t_addrspace th = 0)
              (rbind (if t_stack th \<noteq> 0 then t_kfree (t_stack th) s else Inr s) (\<lambda>s.
               rbind (threadlistnode_cleanup (TNode t) (tls s)) (\<lambda>_.
               rbind (t_kfree (t_name th) s) (\<lambda>s.
               rbind (t_kfree (of_nat t) s) (\<lambda>s.
               Inr (s\<lparr>thr := (thr s)(t := None)\<rparr>)))))))))))"

text \<open>The loop over the zombies; there are as many rounds as the list is long, and one more.\<close>

fun exorcise_loop :: "nat \<Rightarrow> nat \<Rightarrow> tsys \<Rightarrow> tsys res" where
  "exorcise_loop 0 me s = Inl Diverge"
| "exorcise_loop (Suc fuel) me s =
     rbind (threadlist_remhead (zombq me) (tls s)) (\<lambda>(z, l).
       let s = s\<lparr>tls := l\<rparr>
       in case z of
            None \<Rightarrow> Inr s
          | Some z \<Rightarrow>
              rbind (curthread me s) (\<lambda>cur.
              KASSERT (z \<noteq> cur)
               (rbind (deref (thr s) z) (\<lambda>th.
                KASSERT (t_state th = S_ZOMBIE)
                 (rbind (thread_destroy me z s) (\<lambda>s. exorcise_loop fuel me s))))))"

definition exorcise :: "nat \<Rightarrow> tsys \<Rightarrow> tsys res" where
  "exorcise me s = exorcise_loop (unat (tl_count (tls s) (zombq me)) + 1) me s"

section \<open>Interprocessor interrupts\<close>

definition ipi_send :: "nat \<Rightarrow> nat \<Rightarrow> tsys \<Rightarrow> tsys res" where
  "ipi_send target code s =
     KASSERT (code < 32)
      (set_cpu target (\<lambda>c. c\<lparr>c_ipi_pending := c_ipi_pending c OR push_bit code 1\<rparr>) s)"

definition ipi_broadcast :: "nat \<Rightarrow> nat \<Rightarrow> tsys \<Rightarrow> tsys res" where
  "ipi_broadcast me code s =
     rfold (\<lambda>i s. if i \<noteq> me then ipi_send i code s else Inr s) [0..<length (allcpus s)] s"

text \<open>An index into \<open>c_shootdown\<close> that is negative or past its end is out of bounds.\<close>

definition ipi_tlbshootdown :: "nat \<Rightarrow> u32 \<times> u32 \<Rightarrow> tsys \<Rightarrow> tsys res" where
  "ipi_tlbshootdown target mapping s =
     rbind (aget (allcpus s) target) (\<lambda>c.
     let n = c_numshootdown c
     in rbind (if n = TLBSHOOTDOWN_MAX then Inr (c\<lparr>c_numshootdown := TLBSHOOTDOWN_ALL\<rparr>)
               else if n < 0 then Inl OutOfBounds
               else rbind (aset (c_shootdown c) (nat n) mapping) (\<lambda>a.
                 Inr (c\<lparr>c_shootdown := a, c_numshootdown := n + 1\<rparr>))) (\<lambda>c.
        Inr (s\<lparr>allcpus := (allcpus s)[target := c\<lparr>c_ipi_pending := c_ipi_pending c OR push_bit IPI_TLBSHOOTDOWN 1\<rparr>]\<rparr>)))"

text \<open>
  The handler: a panic or offline request halts the CPU, which never returns; a TLB shootdown
  calls the routines of \<open>addrspace.c\<close>, which both panic.
\<close>

definition interprocessor_interrupt :: "nat \<Rightarrow> tsys \<Rightarrow> tsys res" where
  "interprocessor_interrupt me s =
     rbind (aget (allcpus s) me) (\<lambda>c.
     let bits = c_ipi_pending c
     in if bit bits IPI_PANIC then Inl Diverge
        else if bit bits IPI_OFFLINE then Inl Diverge
        else
          rbind (if bit bits IPI_TLBSHOOTDOWN
                 then rbind (if c_numshootdown c = TLBSHOOTDOWN_ALL
                             then rbind (vm_tlbshootdown_all (tvm s)) (\<lambda>_. Inr s)
                             else if 0 < c_numshootdown c then Inl Panic else Inr s) (\<lambda>s.
                      set_cpu me (\<lambda>c. c\<lparr>c_numshootdown := 0\<rparr>) s)
                 else Inr s) (\<lambda>s.
          set_cpu me (\<lambda>c. c\<lparr>c_ipi_pending := 0\<rparr>) s))"

section \<open>Running threads\<close>

definition thread_make_runnable :: "nat \<Rightarrow> tsys \<Rightarrow> tsys res" where
  "thread_make_runnable target s =
     rbind (deref (thr s) target) (\<lambda>th.
     rbind (nonnull (t_cpu th)) (\<lambda>targetcpu.
     rbind (aget (allcpus s) targetcpu) (\<lambda>c.
     let isidle = c_isidle c
     in rbind (with_tls (threadlist_addtail (runq targetcpu) target) s) (\<lambda>s.
        if isidle then ipi_send targetcpu IPI_UNIDLE s else Inr s))))"

text \<open>What a new thread inherits from the current one, before it is made runnable.\<close>

definition fork_finish :: "nat \<Rightarrow> nat \<Rightarrow> tsys \<Rightarrow> tsys res" where
  "fork_finish me t s =
     rbind (curthread me s) (\<lambda>cur.
     rbind (deref (thr s) cur) (\<lambda>c.
     rbind (set_thread t (\<lambda>x. x\<lparr>t_cpu := t_cpu c\<rparr>) s) (\<lambda>s.
     rbind (if t_cwd c \<noteq> 0
            then rbind (vnode_incref (t_cwd c) s) (\<lambda>s. set_thread t (\<lambda>x. x\<lparr>t_cwd := t_cwd c\<rparr>) s)
            else Inr s) (\<lambda>s.
     thread_make_runnable t s))))"

definition thread_fork :: "nat \<Rightarrow> string \<Rightarrow> tsys \<Rightarrow> (int \<times> nat option \<times> tsys) res" where
  "thread_fork me name s =
     rbind (thread_create name s) (\<lambda>(newthread, s).
       case newthread of
         None \<Rightarrow> Inr (ENOMEM, None, s)
       | Some t \<Rightarrow>
           rbind (t_kmalloc STACK_SIZE s) (\<lambda>(stack, s).
           rbind (set_thread t (\<lambda>x. x\<lparr>t_stack := stack\<rparr>) s) (\<lambda>s.
             if stack = 0 then rbind (thread_destroy me t s) (\<lambda>s. Inr (ENOMEM, None, s))
             else
               let s = thread_checkstack_init stack s
               in rbind (fork_finish me t s) (\<lambda>s. Inr (0, Some t, s)))))"

text \<open>
  \<open>thread_switch\<close> up to its loop. The result tells whether a switch is under way, or the function
  returned early.
\<close>

definition switch_out :: "nat \<Rightarrow> threadstate \<Rightarrow> nat option \<Rightarrow> tsys \<Rightarrow> (bool \<times> tsys) res" where
  "switch_out me newstate wc s =
     rbind (curthread me s) (\<lambda>cur.
     rbind (aget (allcpus s) me) (\<lambda>c.
       if c_isidle c then Inr (False, s)
       else
         rbind (deref (thr s) cur) (\<lambda>th.
         rbind (thread_checkstack (t_stack th) s) (\<lambda>_.
           if newstate = S_READY \<and> threadlist_isempty (runq me) (tls s) then Inr (False, s)
           else
             rbind (case newstate of
                      S_RUN \<Rightarrow> Inl Panic
                    | S_READY \<Rightarrow> thread_make_runnable cur s
                    | S_SLEEP \<Rightarrow>
                        rbind (nonnull wc) (\<lambda>w.
                        rbind (deref (wchans s) w) (\<lambda>name.
                        rbind (set_thread cur (\<lambda>t. t\<lparr>t_wchan_name := Some name\<rparr>) s) (\<lambda>s.
                        with_tls (threadlist_addtail (wchanq w) cur) s)))
                    | S_ZOMBIE \<Rightarrow>
                        rbind (set_thread cur (\<lambda>t. t\<lparr>t_wchan_name := Some ''ZOMBIE''\<rparr>) s) (\<lambda>s.
                        with_tls (threadlist_addtail (zombq me) cur) s)) (\<lambda>s.
             rbind (set_thread cur (\<lambda>t. t\<lparr>t_state := newstate\<rparr>) s) (\<lambda>s.
             rbind (set_cpu me (\<lambda>c. c\<lparr>c_isidle := True\<rparr>) s) (\<lambda>s.
             Inr (True, s))))))))"

text \<open>What runs after the switch, in the thread switched to; \<open>thread_startup\<close> begins the same way.\<close>

definition switch_in :: "nat \<Rightarrow> tsys \<Rightarrow> tsys res" where
  "switch_in me s =
     rbind (curthread me s) (\<lambda>cur.
     rbind (set_thread cur (\<lambda>t. t\<lparr>t_wchan_name := None, t_state := S_RUN\<rparr>) s) (\<lambda>s.
     rbind (deref (thr s) cur) (\<lambda>th.
     rbind (if t_addrspace th \<noteq> 0 then on_cpu me (\<lambda>v. Inr (vm_as_activate (t_addrspace th) v)) s else Inr s) (\<lambda>s.
     exorcise me s))))"

text \<open>
  One round of the loop: take the next thread and switch to it, or, with the run queue empty,
  idle. The result tells which. An idle CPU runs it again after an interrupt.
\<close>

definition switch_next :: "nat \<Rightarrow> tsys \<Rightarrow> (bool \<times> tsys) res" where
  "switch_next me s =
     rbind (threadlist_remhead (runq me) (tls s)) (\<lambda>(next, l).
       case next of
         None \<Rightarrow> Inr (False, s\<lparr>tls := l\<rparr>)
       | Some t \<Rightarrow>
           rbind (set_cpu me (\<lambda>c. c\<lparr>c_isidle := False, c_curthread := Some t\<rparr>) (s\<lparr>tls := l\<rparr>)) (\<lambda>s.
           rbind (switch_in me s) (\<lambda>s. Inr (True, s))))"

definition thread_switch :: "nat \<Rightarrow> threadstate \<Rightarrow> nat option \<Rightarrow> tsys \<Rightarrow> tsys res" where
  "thread_switch me newstate wc s =
     rbind (switch_out me newstate wc s) (\<lambda>(going, s).
       if going then rbind (switch_next me s) (\<lambda>(_, s). Inr s) else Inr s)"

definition thread_yield :: "nat \<Rightarrow> tsys \<Rightarrow> tsys res" where
  "thread_yield me s = thread_switch me S_READY None s"

definition thread_exit :: "(u32 \<Rightarrow> tsys \<Rightarrow> tsys res) \<Rightarrow> nat \<Rightarrow> tsys \<Rightarrow> tsys res" where
  "thread_exit reclaim me s =
     rbind (curthread me s) (\<lambda>cur.
     rbind (deref (thr s) cur) (\<lambda>th.
     rbind (if t_cwd th \<noteq> 0
            then rbind (vnode_decref reclaim (t_cwd th) s) (\<lambda>s. set_thread cur (\<lambda>t. t\<lparr>t_cwd := 0\<rparr>) s)
            else Inr s) (\<lambda>s.
     rbind (if t_addrspace th \<noteq> 0
            then rbind (set_thread cur (\<lambda>t. t\<lparr>t_addrspace := 0\<rparr>) s) (\<lambda>s.
                 rbind (on_cpu me (\<lambda>v. Inr (vm_as_activate 0 v)) s) (\<lambda>s.
                 on_cpu me (as_destroy (t_addrspace th)) s))
            else Inr s) (\<lambda>s.
     rbind (thread_checkstack (t_stack th) s) (\<lambda>_.
     thread_switch me S_ZOMBIE None s)))))"

definition schedule :: "tsys \<Rightarrow> tsys" where
  "schedule s = s"

section \<open>Wait channels\<close>

definition wchan_create :: "string \<Rightarrow> tsys \<Rightarrow> (nat option \<times> tsys) res" where
  "wchan_create name s =
     rbind (t_kmalloc sizeof_wchan s) (\<lambda>(p, s).
       if p = 0 then Inr (None, s)
       else
         let w = unat p
         in Inr (Some w, s\<lparr>tls := threadlist_init (wchanq w) (tls s), wchans := (wchans s)(w \<mapsto> name)\<rparr>))"

definition wchan_destroy :: "nat \<Rightarrow> tsys \<Rightarrow> tsys res" where
  "wchan_destroy w s =
     rbind (deref (wchans s) w) (\<lambda>_.
     rbind (threadlist_cleanup (wchanq w) (tls s)) (\<lambda>_.
     rbind (t_kfree (of_nat w) s) (\<lambda>s. Inr (s\<lparr>wchans := (wchans s)(w := None)\<rparr>))))"

definition wchan_sleep :: "nat \<Rightarrow> nat \<Rightarrow> tsys \<Rightarrow> tsys res" where
  "wchan_sleep me w s =
     rbind (curthread me s) (\<lambda>cur.
     rbind (deref (thr s) cur) (\<lambda>th.
     KASSERT (\<not> t_in_interrupt th) (thread_switch me S_SLEEP (Some w) s)))"

definition wchan_wakeone :: "nat \<Rightarrow> tsys \<Rightarrow> tsys res" where
  "wchan_wakeone w s =
     rbind (deref (wchans s) w) (\<lambda>_.
     rbind (threadlist_remhead (wchanq w) (tls s)) (\<lambda>(target, l).
     let s = s\<lparr>tls := l\<rparr>
     in case target of None \<Rightarrow> Inr s | Some t \<Rightarrow> thread_make_runnable t s))"

text \<open>The two loops of \<open>wchan_wakeall\<close>: to a private list, and from there to the run queues.\<close>

fun move_all :: "nat \<Rightarrow> nat \<Rightarrow> nat \<Rightarrow> tlstore \<Rightarrow> tlstore res" where
  "move_all 0 from to l = Inl Diverge"
| "move_all (Suc fuel) from to l =
     rbind (threadlist_remhead from l) (\<lambda>(target, l).
       case target of
         None \<Rightarrow> Inr l
       | Some t \<Rightarrow> rbind (threadlist_addtail to t l) (\<lambda>l. move_all fuel from to l))"

fun run_all :: "nat \<Rightarrow> nat \<Rightarrow> tsys \<Rightarrow> tsys res" where
  "run_all 0 from s = Inl Diverge"
| "run_all (Suc fuel) from s =
     rbind (threadlist_remhead from (tls s)) (\<lambda>(target, l).
       let s = s\<lparr>tls := l\<rparr>
       in case target of
            None \<Rightarrow> Inr s
          | Some t \<Rightarrow> rbind (thread_make_runnable t s) (\<lambda>s. run_all fuel from s))"

definition wchan_wakeall :: "nat \<Rightarrow> nat \<Rightarrow> tsys \<Rightarrow> tsys res" where
  "wchan_wakeall me w s =
     rbind (deref (wchans s) w) (\<lambda>_.
     let s = s\<lparr>tls := threadlist_init (localq me) (tls s)\<rparr>;
         n = unat (tl_count (tls s) (wchanq w)) + 1
     in rbind (with_tls (move_all n (wchanq w) (localq me)) s) (\<lambda>s.
        rbind (run_all n (localq me) s) (\<lambda>s.
        rbind (threadlist_cleanup (localq me) (tls s)) (\<lambda>_. Inr s))))"

definition wchan_isempty :: "nat \<Rightarrow> tsys \<Rightarrow> bool res" where
  "wchan_isempty w s = rbind (deref (wchans s) w) (\<lambda>_. Inr (threadlist_isempty (wchanq w) (tls s)))"

section \<open>Migration\<close>

text \<open>
  \<open>thread_consider_migration\<close>, with nothing else running in between. The victims are collected in
  a list on the stack; a null thread taken from an empty list is dereferenced.
\<close>

definition run_count :: "nat \<Rightarrow> tsys \<Rightarrow> u32" where
  "run_count c s = tl_count (tls s) (runq c)"

fun take_victims :: "nat \<Rightarrow> nat \<Rightarrow> nat \<Rightarrow> tlstore \<Rightarrow> tlstore res" where
  "take_victims 0 me victims l = Inr l"
| "take_victims (Suc n) me victims l =
     rbind (threadlist_remtail (runq me) l) (\<lambda>(t, l).
     rbind (nonnull t) (\<lambda>t.
     rbind (threadlist_addhead victims t l) (\<lambda>l.
     take_victims n me victims l)))"

text \<open>Fill up the run queue of CPU \<open>c\<close>; the first argument is \<open>to_send\<close>, which is returned.\<close>

fun fill_cpu :: "nat \<Rightarrow> nat \<Rightarrow> u32 \<Rightarrow> nat \<Rightarrow> nat \<Rightarrow> tsys \<Rightarrow> (nat \<times> tsys) res" where
  "fill_cpu 0 me one_share victims c s = Inr (0, s)"
| "fill_cpu (Suc to_send) me one_share victims c s =
     (if run_count c s < one_share
      then rbind (threadlist_remhead victims (tls s)) (\<lambda>(t, l).
           let s = s\<lparr>tls := l\<rparr>
           in rbind (curthread me s) (\<lambda>cur.
              if t = Some cur
              then rbind (with_tls (threadlist_addtail victims cur) s) (\<lambda>s.
                   fill_cpu to_send me one_share victims c s)
              else
                rbind (nonnull t) (\<lambda>t.
                rbind (set_thread t (\<lambda>x. x\<lparr>t_cpu := Some c\<rparr>) s) (\<lambda>s.
                rbind (with_tls (threadlist_addtail (runq c) t) s) (\<lambda>s.
                rbind (aget (allcpus s) c) (\<lambda>x.
                rbind (if c_isidle x then ipi_send c IPI_UNIDLE s else Inr s) (\<lambda>s.
                fill_cpu to_send me one_share victims c s)))))))
      else Inr (Suc to_send, s))"

definition fill_cpus :: "nat \<Rightarrow> u32 \<Rightarrow> nat \<Rightarrow> nat \<Rightarrow> tsys \<Rightarrow> (nat \<times> tsys) res" where
  "fill_cpus me one_share victims to_send s =
     rfold (\<lambda>i (n, s). if n > 0 \<and> i \<noteq> me then fill_cpu n me one_share victims i s else Inr (n, s))
       [0..<length (allcpus s)] (to_send, s)"

definition thread_consider_migration :: "nat \<Rightarrow> tsys \<Rightarrow> tsys res" where
  "thread_consider_migration me s =
     (let numcpus = length (allcpus s);
          total_count = sum_list (map (\<lambda>i. run_count i s) [0..<numcpus]);
          my_count = run_count me s
      in if numcpus = 0 then Inl DivZero
         else
           let one_share = DIVROUNDUP total_count (of_nat numcpus)
           in if my_count < one_share then Inr s
              else
                let to_send = unat (my_count - one_share);
                    victims = localq me;
                    s = s\<lparr>tls := threadlist_init victims (tls s)\<rparr>
                in rbind (with_tls (take_victims to_send me victims) s) (\<lambda>s.
                   rbind (fill_cpus me one_share victims to_send s) (\<lambda>(_, s).
                   rbind (if \<not> threadlist_isempty victims (tls s)
                          then with_tls (move_all (unat (tl_count (tls s) victims) + 1) victims (runq me)) s
                          else Inr s) (\<lambda>s.
                   KASSERT (threadlist_isempty victims (tls s))
                    (rbind (threadlist_cleanup victims (tls s)) (\<lambda>_. Inr s))))))"

end
