(* ===== verification/Sched.thy ===== *)
theory Sched
  imports Thread KHeap
begin

text \<open>
  The invariant of the thread system and the effect of every operation of \<open>Thread\<close> on it: each
  thread is in exactly one place (running on its CPU, or on one run queue, wait channel or zombie
  list), the queues are first-in first-out, and the blocks, stacks and stack guards of the threads
  stay allocated. Every operation is shown to return, with none of its assertions failing.
\<close>

section \<open>Where threads are\<close>

definition lists_of :: "nat set \<Rightarrow> nat \<Rightarrow> nat set \<Rightarrow> nat set" where
  "lists_of X n W = runq ` {..<n} \<union> zombq ` {..<n} \<union> wchanq ` W \<union> localq ` X"

definition place_ok :: "nat \<Rightarrow> thread \<Rightarrow> bool" where
  "place_ok l x \<longleftrightarrow>
     (\<forall>c. l = runq c \<longrightarrow> t_cpu x = Some c \<and> t_state x \<in> {S_READY, S_SLEEP})
     \<and> (\<forall>c. l = zombq c \<longrightarrow> t_cpu x = Some c \<and> t_state x = S_ZOMBIE \<and> t_cwd x = 0 \<and> t_addrspace x = 0)
     \<and> (\<forall>w. l = wchanq w \<longrightarrow> t_state x = S_SLEEP)
     \<and> (\<forall>c. l = localq c \<longrightarrow> t_state x \<in> {S_READY, S_SLEEP})"

definition cpu_ok :: "(nat \<rightharpoonup> nat list) \<Rightarrow> (nat \<rightharpoonup> thread) \<Rightarrow> nat \<Rightarrow> cpu \<Rightarrow> bool" where
  "cpu_ok L th c k \<longleftrightarrow> (\<exists>t x. c_curthread k = Some t \<and> th t = Some x \<and> t_cpu x = Some c
     \<and> (\<not> c_isidle k \<longrightarrow> off_lists L t \<and> t_state x = S_RUN))"

definition thread_ok :: "(nat \<rightharpoonup> nat list) \<Rightarrow> cpu list \<Rightarrow> nat \<Rightarrow> thread \<Rightarrow> bool" where
  "thread_ok L cs t x \<longleftrightarrow> (\<exists>c < length cs. t_cpu x = Some c
     \<and> (off_lists L t \<longrightarrow> c_curthread (cs ! c) = Some t \<and> \<not> c_isidle (cs ! c)))"

text \<open>\<open>X\<close> is the set of CPUs on whose stack a private list is live.\<close>

definition sched_core :: "nat set \<Rightarrow> (nat \<rightharpoonup> nat list) \<Rightarrow> cpu list \<Rightarrow> (nat \<rightharpoonup> thread) \<Rightarrow> nat set \<Rightarrow> bool" where
  "sched_core X L cs th W \<longleftrightarrow> dom L = lists_of X (length cs) W
     \<and> (\<forall>l qs t x. L l = Some qs \<longrightarrow> t \<in> set qs \<longrightarrow> th t = Some x \<longrightarrow> place_ok l x)
     \<and> (\<forall>c < length cs. cpu_ok L th c (cs ! c))
     \<and> (\<forall>t x. th t = Some x \<longrightarrow> thread_ok L cs t x)"

definition sched_inv :: "nat set \<Rightarrow> (nat \<rightharpoonup> nat list) \<Rightarrow> tsys \<Rightarrow> bool" where
  "sched_inv X L s \<longleftrightarrow> lists_inv L (dom (thr s)) (tls s)
     \<and> sched_core X L (allcpus s) (thr s) (dom (wchans s))"

lemma queue_names_distinct [simp]:
  "runq c = runq d \<longleftrightarrow> c = d" "zombq c = zombq d \<longleftrightarrow> c = d" "wchanq c = wchanq d \<longleftrightarrow> c = d" "localq c = localq d \<longleftrightarrow> c = d"
  "runq c \<noteq> zombq d" "zombq d \<noteq> runq c" "runq c \<noteq> wchanq d" "wchanq d \<noteq> runq c" "runq c \<noteq> localq d" "localq d \<noteq> runq c"
  "zombq c \<noteq> wchanq d" "wchanq d \<noteq> zombq c" "zombq c \<noteq> localq d" "localq d \<noteq> zombq c" "wchanq c \<noteq> localq d" "localq d \<noteq> wchanq c"
  unfolding runq_def zombq_def wchanq_def localq_def by presburger+

lemma place_ok_simps [simp]:
  "place_ok (runq c) x \<longleftrightarrow> t_cpu x = Some c \<and> t_state x \<in> {S_READY, S_SLEEP}"
  "place_ok (zombq c) x \<longleftrightarrow> t_cpu x = Some c \<and> t_state x = S_ZOMBIE \<and> t_cwd x = 0 \<and> t_addrspace x = 0"
  "place_ok (wchanq w) x \<longleftrightarrow> t_state x = S_SLEEP"
  "place_ok (localq c) x \<longleftrightarrow> t_state x \<in> {S_READY, S_SLEEP}"
  by (auto simp: place_ok_def)

lemma off_listsD: "off_lists L u \<Longrightarrow> L m = Some us \<Longrightarrow> u \<notin> set us"
  by (simp add: off_lists_def)

lemma off_listsI: "(\<And>m us. L m = Some us \<Longrightarrow> u \<notin> set us) \<Longrightarrow> off_lists L u"
  by (simp add: off_lists_def)

lemma off_lists_add:
  assumes "L l = Some (as @ bs)"
  shows "off_lists (L(l \<mapsto> as @ t # bs)) u \<longleftrightarrow> off_lists L u \<and> u \<noteq> t"
proof (intro iffI conjI)
  assume a: "off_lists (L(l \<mapsto> as @ t # bs)) u"
  show "u \<noteq> t" using off_listsD [OF a, of l] by simp
  show "off_lists L u"
  proof (rule off_listsI)
    fix m us
    assume "L m = Some us"
    then show "u \<notin> set us" using off_listsD [OF a, of m] off_listsD [OF a, of l] assms by (cases "m = l") auto
  qed
next
  assume a: "off_lists L u \<and> u \<noteq> t"
  show "off_lists (L(l \<mapsto> as @ t # bs)) u"
    using off_listsD [OF conjunct1 [OF a]] a assms by (intro off_listsI) (simp split: if_splits, force)
qed

text \<open>A member of a list is on no other, and once on that.\<close>

lemma member_once:
  assumes "lists_inv L T s" "L l = Some (as @ t # bs)"
  shows "t \<notin> set as" "t \<notin> set bs" "t \<in> T" "L m = Some us \<Longrightarrow> m \<noteq> l \<Longrightarrow> t \<notin> set us" "\<not> off_lists L t"
  using tlists.member [OF assms] tlists.on_one [OF assms, of t m us] off_listsD [of L t l, OF _ assms(2)] by auto

lemma off_lists_remove:
  assumes "lists_inv L T s" "L l = Some (as @ t # bs)"
  shows "off_lists (L(l \<mapsto> as @ bs)) u \<longleftrightarrow> off_lists L u \<or> u = t"
proof (intro iffI)
  assume a: "off_lists L u \<or> u = t"
  show "off_lists (L(l \<mapsto> as @ bs)) u"
  proof (cases "u = t")
    case True
    then show ?thesis using member_once [OF assms] by (intro off_listsI) (auto split: if_splits)
  next
    case False
    then show ?thesis using a off_listsD [of L u l] off_listsD [of L u] assms(2) by (intro off_listsI) (auto split: if_splits)
  qed
next
  assume a: "off_lists (L(l \<mapsto> as @ bs)) u"
  have "u \<notin> set us" if "L m = Some us" "u \<noteq> t" for m us
    using off_listsD [OF a, of m] off_listsD [OF a, of l] assms(2) that by (cases "m = l") auto
  then show "off_lists L u \<or> u = t" by (cases "u = t") (auto intro: off_listsI)
qed

lemma sched_coreD:
  assumes "sched_core X L cs th W"
  shows "dom L = lists_of X (length cs) W"
    "L l = Some qs \<Longrightarrow> t \<in> set qs \<Longrightarrow> th t = Some x \<Longrightarrow> place_ok l x"
    "c < length cs \<Longrightarrow> cpu_ok L th c (cs ! c)"
    "th t = Some x \<Longrightarrow> thread_ok L cs t x"
  using assms unfolding sched_core_def by blast+

lemma sched_coreI:
  assumes "dom L = lists_of X (length cs) W"
    "\<And>l qs t x. L l = Some qs \<Longrightarrow> t \<in> set qs \<Longrightarrow> th t = Some x \<Longrightarrow> place_ok l x"
    "\<And>c. c < length cs \<Longrightarrow> cpu_ok L th c (cs ! c)"
    "\<And>t x. th t = Some x \<Longrightarrow> thread_ok L cs t x"
  shows "sched_core X L cs th W"
  using assms unfolding sched_core_def by blast

lemma cpu_okI:
  "c_curthread k = Some t \<Longrightarrow> th t = Some x \<Longrightarrow> t_cpu x = Some c \<Longrightarrow>
    (\<not> c_isidle k \<Longrightarrow> off_lists L t \<and> t_state x = S_RUN) \<Longrightarrow> cpu_ok L th c k"
  by (auto simp: cpu_ok_def)

lemma cpu_okE:
  assumes "cpu_ok L th c k"
  obtains t x where "c_curthread k = Some t" "th t = Some x" "t_cpu x = Some c"
    "\<not> c_isidle k \<longrightarrow> off_lists L t \<and> t_state x = S_RUN"
  using assms by (auto simp: cpu_ok_def)

lemma thread_okI:
  "t_cpu x = Some c \<Longrightarrow> c < length cs \<Longrightarrow>
    (off_lists L t \<Longrightarrow> c_curthread (cs ! c) = Some t \<and> \<not> c_isidle (cs ! c)) \<Longrightarrow> thread_ok L cs t x"
  by (auto simp: thread_ok_def)

lemma thread_okE:
  assumes "thread_ok L cs t x"
  obtains c where "t_cpu x = Some c" "c < length cs"
    "off_lists L t \<longrightarrow> c_curthread (cs ! c) = Some t \<and> \<not> c_isidle (cs ! c)"
  using assms by (auto simp: thread_ok_def)

text \<open>Only the current thread and the idle flag of a CPU matter.\<close>

lemma sched_core_cpus:
  assumes core: "sched_core X L cs th W"
    and cs': "map (\<lambda>k. (c_curthread k, c_isidle k)) cs' = map (\<lambda>k. (c_curthread k, c_isidle k)) cs"
  shows "sched_core X L cs' th W"
proof -
  note D = sched_coreD [OF core]
  have n: "length cs' = length cs" using map_eq_imp_length_eq [OF cs'] .
  have same: "c_curthread (cs' ! c) = c_curthread (cs ! c)" "c_isidle (cs' ! c) = c_isidle (cs ! c)" if "c < length cs" for c
    using arg_cong [OF cs', of "\<lambda>xs. xs ! c"] that n by simp_all
  show ?thesis
  proof (rule sched_coreI)
    show "cpu_ok L th c (cs' ! c)" if "c < length cs'" for c
      using D(3) [of c] same [of c] that n by (simp add: cpu_ok_def)
    show "thread_ok L cs' t x" if x: "th t = Some x" for t x
      using D(4) [OF x] by (rule thread_okE) (rule thread_okI, assumption, simp_all add: same n)
  qed (use D(1,2) n in auto)
qed

section \<open>Moving threads\<close>

text \<open>The current thread of a CPU goes onto a list, and the CPU has nothing to run.\<close>

lemma core_put:
  assumes core: "sched_core X L cs th W" and c: "c < length cs" "c_curthread (cs ! c) = Some t" "\<not> c_isidle (cs ! c)"
    and l: "L l = Some qs" and x: "th t = Some x" and x': "place_ok l x'" "t_cpu x' = t_cpu x"
  shows "sched_core X (L(l \<mapsto> qs @ [t])) (cs[c := (cs ! c)\<lparr>c_isidle := True\<rparr>]) (th(t \<mapsto> x')) W"
    (is "sched_core X ?L ?cs ?th W")
proof (rule sched_coreI)
  note D = sched_coreD [OF core] and off = off_lists_add [of L l qs "[]" t, unfolded append_Nil2, OF l]
  have t: "off_lists L t" "t_cpu x = Some c" using D(3) [OF c(1)] c x by (auto simp: cpu_ok_def)
  show "dom ?L = lists_of X (length ?cs) W" using D(1) l by auto
  show "place_ok m y" if "?L m = Some us" "u \<in> set us" "?th u = Some y" for m us u y
    using that D(2) [of m us u y] D(2) [OF l, of u y] x'(1) t(1) l by (auto simp: off_lists_def split: if_splits)
  show "cpu_ok ?L ?th d (?cs ! d)" if d: "d < length ?cs" for d
  proof (cases "d = c")
    case True
    then show ?thesis using c x'(2) t(2) by (intro cpu_okI [of _ t _ x']) simp_all
  next
    case False
    obtain u y where u: "c_curthread (cs ! d) = Some u" "th u = Some y" "t_cpu y = Some d"
      "\<not> c_isidle (cs ! d) \<longrightarrow> off_lists L u \<and> t_state y = S_RUN" using cpu_okE [OF D(3)] d by auto
    then have "u \<noteq> t" using t(2) x False by auto
    then show ?thesis using u False off by (intro cpu_okI [of _ u _ y]) simp_all
  qed
  show "thread_ok ?L ?cs u y" if y: "?th u = Some y" for u y
  proof (cases "u = t")
    case True
    then show ?thesis using y x'(2) t(2) off c(1) by (intro thread_okI [of _ c]) simp_all
  next
    case False
    then have "thread_ok L cs u y" using D(4) y by simp
    then obtain d where d: "t_cpu y = Some d" "d < length cs"
      "off_lists L u \<longrightarrow> c_curthread (cs ! d) = Some u \<and> \<not> c_isidle (cs ! d)" by (rule thread_okE)
    then have "off_lists L u \<longrightarrow> d \<noteq> c" using False c(2) by auto
    then show ?thesis using d by (intro thread_okI [of _ d]) (auto simp: off False)
  qed
qed

text \<open>An idle CPU takes a thread from its run queue.\<close>

lemma core_take:
  assumes lists: "lists_inv L T q" and core: "sched_core X L cs th W" and c: "c < length cs" "c_isidle (cs ! c)"
    and l: "L (runq c) = Some (t # qs)" and x: "th t = Some x" and x': "t_state x' = S_RUN" "t_cpu x' = t_cpu x"
  shows "sched_core X (L(runq c \<mapsto> qs)) (cs[c := (cs ! c)\<lparr>c_isidle := False, c_curthread := Some t\<rparr>]) (th(t \<mapsto> x')) W"
    (is "sched_core X ?L ?cs ?th W")
proof (rule sched_coreI)
  note D = sched_coreD [OF core] and off = off_lists_remove [OF lists, of "runq c" "[]" t qs, unfolded append_Nil, OF l]
    and once = member_once [OF lists, of "runq c" "[]" t qs, unfolded append_Nil, OF l]
  have t: "t_cpu x = Some c" using D(2) [OF l _ x] by simp
  show "dom ?L = lists_of X (length ?cs) W" using D(1) l by auto
  show "place_ok m y" if "?L m = Some us" "u \<in> set us" "?th u = Some y" for m us u y
    using that D(2) [of m us u y] D(2) [OF l, of u y] once(2) once(4) [of m us] by (auto split: if_splits)
  show "cpu_ok ?L ?th d (?cs ! d)" if d: "d < length ?cs" for d
  proof (cases "d = c")
    case True
    then show ?thesis using c x' t off by (intro cpu_okI [of _ t _ x']) simp_all
  next
    case False
    obtain u y where u: "c_curthread (cs ! d) = Some u" "th u = Some y" "t_cpu y = Some d"
      "\<not> c_isidle (cs ! d) \<longrightarrow> off_lists L u \<and> t_state y = S_RUN" using cpu_okE [OF D(3)] d by auto
    then have "u \<noteq> t" using t x False by auto
    then show ?thesis using u False off by (intro cpu_okI [of _ u _ y]) simp_all
  qed
  show "thread_ok ?L ?cs u y" if y: "?th u = Some y" for u y
  proof (cases "u = t")
    case True
    then show ?thesis using y x'(2) t c(1) by (intro thread_okI [of _ c]) simp_all
  next
    case False
    then have "thread_ok L cs u y" using D(4) y by simp
    then obtain d where d: "t_cpu y = Some d" "d < length cs"
      "off_lists L u \<longrightarrow> c_curthread (cs ! d) = Some u \<and> \<not> c_isidle (cs ! d)" by (rule thread_okE)
    then have "off_lists L u \<longrightarrow> d \<noteq> c" using False c(2) by auto
    then show ?thesis using d by (intro thread_okI [of _ d]) (auto simp: off False)
  qed
qed

text \<open>A thread moves from one list to another. It changes its CPU only while it is current on none.\<close>

lemma core_move:
  assumes lists: "lists_inv L T q" and core: "sched_core X L cs th W" and l: "L l = Some (as @ t # bs)"
    and m: "L m = Some (us @ vs)" "m \<noteq> l" and x: "th t = Some x" and x': "place_ok m x'"
    and cpu: "t_cpu x' = t_cpu x \<or> (\<exists>c < length cs. t_cpu x' = Some c) \<and> (\<forall>c < length cs. c_curthread (cs ! c) \<noteq> Some t)"
  shows "sched_core X (L(l \<mapsto> as @ bs, m \<mapsto> us @ t # vs)) cs (th(t \<mapsto> x')) W"
    (is "sched_core X ?L cs ?th W")
proof (rule sched_coreI)
  note D = sched_coreD [OF core] and once = member_once [OF lists l]
  have off: "off_lists ?L u \<longleftrightarrow> off_lists L u" for u
    using off_lists_add [of "L(l \<mapsto> as @ bs)" m us vs t u] off_lists_remove [OF lists l, of u] m once(5) by auto
  show "dom ?L = lists_of X (length cs) W" using D(1) l m by auto
  show "place_ok k y" if "?L k = Some ws" "u \<in> set ws" "?th u = Some y" for k ws u y
    using that D(2) [of k ws u y] D(2) [OF l, of u y] D(2) [OF m(1), of u y] once(1,2) once(4) [of k ws] x'
    by (auto split: if_splits)
  show "cpu_ok ?L ?th d (cs ! d)" if d: "d < length cs" for d
  proof -
    obtain u y where u: "c_curthread (cs ! d) = Some u" "th u = Some y" "t_cpu y = Some d"
      "\<not> c_isidle (cs ! d) \<longrightarrow> off_lists L u \<and> t_state y = S_RUN" using cpu_okE [OF D(3) [OF d]] by auto
    show ?thesis
    proof (cases "u = t")
      case True
      then have "t_cpu x' = t_cpu x" using cpu u(1) d by auto
      then show ?thesis using u x off once(5) True by (intro cpu_okI [of _ t _ x']) auto
    next
      case False
      then show ?thesis using u off by (intro cpu_okI [of _ u _ y]) simp_all
    qed
  qed
  show "thread_ok ?L cs u y" if y: "?th u = Some y" for u y
  proof (cases "u = t")
    case True
    obtain c where "t_cpu x' = Some c" "c < length cs" using cpu D(4) [OF x] by (auto elim!: thread_okE)
    then show ?thesis using True y off once(5) by (intro thread_okI [of _ c]) auto
  next
    case False
    then show ?thesis using D(4) [of u y] y off by (simp add: thread_ok_def)
  qed
qed

text \<open>A zombie that is not current any more disappears; a thread appears on a run queue.\<close>

lemma core_reap:
  assumes lists: "lists_inv L T q" and core: "sched_core X L cs th W" and l: "L l = Some (as @ t # bs)"
    and cur: "\<And>c. c < length cs \<Longrightarrow> c_curthread (cs ! c) \<noteq> Some t"
  shows "sched_core X (L(l \<mapsto> as @ bs)) cs (th(t := None)) W" (is "sched_core X ?L cs ?th W")
proof (rule sched_coreI)
  note D = sched_coreD [OF core] and off = off_lists_remove [OF lists l]
  show "dom ?L = lists_of X (length cs) W" using D(1) l by auto
  show "place_ok k y" if "?L k = Some ws" "u \<in> set ws" "?th u = Some y" for k ws u y
    using that D(2) [of k ws u y] D(2) [OF l, of u y] by (auto split: if_splits)
  show "cpu_ok ?L ?th d (cs ! d)" if d: "d < length cs" for d
    using D(3) [OF d] cur [OF d] by (auto simp: cpu_ok_def off)
  show "thread_ok ?L cs u y" if y: "?th u = Some y" for u y
    using D(4) [of u y] y by (auto simp: thread_ok_def off split: if_splits)
qed

lemma core_new:
  assumes lists: "lists_inv L (dom th) q" and core: "sched_core X L cs th W" and l: "L l = Some qs"
    and t: "th t = None" and x: "place_ok l x" "t_cpu x = Some c" "c < length cs"
  shows "sched_core X (L(l \<mapsto> qs @ [t])) cs (th(t \<mapsto> x)) W" (is "sched_core X ?L cs ?th W")
proof (rule sched_coreI)
  note D = sched_coreD [OF core] and off = off_lists_add [of L l qs "[]" t, unfolded append_Nil2, OF l]
  have nt: "t \<notin> set us" if "L m = Some us" for m us using tlists.member [OF lists that] t by auto
  show "dom ?L = lists_of X (length cs) W" using D(1) l by auto
  show "place_ok k y" if "?L k = Some ws" "u \<in> set ws" "?th u = Some y" for k ws u y
    using that D(2) [of k ws u y] D(2) [OF l, of u y] x(1) nt by (auto split: if_splits)
  show "cpu_ok ?L ?th d (cs ! d)" if d: "d < length cs" for d
    using D(3) [OF d] t by (auto simp: cpu_ok_def off)
  show "thread_ok ?L cs u y" if y: "?th u = Some y" for u y
    using D(4) [of u y] y x(2,3) by (auto simp: thread_ok_def off split: if_splits)
qed

text \<open>A list is set up, or given up when it is empty.\<close>

lemma core_lists:
  assumes core: "sched_core X L cs th W" and l: "L' = L(l \<mapsto> []) \<and> L l = None \<or> L' = L(l := None) \<and> L l = Some []"
    and d: "dom L' = lists_of X' (length cs) W'"
  shows "sched_core X' L' cs th W'"
proof -
  note D = sched_coreD [OF core]
  have off: "off_lists L' u = off_lists L u" for u using l off_lists_empty [of L l u] by auto
  have "place_ok k y" if "L' k = Some ws" "u \<in> set ws" "th u = Some y" for k ws u y
    using that D(2) [of k ws u y] l by (auto split: if_splits)
  then show ?thesis using D(3,4) d by (intro sched_coreI) (simp_all add: cpu_ok_def thread_ok_def off)
qed

section \<open>The memory of threads\<close>

text \<open>The blocks of the heap that belong to threads and wait channels, by owner.\<close>

datatype owner = TStruct nat | TName nat | WStruct nat

definition owned :: "(nat \<rightharpoonup> thread) \<Rightarrow> nat set \<Rightarrow> owner \<rightharpoonup> u32" where
  "owned th W g = (case g of
     TStruct t \<Rightarrow> if th t = None then None else Some (of_nat t)
   | TName t \<Rightarrow> map_option t_name (th t)
   | WStruct w \<Rightarrow> if w \<in> W then Some (of_nat w) else None)"

definition own_ok :: "kheap \<Rightarrow> (owner \<rightharpoonup> u32) \<Rightarrow> bool" where
  "own_ok h own \<longleftrightarrow> heap_inv h \<and> inj_on own (dom own) \<and> (\<forall>a \<in> ran own. \<exists>z. (a, z) \<in> allocated h)"

text \<open>A stack is a page of its own with the guard words at its bottom; the boot thread has none.\<close>

definition stack_ok :: "kheap \<Rightarrow> u32 \<Rightarrow> bool" where
  "stack_ok h k \<longleftrightarrow> k = 0 \<or> unat k mod 4096 = 0 \<and> k \<notin> heap_pages h \<and> unat k + 4096 \<le> frontier h
     \<and> (\<forall>i < 4. load32 (kmem h) (k + of_nat (4 * i)) = THREAD_STACK_MAGIC)"

definition mem_ok :: "kheap \<Rightarrow> (nat \<rightharpoonup> thread) \<Rightarrow> nat set \<Rightarrow> bool" where
  "mem_ok h th W \<longleftrightarrow> own_ok h (owned th W) \<and> dom th \<union> W \<subseteq> {..<2 ^ 32}
     \<and> (\<forall>x \<in> ran th. stack_ok h (t_stack x))
     \<and> (\<forall>t u x y. th t = Some x \<and> th u = Some y \<and> t_stack x = t_stack y \<and> t_stack x \<noteq> 0 \<longrightarrow> t = u)"

lemma stack_ok_keep:
  assumes ok: "stack_ok h k" and f: "frontier h \<le> frontier h'" and hi: "heap_inv h" and p: "k \<notin> heap_pages h \<Longrightarrow> unat k + 4096 \<le> frontier h \<Longrightarrow> k \<notin> heap_pages h'"
    and m: "\<And>x. k \<noteq> 0 \<Longrightarrow> unat k mod 4096 = 0 \<Longrightarrow> k \<notin> heap_pages h \<Longrightarrow> unat k + 4096 \<le> frontier h \<Longrightarrow>
      unat k \<le> unat x \<Longrightarrow> unat x < unat k + 4096 \<Longrightarrow> kmem h' x = kmem h x"
  shows "stack_ok h' k"
proof (cases "k = 0")
  case False
  then have k: "unat k mod 4096 = 0" "k \<notin> heap_pages h" "unat k + 4096 \<le> frontier h" using ok by (auto simp: stack_ok_def)
  then have b: "unat k + 4096 \<le> 2 ^ 32" using frontier_bound [OF heap_invD(1) [OF hi]] by simp
  have "load32 (kmem h') (k + of_nat (4 * i)) = load32 (kmem h) (k + of_nat (4 * i))" if i: "i < 4" for i
  proof (rule load32_cong)
    fix j :: nat
    assume "j < 4"
    then have "unat (k + of_nat (4 * i) + of_nat j) = unat k + 4 * i + j"
      using b i by (simp add: unat_word_ariths unat_of_nat)
    then show "kmem h' (k + of_nat (4 * i) + of_nat j) = kmem h (k + of_nat (4 * i) + of_nat j)"
      using m [OF False k] i \<open>j < 4\<close> by simp
  qed
  then show ?thesis using ok f p False k by (simp add: stack_ok_def)
qed (simp add: stack_ok_def)

lemma stack_ok_check:
  assumes "stack_ok (kh (tvm s)) k"
  shows "thread_checkstack k s = Inr ()"
proof (cases "k = 0")
  case False
  then have "\<forall>i < 4. load32 (kmem (kh (tvm s))) (k + of_nat (4 * i)) = THREAD_STACK_MAGIC" using assms by (simp add: stack_ok_def)
  from this [rule_format, of 0] this [rule_format, of 1] this [rule_format, of 2] this [rule_format, of 3]
  show ?thesis using False by (simp add: thread_checkstack_def Let_def)
qed (simp add: thread_checkstack_def)

text \<open>The bytes of a page that is not the heap's are in no block.\<close>

lemma page_off_block:
  fixes k x :: u32
  assumes inv: "heap_inv h" and z: "(a, z) \<in> allocated h"
    and k: "unat k mod 4096 = 0" "k \<notin> heap_pages h" "unat k \<le> unat x" "unat x < unat k + 4096"
  shows "unat x < unat a \<or> unat a + unat z \<le> unat x"
proof -
  obtain P where P: "P \<in> heap_pages h" "unat P \<le> unat a" "unat a + unat z \<le> unat P + 4096" "unat P mod 4096 = 0"
    using allocated_in_page [OF inv z] by (elim bexE conjE) (rule that)
  have "k \<noteq> P" using k(2) P(1) by auto
  then have "unat k \<noteq> unat P" by (simp add: word_unat_eq_iff)
  then have "unat k + 4096 \<le> unat P \<or> unat P + 4096 \<le> unat k"
    using multiples_apart [OF k(1) P(4)] multiples_apart [OF P(4) k(1)] by linarith
  then show ?thesis using k P by linarith
qed

text \<open>Releasing an owner's block leaves all others, and the guards, as they were.\<close>

lemma own_free:
  assumes ok: "own_ok h own" and g: "own g = Some a"
  shows "\<exists>h'. kfree a h = Inr h' \<and> own_ok h' (own(g := None)) \<and> (\<forall>k. stack_ok h k \<longrightarrow> stack_ok h' k)"
proof -
  have inv: "heap_inv h" and inj: "inj_on own (dom own)" and al: "\<And>g a. own g = Some a \<Longrightarrow> \<exists>z. (a, z) \<in> allocated h"
    using ok by (auto simp: own_ok_def ran_def)
  obtain z where z: "(a, z) \<in> allocated h" using al [OF g] by blast
  obtain h' where h': "kfree a h = Inr h'" "heap_inv h'" "allocated h' = allocated h - {(a, z)}" "kram h' = kram h"
      "heap_pages h' \<subseteq> heap_pages h" "\<And>x. unat x < unat a \<or> unat a + unat z \<le> unat x \<Longrightarrow> kmem h' x = kmem h x"
    using kfree_spec [OF inv z] by auto
  have "\<exists>y. (b, y) \<in> allocated h'" if b: "own f = Some b" "f \<noteq> g" for f b
  proof -
    have "b \<noteq> a" using inj_onD [OF inj, of f g] b g by auto
    then show ?thesis using al [OF b(1)] h'(3) by auto
  qed
  moreover have "inj_on (own(g := None)) (dom (own(g := None)))"
    using inj by (auto simp: inj_on_def)
  ultimately have "own_ok h' (own(g := None))"
    using h'(2) by (auto simp: own_ok_def ran_def)
  moreover have "stack_ok h' k" if k: "stack_ok h k" for k
  proof (rule stack_ok_keep [OF k _ inv])
    fix x :: u32
    assume "unat k mod 4096 = 0" "k \<notin> heap_pages h" "unat k \<le> unat x" "unat x < unat k + 4096"
    then show "kmem h' x = kmem h x" by (intro h'(6) page_off_block [OF inv z])
  qed (use h'(4,5) in \<open>auto simp: frontier_def\<close>)
  ultimately show ?thesis using h'(1) by blast
qed

text \<open>An allocation gives a block that no owner has.\<close>

lemma own_alloc:
  assumes ok: "own_ok h own" and sz: "unat sz < 2048"
  shows "\<exists>a h'. kmalloc sz h = Inr (a, h') \<and> frontier h \<le> frontier h' \<and> (\<forall>k. stack_ok h k \<longrightarrow> stack_ok h' k) \<and> own_ok h' own
    \<and> (a \<noteq> 0 \<longrightarrow> (\<exists>z. unat sz \<le> unat z \<and> (a, z) \<in> allocated h') \<and> a \<notin> ran own \<and> (\<forall>g. own g = None \<longrightarrow> own_ok h' (own(g \<mapsto> a))))"
proof -
  have inv: "heap_inv h" and inj: "inj_on own (dom own)" and al: "\<And>g a. own g = Some a \<Longrightarrow> \<exists>z. (a, z) \<in> allocated h"
    using ok by (auto simp: own_ok_def ran_def)
  obtain a h' where k: "kmalloc sz h = Inr (a, h')" "heap_inv h'" "new_pages h h'"
      and cases: "gained sz h a h' \<or> a = 0 \<and> allocated h' = allocated h"
    using kmalloc_spec [OF inv sz] by auto
  have gr: "grows h h'" using kmalloc_grows [OF heap_invD(1) [OF inv] _ k(1)] sz by simp
  have st: "stack_ok h' k" if "stack_ok h k" for k
    by (rule stack_ok_keep [OF that _ inv]) (use gr k(3) in \<open>auto simp: grows_def new_pages_def\<close>)
  have sub: "allocated h \<subseteq> allocated h'" using cases by (auto simp: gained_def)
  then have ok': "own_ok h' own" using k(2) inj al by (fastforce simp: own_ok_def ran_def)
  have "(\<exists>z. unat sz \<le> unat z \<and> (a, z) \<in> allocated h') \<and> a \<notin> ran own \<and> (\<forall>g. own g = None \<longrightarrow> own_ok h' (own(g \<mapsto> a)))" if nz: "a \<noteq> 0"
  proof -
    obtain z where z: "unat sz \<le> unat z" "(a, z) \<notin> allocated h" "(a, z) \<in> allocated h'"
      using cases nz by (auto simp: gained_def)
    have fresh: "own f \<noteq> Some a" for f
    proof
      assume "own f = Some a"
      then obtain y where y: "(a, y) \<in> allocated h" using al by blast
      then have "unat a + unat z \<le> unat a \<or> unat a + unat y \<le> unat a"
        using allocated_disjoint [OF k(2) z(3) subsetD [OF sub y]] y z(2) by blast
      then show False using allocated_in_page [OF k(2) z(3)] allocated_in_page [OF inv y] by auto
    qed
    have "own_ok h' (own(g \<mapsto> a))" if "own g = None" for g
    proof -
      have "inj_on (own(g \<mapsto> a)) (dom (own(g \<mapsto> a)))" using inj fresh by (auto simp: inj_on_def)
      moreover have "ran (own(g \<mapsto> a)) = insert a (ran own)" using that by simp
      ultimately show ?thesis using ok' z(3) by (auto simp: own_ok_def)
    qed
    then show ?thesis using z fresh by (auto simp: ran_def)
  qed
  then show ?thesis using k(1) gr st ok' by (auto simp: grows_def)
qed

text \<open>A stack is the next page of free memory; writing its guard disturbs nothing else.\<close>

lemma guard_words:
  fixes k v :: u32 and m :: mem
  assumes "unat k + 16 \<le> 2 ^ 32" "unat k mod 4 = 0"
  defines "m' \<equiv> store32 (store32 (store32 (store32 m k v) (k + 4) v) (k + 8) v) (k + 12) v"
  shows "\<forall>i < 4. load32 m' (k + of_nat (4 * i)) = v" "unat x < unat k \<or> unat k + 16 \<le> unat x \<Longrightarrow> m' x = m x"
proof -
  have u: "unat (k + 4) = unat k + 4" "unat (k + 8) = unat k + 8" "unat (k + 12) = unat k + 12"
    using assms(1) by (simp_all add: unat_word_ariths)
  have al: "aligned4 k" "aligned4 (k + 4)" "aligned4 (k + 8)" "aligned4 (k + 12)"
    using assms(2) by (auto simp: aligned4_def u mod_add_eq [symmetric])
  have "load32 m' (k + of_nat (4 * i)) = v" if "i < 4" for i
  proof -
    consider "i = 0" | "i = 1" | "i = 2" | "i = 3" using \<open>i < 4\<close> by linarith
    then show ?thesis
      unfolding m'_def by cases (simp_all add: al)
  qed
  then show "\<forall>i < 4. load32 m' (k + of_nat (4 * i)) = v" by blast
  assume x: "unat x < unat k \<or> unat k + 16 \<le> unat x"
  have ne: "x \<noteq> k + of_nat j" if "j < 16" for j
  proof
    assume "x = k + of_nat j"
    moreover have "unat (k + of_nat j) = unat k + j" using that assms(1) by (simp add: unat_word_ariths unat_of_nat)
    ultimately show False using x that by simp
  qed
  have "store32 n (k + of_nat (4 * c)) v x = n x" if "c < 4" for c n
  proof (rule store32_outside)
    show "x \<noteq> k + of_nat (4 * c) + of_nat i" if "i < 4" for i
      using ne [of "4 * c + i"] that \<open>c < 4\<close> by (simp add: add.assoc)
  qed
  from this [of 0] this [of 1] this [of 2] this [of 3] show "m' x = m x" by (simp add: m'_def)
qed

lemma owned_drop: "owned (th(t := None)) W = (owned th W)(TStruct t := None, TName t := None)"
  by (rule ext) (auto simp: owned_def split: owner.split)

lemma owned_add: "th t = None \<Longrightarrow> owned (th(t \<mapsto> x)) W = (owned th W)(TStruct t \<mapsto> of_nat t, TName t \<mapsto> t_name x)"
  by (rule ext) (auto simp: owned_def split: owner.split)

lemma owned_chan: "owned th (insert w W) = (owned th W)(WStruct w \<mapsto> of_nat w)" "owned th (W - {w}) = (owned th W)(WStruct w := None)"
  by (rule ext, auto simp: owned_def split: owner.split)+

text \<open>Only the names and the stacks of the threads matter.\<close>

lemma mem_ok_update:
  assumes "mem_ok h th W" "th t = Some x" "t_name x' = t_name x" "t_stack x' = t_stack x"
  shows "mem_ok h (th(t \<mapsto> x')) W"
proof -
  have "owned (th(t \<mapsto> x')) W = owned th W"
    using assms(2,3) by (intro ext) (auto simp: owned_def split: owner.split)
  moreover have "\<exists>y. th u = Some y \<and> t_stack y = t_stack z" if "(th(t \<mapsto> x')) u = Some z" for u z
    using assms(2,4) that by (auto split: if_splits)
  moreover have "insert t (dom th) = dom th" using assms(2) by auto
  ultimately show ?thesis
    using assms(1) unfolding mem_ok_def by (simp add: ran_def) (metis (mono_tags, lifting))
qed

lemma mem_ok_drop:
  assumes "mem_ok h th W" "own_ok h' (owned (th(t := None)) W)" "\<And>k. stack_ok h k \<Longrightarrow> stack_ok h' k"
  shows "mem_ok h' (th(t := None)) W"
  using assms by (auto simp: mem_ok_def ran_def)

lemma thread_destroy_spec:
  assumes mem: "mem_ok (kh (tvm s)) (thr s) W" and lists: "lists_inv L (dom (thr s)) (tls s)"
    and t: "thr s t = Some x" "off_lists L t" "t_state x \<noteq> S_RUN" "t_cwd x = 0" "t_addrspace x = 0"
    and cur: "curthread me s = Inr c" "c \<noteq> t"
  shows "\<exists>h'. thread_destroy me t s = Inr (s\<lparr>tvm := (tvm s)\<lparr>kh := h'\<rparr>, thr := (thr s)(t := None)\<rparr>)
    \<and> mem_ok h' ((thr s)(t := None)) W \<and> lists_inv L (dom ((thr s)(t := None))) (tls s)"
proof -
  let ?h = "kh (tvm s)" and ?own = "owned (thr s) W"
  have ok: "own_ok ?h ?own" and st: "stack_ok ?h (t_stack x)" and b: "t < 2 ^ 32"
    using mem t(1) by (auto simp: mem_ok_def intro: ranI)
  have stack: "(if t_stack x \<noteq> 0 then t_kfree (t_stack x) s else Inr s) = Inr s"
    using kfree_large [of ?h "t_stack x"] st ok by (auto simp: stack_ok_def own_ok_def t_kfree_def vm_kfree_def)
  obtain h1 where h1: "kfree (t_name x) ?h = Inr h1" "own_ok h1 (?own(TName t := None))" "\<And>k. stack_ok ?h k \<Longrightarrow> stack_ok h1 k"
    using own_free [OF ok, of "TName t" "t_name x"] t(1) by (auto simp: owned_def)
  obtain h2 where h2: "kfree (of_nat t) h1 = Inr h2" "own_ok h2 (?own(TName t := None, TStruct t := None))"
      "\<And>k. stack_ok h1 k \<Longrightarrow> stack_ok h2 k"
    using own_free [OF h1(2), of "TStruct t" "of_nat t"] t(1) by (auto simp: owned_def)
  have "mem_ok h2 ((thr s)(t := None)) W"
    by (rule mem_ok_drop [OF mem]) (use h1(3) h2 in \<open>simp_all add: owned_drop fun_upd_twist\<close>)
  moreover have "threadlistnode_cleanup (TNode t) (tls s) = Inr ()" "lists_inv L (dom ((thr s)(t := None))) (tls s)"
    using threadlistnode_cleanup_inv [OF lists _ t(2)] t(1) by (auto simp: dom_fun_upd)
  moreover have "thread_destroy me t s = Inr (s\<lparr>tvm := (tvm s)\<lparr>kh := h2\<rparr>, thr := (thr s)(t := None)\<rparr>)"
    using t cur stack h1(1) h2(1) calculation(2) by (simp add: thread_destroy_def t_kfree_def vm_kfree_def)
  ultimately show ?thesis by blast
qed

section \<open>Context switches\<close>

definition sys_ok :: "nat set \<Rightarrow> (nat \<rightharpoonup> nat list) \<Rightarrow> tsys \<Rightarrow> bool" where
  "sys_ok X L s \<longleftrightarrow> sched_inv X L s \<and> mem_ok (kh (tvm s)) (thr s) (dom (wchans s))"

lemma sys_okD:
  assumes "sys_ok X L s"
  shows "lists_inv L (dom (thr s)) (tls s)" "sched_core X L (allcpus s) (thr s) (dom (wchans s))"
    "mem_ok (kh (tvm s)) (thr s) (dom (wchans s))"
  using assms by (simp_all add: sys_ok_def sched_inv_def)

lemma sys_okI:
  "lists_inv L (dom (thr s)) (tls s) \<Longrightarrow> sched_core X L (allcpus s) (thr s) (dom (wchans s)) \<Longrightarrow>
    mem_ok (kh (tvm s)) (thr s) (dom (wchans s)) \<Longrightarrow> sys_ok X L s"
  by (simp add: sys_ok_def sched_inv_def)

text \<open>What is known of the current thread of a CPU, and of a thread on a list.\<close>

lemma current_thread:
  assumes ok: "sys_ok X L s" and c: "c < length (allcpus s)"
  obtains t x where "c_curthread (allcpus s ! c) = Some t" "curthread c s = Inr t" "thr s t = Some x" "t_cpu x = Some c"
    "\<not> c_isidle (allcpus s ! c) \<longrightarrow> off_lists L t \<and> t_state x = S_RUN"
proof -
  obtain t x where "c_curthread (allcpus s ! c) = Some t" "thr s t = Some x" "t_cpu x = Some c"
      "\<not> c_isidle (allcpus s ! c) \<longrightarrow> off_lists L t \<and> t_state x = S_RUN"
    using cpu_okE [OF sched_coreD(3) [OF sys_okD(2) [OF ok] c]] by blast
  moreover from this have "curthread c s = Inr t" using c by (simp add: curthread_def nonnull_def)
  ultimately show thesis using that by blast
qed

lemma listed_thread:
  assumes ok: "sys_ok X L s" and l: "L l = Some qs" "t \<in> set qs"
  obtains x where "thr s t = Some x" "place_ok l x"
proof -
  obtain x where "thr s t = Some x" using tlists.member [OF sys_okD(1) [OF ok] l(1)] l(2) by blast
  then show thesis using that sched_coreD(2) [OF sys_okD(2) [OF ok] l] by blast
qed

lemma queue_exists:
  assumes ok: "sys_ok X L s"
  shows "c < length (allcpus s) \<Longrightarrow> \<exists>qs. L (runq c) = Some qs" "c < length (allcpus s) \<Longrightarrow> \<exists>zs. L (zombq c) = Some zs"
    "wchans s w \<noteq> None \<longleftrightarrow> L (wchanq w) \<noteq> None" "L (localq c) \<noteq> None \<longleftrightarrow> c \<in> X"
proof -
  have d: "L l \<noteq> None \<longleftrightarrow> l \<in> lists_of X (length (allcpus s)) (dom (wchans s))" for l
    using sched_coreD(1) [OF sys_okD(2) [OF ok]] by auto
  show "c < length (allcpus s) \<Longrightarrow> \<exists>qs. L (runq c) = Some qs" "c < length (allcpus s) \<Longrightarrow> \<exists>zs. L (zombq c) = Some zs"
    using d [of "runq c"] d [of "zombq c"] by (auto simp: lists_of_def)
  show "wchans s w \<noteq> None \<longleftrightarrow> L (wchanq w) \<noteq> None" unfolding d by (auto simp: lists_of_def)
  show "L (localq c) \<noteq> None \<longleftrightarrow> c \<in> X" unfolding d by (auto simp: lists_of_def)
qed

lemma exorcise_loop_spec:
  assumes "sys_ok X L s" "me < length (allcpus s)" "\<not> c_isidle (allcpus s ! me)" "L (zombq me) = Some zs" "length zs < fuel"
  shows "\<exists>h' l'. exorcise_loop fuel me s = Inr (s\<lparr>tls := l', tvm := (tvm s)\<lparr>kh := h'\<rparr>, thr := thr s |` (- set zs)\<rparr>)
    \<and> sys_ok X (L(zombq me \<mapsto> [])) (s\<lparr>tls := l', tvm := (tvm s)\<lparr>kh := h'\<rparr>, thr := thr s |` (- set zs)\<rparr>)"
  using assms
proof (induction zs arbitrary: fuel L s)
  case Nil
  obtain g where g: "fuel = Suc g" using Nil.prems(5) by (cases fuel) auto
  have "threadlist_remhead (zombq me) (tls s) = Inr (None, tls s)"
    by (rule tlists.deq_empty [OF sys_okD(1) [OF Nil.prems(1)] Nil.prems(4)])
  then have "exorcise_loop fuel me s = Inr s" by (simp add: g)
  moreover have "L(zombq me \<mapsto> []) = L" using Nil.prems(4) by (simp add: fun_upd_idem_iff)
  moreover have "s\<lparr>tls := tls s, tvm := (tvm s)\<lparr>kh := kh (tvm s)\<rparr>, thr := thr s |` (- set [])\<rparr> = s" by (simp add: restrict_map_def)
  ultimately show ?case using Nil.prems(1) by metis
next
  case (Cons z zs)
  note D = sys_okD [OF Cons.prems(1)]
  obtain g where g: "fuel = Suc g" "length zs < g" using Cons.prems(5) by (cases fuel) auto
  let ?L = "L(zombq me \<mapsto> zs)"
  obtain l1 where l1: "threadlist_remhead (zombq me) (tls s) = Inr (Some z, l1)" "lists_inv ?L (dom (thr s)) l1"
    using tlists.deq_first [OF D(1) Cons.prems(4)] by blast
  note once = member_once [OF D(1), of "zombq me" "[]" z zs, unfolded append_Nil, OF Cons.prems(4)]
  have off: "off_lists ?L z" by (rule tlists.deq_off [OF D(1) Cons.prems(4)])
  obtain x where x: "thr s z = Some x" "place_ok (zombq me) x"
    using listed_thread [OF Cons.prems(1,4), of z] by auto
  obtain cur where cur: "c_curthread (allcpus s ! me) = Some cur" "curthread me s = Inr cur" "cur \<noteq> z"
    using current_thread [OF Cons.prems(1,2)] Cons.prems(3) once(5) by metis
  have none: "c_curthread (allcpus s ! c) \<noteq> Some z" if "c < length (allcpus s)" for c
    by (rule current_thread [OF Cons.prems(1) that]) (use x cur(1,3) in auto)
  let ?s = "s\<lparr>tls := l1\<rparr>"
  obtain h' where h': "thread_destroy me z ?s = Inr (?s\<lparr>tvm := (tvm ?s)\<lparr>kh := h'\<rparr>, thr := (thr ?s)(z := None)\<rparr>)"
      "mem_ok h' ((thr s)(z := None)) (dom (wchans s))" "lists_inv ?L (dom ((thr s)(z := None))) l1"
    using thread_destroy_spec [of ?s "dom (wchans s)" ?L z x me cur] D(3) l1(2) x off cur(2,3) by (auto simp: curthread_def)
  let ?s' = "?s\<lparr>tvm := (tvm ?s)\<lparr>kh := h'\<rparr>, thr := (thr ?s)(z := None)\<rparr>"
  have "sched_core X ?L (allcpus s) ((thr s)(z := None)) (dom (wchans s))"
    using core_reap [OF D(1,2), of "zombq me" "[]" z zs] Cons.prems(4) none by simp
  then have ok: "sys_ok X ?L ?s'" using h'(2,3) by (intro sys_okI) simp_all
  have ex: "exorcise_loop fuel me s = exorcise_loop g me ?s'"
    using l1(1) cur x h'(1) by (simp add: g(1) curthread_def)
  have th: "(thr s)(z := None) |` (- set zs) = thr s |` (- set (z # zs))" by (auto simp: restrict_map_def fun_eq_iff)
  have L: "?L(zombq me \<mapsto> []) = L(zombq me \<mapsto> [])" by simp
  obtain h2 l2 where "exorcise_loop g me ?s' = Inr (?s'\<lparr>tls := l2, tvm := (tvm ?s')\<lparr>kh := h2\<rparr>, thr := thr ?s' |` (- set zs)\<rparr>)"
      "sys_ok X (?L(zombq me \<mapsto> [])) (?s'\<lparr>tls := l2, tvm := (tvm ?s')\<lparr>kh := h2\<rparr>, thr := thr ?s' |` (- set zs)\<rparr>)"
    using Cons.IH [OF ok _ _ fun_upd_same g(2)] Cons.prems(2,3) by (simp del: fun_upd_apply restrict_fun_upd) blast
  moreover have "?s'\<lparr>tls := l2, tvm := (tvm ?s')\<lparr>kh := h2\<rparr>, thr := thr ?s' |` (- set zs)\<rparr>
      = s\<lparr>tls := l2, tvm := (tvm s)\<lparr>kh := h2\<rparr>, thr := thr s |` (- set (z # zs))\<rparr>"
    using th by (simp del: restrict_fun_upd fun_upd_apply)
  ultimately show ?case unfolding ex L by metis
qed

lemma exorcise_spec:
  assumes "sys_ok X L s" "me < length (allcpus s)" "\<not> c_isidle (allcpus s ! me)" "L (zombq me) = Some zs"
  shows "\<exists>h' l'. exorcise me s = Inr (s\<lparr>tls := l', tvm := (tvm s)\<lparr>kh := h'\<rparr>, thr := thr s |` (- set zs)\<rparr>)
    \<and> sys_ok X (L(zombq me \<mapsto> [])) (s\<lparr>tls := l', tvm := (tvm s)\<lparr>kh := h'\<rparr>, thr := thr s |` (- set zs)\<rparr>)"
  unfolding exorcise_def using list_count [OF sys_okD(1) [OF assms(1)] assms(4)]
  by (intro exorcise_loop_spec [OF assms]) simp

text \<open>
  The CPU takes the first thread of its run queue, marks it running, flushes the TLB for a thread
  with an address space and destroys the zombies.
\<close>

definition running :: "thread \<Rightarrow> thread" where
  "running x = x\<lparr>t_wchan_name := None, t_state := S_RUN\<rparr>"

definition other_cpus :: "nat \<Rightarrow> tsys \<Rightarrow> tsys \<Rightarrow> bool" where
  "other_cpus me s s' \<longleftrightarrow> length (allcpus s') = length (allcpus s) \<and> (\<forall>c. c \<noteq> me \<longrightarrow> allcpus s' ! c = allcpus s ! c)"

lemma running_sel [simp]: "t_cpu (running x) = t_cpu x" "t_state (running x) = S_RUN" "t_name (running x) = t_name x"
  "t_stack (running x) = t_stack x" "t_addrspace (running x) = t_addrspace x" "t_cwd (running x) = t_cwd x"
  "t_in_interrupt (running x) = t_in_interrupt x"
  by (simp_all add: running_def)

lemma switch_next_spec:
  assumes ok: "sys_ok X L s" and me: "me < length (allcpus s)" "c_isidle (allcpus s ! me)"
    and l: "L (runq me) = Some (t # qs)" "L (zombq me) = Some zs" and x: "thr s t = Some x"
  shows "\<exists>s'. switch_next me s = Inr (True, s') \<and> sys_ok X (L(runq me \<mapsto> qs, zombq me \<mapsto> [])) s'
    \<and> c_curthread (allcpus s' ! me) = Some t \<and> \<not> c_isidle (allcpus s' ! me) \<and> other_cpus me s s'
    \<and> thr s' = (thr s)(t \<mapsto> running x) |` (- set zs) \<and> wchans s' = wchans s
    \<and> (t_addrspace x \<noteq> 0 \<longrightarrow> c_tlb (allcpus s' ! me) = as_activate (c_tlb (allcpus s ! me)))"
proof -
  note D = sys_okD [OF ok]
  let ?k = "(allcpus s ! me)\<lparr>c_isidle := False, c_curthread := Some t\<rparr>"
  obtain l1 where l1: "threadlist_remhead (runq me) (tls s) = Inr (Some t, l1)" "lists_inv (L(runq me \<mapsto> qs)) (dom (thr s)) l1"
    using tlists.deq_first [OF D(1) l(1)] by blast
  have core: "sched_core X (L(runq me \<mapsto> qs)) ((allcpus s)[me := ?k]) ((thr s)(t \<mapsto> running x)) (dom (wchans s))"
    using core_take [OF D(1,2) me l(1) x, of "running x"] by simp
  have mem: "mem_ok (kh (tvm s)) ((thr s)(t \<mapsto> running x)) (dom (wchans s))"
    by (rule mem_ok_update [OF D(3) x]) simp_all
  have dom: "insert t (dom (thr s)) = dom (thr s)" using x by auto
  define v where "v = (if t_addrspace x \<noteq> 0 then vm_as_activate (t_addrspace x) (tvm s\<lparr>ts := c_tlb ?k\<rparr>) else tvm s)"
  define k where "k = (if t_addrspace x \<noteq> 0 then ?k\<lparr>c_tlb := as_activate (c_tlb (allcpus s ! me))\<rparr> else ?k)"
  let ?s = "s\<lparr>tls := l1, allcpus := (allcpus s)[me := k], thr := (thr s)(t \<mapsto> running x), tvm := v\<rparr>"
  have kv: "kh v = kh (tvm s)" "c_curthread k = Some t" "\<not> c_isidle k" by (simp_all add: v_def k_def vm_as_activate_def)
  have sw: "switch_next me s = rbind (exorcise me ?s) (\<lambda>s. Inr (True, s))"
    using me l1(1) x unfolding v_def k_def
    by (cases "t_addrspace x = 0")
      (simp_all add: switch_next_def switch_in_def set_cpu_def set_thread_def curthread_def nonnull_def on_cpu_def
        vm_as_activate_def running_def [symmetric] rbind_assoc,
       rule arg_cong [where f = "\<lambda>s. rbind (exorcise me s) (\<lambda>s. Inr (True, s))"], simp)
  have "map (\<lambda>k. (c_curthread k, c_isidle k)) ((allcpus s)[me := k]) = map (\<lambda>k. (c_curthread k, c_isidle k)) ((allcpus s)[me := ?k])"
    using kv by (simp add: map_update)
  then have "sys_ok X (L(runq me \<mapsto> qs)) ?s"
    using l1(2) sched_core_cpus [OF core] mem kv by (intro sys_okI) (simp_all add: dom)
  from exorcise_spec [OF this, of me zs] me l(2) kv
  obtain h' l' where e: "exorcise me ?s = Inr (?s\<lparr>tls := l', tvm := v\<lparr>kh := h'\<rparr>, thr := (thr s)(t \<mapsto> running x) |` (- set zs)\<rparr>)"
      "sys_ok X (L(runq me \<mapsto> qs, zombq me \<mapsto> [])) (?s\<lparr>tls := l', tvm := v\<lparr>kh := h'\<rparr>, thr := (thr s)(t \<mapsto> running x) |` (- set zs)\<rparr>)"
    by auto
  show ?thesis unfolding sw e(1) using e(2) kv me by (auto simp: other_cpus_def k_def)
qed

text \<open>Making a thread runnable puts it last on the run queue of its CPU, and wakes the CPU if it idles.\<close>

definition kick :: "nat \<Rightarrow> cpu list \<Rightarrow> cpu list" where
  "kick c cs = (if c_isidle (cs ! c)
     then cs[c := (cs ! c)\<lparr>c_ipi_pending := c_ipi_pending (cs ! c) OR push_bit IPI_UNIDLE 1\<rparr>] else cs)"

lemma list_update_view: "f v = f (xs ! i) \<Longrightarrow> map f (xs[i := v]) = map f xs"
  by (cases "i < length xs") (simp_all add: map_update list_update_beyond list_update_same_conv)

lemma kick_view [simp]: "map (\<lambda>k. (c_curthread k, c_isidle k)) (kick c cs) = map (\<lambda>k. (c_curthread k, c_isidle k)) cs"
  "length (kick c cs) = length cs"
  by (simp_all add: kick_def list_update_view)

lemma kick_sel [simp]: "d < length cs \<Longrightarrow> c_curthread (kick c cs ! d) = c_curthread (cs ! d)"
  "d < length cs \<Longrightarrow> c_isidle (kick c cs ! d) = c_isidle (cs ! d)"
  by (simp_all add: kick_def list_update_nth_if)

lemma make_runnable_spec:
  assumes lists: "lists_inv L (dom (thr s)) (tls s)" and t: "thr s t = Some x" "t_cpu x = Some c" "off_lists L t"
    and c: "c < length (allcpus s)" "L (runq c) = Some qs"
  shows "\<exists>l'. thread_make_runnable t s = Inr (s\<lparr>tls := l', allcpus := kick c (allcpus s)\<rparr>)
    \<and> lists_inv (L(runq c \<mapsto> qs @ [t])) (dom (thr s)) l'"
proof -
  obtain l' where "threadlist_addtail (runq c) t (tls s) = Inr l'" "lists_inv (L(runq c \<mapsto> qs @ [t])) (dom (thr s)) l'"
    using tlists.enq [OF lists c(2) _ t(3)] t(1) by blast
  moreover from this have "thread_make_runnable t s = Inr (s\<lparr>tls := l', allcpus := kick c (allcpus s)\<rparr>)"
    using t(1,2) c(1) by (simp add: thread_make_runnable_def nonnull_def with_tls_def ipi_send_def set_cpu_def kick_def IPI_UNIDLE_def)
  ultimately show ?thesis by blast
qed

text \<open>The list the current thread goes to when it stops running.\<close>

definition leaves_to :: "nat \<Rightarrow> threadstate \<Rightarrow> nat option \<Rightarrow> thread \<Rightarrow> nat \<Rightarrow> bool" where
  "leaves_to me newstate wc x l \<longleftrightarrow> newstate = S_READY \<and> l = runq me
     \<or> newstate = S_SLEEP \<and> (\<exists>w. wc = Some w \<and> l = wchanq w)
     \<or> newstate = S_ZOMBIE \<and> l = zombq me \<and> t_cwd x = 0 \<and> t_addrspace x = 0"

lemma switch_out_spec:
  assumes ok: "sys_ok X L s" and me: "me < length (allcpus s)" "\<not> c_isidle (allcpus s ! me)"
    and t: "c_curthread (allcpus s ! me) = Some t" "thr s t = Some x"
    and l: "leaves_to me newstate wc x l" "L l = Some qs" "newstate = S_READY \<longrightarrow> qs \<noteq> []"
  shows "\<exists>s' n. switch_out me newstate wc s = Inr (True, s') \<and> sys_ok X (L(l \<mapsto> qs @ [t])) s'
    \<and> allcpus s' = (allcpus s)[me := (allcpus s ! me)\<lparr>c_isidle := True\<rparr>]
    \<and> thr s' = (thr s)(t \<mapsto> x\<lparr>t_wchan_name := n, t_state := newstate\<rparr>) \<and> wchans s' = wchans s \<and> tvm s' = tvm s"
proof -
  note D = sys_okD [OF ok]
  obtain cur: "curthread me s = Inr t" "t_cpu x = Some me" "off_lists L t"
    using current_thread [OF ok me(1)] t me(2) by (metis option.inject)
  have chk: "thread_checkstack (t_stack x) s = Inr ()"
    using D(3) t(2) by (intro stack_ok_check) (auto simp: mem_ok_def intro: ranI)
  have dom: "insert t (dom (thr s)) = dom (thr s)" using t(2) by auto
  obtain l' where l': "threadlist_addtail l t (tls s) = Inr l'" "lists_inv (L(l \<mapsto> qs @ [t])) (dom (thr s)) l'"
    using tlists.enq [OF D(1) l(2) _ cur(3)] t(2) by blast
  have empty: "threadlist_isempty l (tls s) \<longleftrightarrow> qs = []" by (rule list_empty_iff [OF D(1) l(2)])
  define n where "n = (case newstate of S_SLEEP \<Rightarrow> wchans s (the wc) | S_ZOMBIE \<Rightarrow> Some ''ZOMBIE'' | _ \<Rightarrow> t_wchan_name x)"
  let ?x = "x\<lparr>t_wchan_name := n, t_state := newstate\<rparr>" and ?k = "(allcpus s ! me)\<lparr>c_isidle := True\<rparr>"
  let ?s = "s\<lparr>tls := l', thr := (thr s)(t \<mapsto> ?x), allcpus := (allcpus s)[me := ?k]\<rparr>"
  have "switch_out me newstate wc s = Inr (True, ?s)"
  proof -
    consider "newstate = S_READY" "l = runq me" | w nm where "newstate = S_SLEEP" "wc = Some w" "l = wchanq w" "wchans s w = Some nm"
      | "newstate = S_ZOMBIE" "l = zombq me"
      using l queue_exists(3) [OF ok] by (fastforce simp: leaves_to_def)
    then show ?thesis
    proof cases
      case 1
      have "s\<lparr>tls := l', thr := (thr s)(t \<mapsto> x\<lparr>t_state := newstate\<rparr>), allcpus := (allcpus s)[me := ?k]\<rparr> = ?s"
        using 1 by (simp add: n_def)
      then show ?thesis using 1 me t cur chk empty l(3) l'(1) dom
        by (simp add: switch_out_def thread_make_runnable_def nonnull_def with_tls_def set_thread_def set_cpu_def n_def)
    qed (use me t cur chk empty l'(1) in \<open>simp_all add: switch_out_def nonnull_def with_tls_def set_thread_def set_cpu_def n_def\<close>)
  qed
  moreover have "place_ok l ?x" using l(1) cur(2) by (auto simp: leaves_to_def)
  from core_put [OF D(2) me(1) t(1) me(2) l(2) t(2) this]
  have "sched_core X (L(l \<mapsto> qs @ [t])) ((allcpus s)[me := ?k]) ((thr s)(t \<mapsto> ?x)) (dom (wchans s))" by simp
  then have "sys_ok X (L(l \<mapsto> qs @ [t])) ?s"
    using l'(2) mem_ok_update [OF D(3) t(2), of ?x] by (intro sys_okI) (simp_all add: dom)
  ultimately show ?thesis by (intro exI [of _ ?s] exI [of _ n]) simp
qed

end
