(* ===== verification/SchedOps.thy ===== *)
theory SchedOps
  imports Sched
begin

text \<open>
  The operations that move threads between lists: yielding, sleeping and exiting, waking one or
  all sleepers of a wait channel, and migration. Each is shown to return and to have its effect
  on the sequences the lists hold.
\<close>

section \<open>Yielding, sleeping, exiting\<close>

text \<open>A CPU with nothing else to run idles after its thread stopped; otherwise the next one runs.\<close>

lemma thread_switch_spec:
  assumes ok: "sys_ok X L s" and me: "me < length (allcpus s)" "\<not> c_isidle (allcpus s ! me)"
    and t: "c_curthread (allcpus s ! me) = Some t" "thr s t = Some x"
    and l: "leaves_to me newstate wc x l" "L l = Some qs" "newstate = S_READY \<longrightarrow> qs \<noteq> []"
  defines "L1 \<equiv> L(l \<mapsto> qs @ [t])"
  shows "(L1 (runq me) = Some [] \<longrightarrow> (\<exists>s'. thread_switch me newstate wc s = Inr s' \<and> sys_ok X L1 s' \<and> c_isidle (allcpus s' ! me)
      \<and> c_curthread (allcpus s' ! me) = Some t \<and> other_cpus me s s' \<and> wchans s' = wchans s \<and> dom (thr s') = dom (thr s)))
    \<and> (\<forall>u us zs. L1 (runq me) = Some (u # us) \<longrightarrow> L1 (zombq me) = Some zs \<longrightarrow>
      (\<exists>s'. thread_switch me newstate wc s = Inr s' \<and> sys_ok X (L1(runq me \<mapsto> us, zombq me \<mapsto> [])) s'
        \<and> c_curthread (allcpus s' ! me) = Some u \<and> \<not> c_isidle (allcpus s' ! me) \<and> other_cpus me s s'
        \<and> wchans s' = wchans s \<and> dom (thr s') = dom (thr s) - set zs
        \<and> (\<forall>y. thr s u = Some y \<and> t_addrspace y \<noteq> 0 \<longrightarrow> c_tlb (allcpus s' ! me) = as_activate (c_tlb (allcpus s ! me)))))"
proof -
  obtain s1 n where s1: "switch_out me newstate wc s = Inr (True, s1)" "sys_ok X L1 s1"
      "allcpus s1 = (allcpus s)[me := (allcpus s ! me)\<lparr>c_isidle := True\<rparr>]"
      "thr s1 = (thr s)(t \<mapsto> x\<lparr>t_wchan_name := n, t_state := newstate\<rparr>)" "wchans s1 = wchans s" "tvm s1 = tvm s"
    using switch_out_spec [OF ok me t l] unfolding L1_def by blast
  have me1: "me < length (allcpus s1)" "c_isidle (allcpus s1 ! me)" using s1(3) me(1) by simp_all
  have dom: "dom (thr s1) = dom (thr s)" using s1(4) t(2) by auto
  have oc: "other_cpus me s s1" using s1(3) by (simp add: other_cpus_def)
  show ?thesis
  proof (intro conjI impI allI)
    assume e: "L1 (runq me) = Some []"
    have "switch_next me s1 = Inr (False, s1)"
      using tlists.deq_empty [OF sys_okD(1) [OF s1(2)] e] by (simp add: switch_next_def)
    then have "thread_switch me newstate wc s = Inr s1" using s1(1) by (simp add: thread_switch_def)
    then show "\<exists>s'. thread_switch me newstate wc s = Inr s' \<and> sys_ok X L1 s' \<and> c_isidle (allcpus s' ! me)
      \<and> c_curthread (allcpus s' ! me) = Some t \<and> other_cpus me s s' \<and> wchans s' = wchans s \<and> dom (thr s') = dom (thr s)"
      using s1 me1 me(1) t(1) dom oc by auto
  next
    fix u us zs
    assume e: "L1 (runq me) = Some (u # us)" "L1 (zombq me) = Some zs"
    obtain y where y: "thr s1 u = Some y" using listed_thread [OF s1(2) e(1), of u] by auto
    obtain s' where s': "switch_next me s1 = Inr (True, s')" "sys_ok X (L1(runq me \<mapsto> us, zombq me \<mapsto> [])) s'"
        "c_curthread (allcpus s' ! me) = Some u" "\<not> c_isidle (allcpus s' ! me)" "other_cpus me s1 s'"
        "thr s' = (thr s1)(u \<mapsto> running y) |` (- set zs)" "wchans s' = wchans s1"
        "t_addrspace y \<noteq> 0 \<longrightarrow> c_tlb (allcpus s' ! me) = as_activate (c_tlb (allcpus s1 ! me))"
      using switch_next_spec [OF s1(2) me1 e y] by blast
    have "dom (thr s') = dom (thr s) - set zs" using s'(6) dom y by auto
    moreover have "thread_switch me newstate wc s = Inr s'" using s1(1) s'(1) by (simp add: thread_switch_def)
    moreover have "other_cpus me s s'" using oc s'(5) by (simp add: other_cpus_def)
    moreover have "c_tlb (allcpus s' ! me) = as_activate (c_tlb (allcpus s ! me))" if "thr s u = Some z" "t_addrspace z \<noteq> 0" for z
    proof -
      have "t_addrspace y = t_addrspace z" using y s1(4) t(2) that(1) by (auto split: if_splits)
      then show ?thesis using s'(8) that(2) s1(3) me(1) by simp
    qed
    ultimately show "\<exists>s'. thread_switch me newstate wc s = Inr s' \<and> sys_ok X (L1(runq me \<mapsto> us, zombq me \<mapsto> [])) s'
        \<and> c_curthread (allcpus s' ! me) = Some u \<and> \<not> c_isidle (allcpus s' ! me) \<and> other_cpus me s s'
        \<and> wchans s' = wchans s \<and> dom (thr s') = dom (thr s) - set zs
        \<and> (\<forall>y. thr s u = Some y \<and> t_addrspace y \<noteq> 0 \<longrightarrow> c_tlb (allcpus s' ! me) = as_activate (c_tlb (allcpus s ! me)))"
      using s'(2,3,4,7) s1(5) by (intro exI [of _ s'] conjI) auto
  qed
qed

text \<open>With its run queue empty, or idle, a CPU that yields goes on as it is.\<close>

lemma yield_alone:
  assumes ok: "sys_ok X L s" and me: "me < length (allcpus s)" "c_isidle (allcpus s ! me) \<or> L (runq me) = Some []"
  shows "thread_yield me s = Inr s"
proof -
  obtain t x where t: "curthread me s = Inr t" "thr s t = Some x" by (rule current_thread [OF ok me(1)])
  have chk: "thread_checkstack (t_stack x) s = Inr ()"
    using sys_okD(3) [OF ok] t(2) by (intro stack_ok_check) (auto simp: mem_ok_def intro: ranI)
  show ?thesis
    using me t chk list_empty_iff [OF sys_okD(1) [OF ok], of "runq me" "[]"]
    by (auto simp: thread_yield_def thread_switch_def switch_out_def)
qed

lemma yield_rotates:
  assumes ok: "sys_ok X L s" and me: "me < length (allcpus s)" "\<not> c_isidle (allcpus s ! me)"
    and t: "c_curthread (allcpus s ! me) = Some t" and l: "L (runq me) = Some (u # us)" "L (zombq me) = Some zs"
  shows "\<exists>s'. thread_yield me s = Inr s' \<and> sys_ok X (L(runq me \<mapsto> us @ [t], zombq me \<mapsto> [])) s'
    \<and> c_curthread (allcpus s' ! me) = Some u \<and> \<not> c_isidle (allcpus s' ! me) \<and> other_cpus me s s'
    \<and> wchans s' = wchans s \<and> dom (thr s') = dom (thr s) - set zs"
proof -
  obtain x where x: "thr s t = Some x" using t by (auto intro: current_thread [OF ok me(1)])
  have "leaves_to me S_READY None x (runq me)" by (simp add: leaves_to_def)
  from thread_switch_spec [OF ok me t x this l(1)] l(2) show ?thesis
    by (simp add: thread_yield_def) blast
qed

section \<open>Waking\<close>

text \<open>The first thread of a wait channel, or of a private list, goes last on the run queue of its CPU.\<close>

lemma wake_spec:
  assumes ok: "sys_ok X L s" and l: "L l = Some (t # qs)" "l = wchanq w \<or> l = localq d"
    and x: "thr s t = Some x" "t_cpu x = Some c" and r: "L (runq c) = Some rs"
  shows "\<exists>l1 l2. threadlist_remhead l (tls s) = Inr (Some t, l1)
    \<and> thread_make_runnable t (s\<lparr>tls := l1\<rparr>) = Inr (s\<lparr>tls := l2, allcpus := kick c (allcpus s)\<rparr>)
    \<and> sys_ok X (L(l \<mapsto> qs, runq c \<mapsto> rs @ [t])) (s\<lparr>tls := l2, allcpus := kick c (allcpus s)\<rparr>)"
proof -
  note D = sys_okD [OF ok]
  have ne: "runq c \<noteq> l" using l(2) by auto
  have c: "c < length (allcpus s)" using sched_coreD(4) [OF D(2) x(1)] x(2) by (auto elim: thread_okE)
  obtain l1 where l1: "threadlist_remhead l (tls s) = Inr (Some t, l1)" "lists_inv (L(l \<mapsto> qs)) (dom (thr s)) l1"
    using tlists.deq_first [OF D(1) l(1)] by blast
  have "off_lists (L(l \<mapsto> qs)) t" by (rule tlists.deq_off [OF D(1) l(1)])
  then obtain l2 where l2: "thread_make_runnable t (s\<lparr>tls := l1\<rparr>) = Inr (s\<lparr>tls := l2, allcpus := kick c (allcpus s)\<rparr>)"
      "lists_inv (L(l \<mapsto> qs, runq c \<mapsto> rs @ [t])) (dom (thr s)) l2"
    using make_runnable_spec [of "L(l \<mapsto> qs)" "s\<lparr>tls := l1\<rparr>" t x c rs] l1(2) x c r ne by auto
  have "place_ok l x" using sched_coreD(2) [OF D(2) l(1) _ x(1)] by simp
  then have "place_ok (runq c) x" using l(2) x(2) by auto
  then have "sched_core X (L(l \<mapsto> qs, runq c \<mapsto> rs @ [t])) (allcpus s) ((thr s)(t \<mapsto> x)) (dom (wchans s))"
    using core_move [OF D(1,2), of l "[]" t qs "runq c" rs "[]" x x] l(1) r ne x(1) by simp
  then have "sched_core X (L(l \<mapsto> qs, runq c \<mapsto> rs @ [t])) (kick c (allcpus s)) (thr s) (dom (wchans s))"
    unfolding fun_upd_idem [of "thr s" t, OF x(1)] by (rule sched_core_cpus) simp
  then have "sys_ok X (L(l \<mapsto> qs, runq c \<mapsto> rs @ [t])) (s\<lparr>tls := l2, allcpus := kick c (allcpus s)\<rparr>)"
    using l2(2) D(3) by (intro sys_okI) simp_all
  then show ?thesis using l1(1) l2(1) by blast
qed

lemma wakeone_spec:
  assumes ok: "sys_ok X L s" and l: "L (wchanq w) = Some (t # qs)" and x: "thr s t = Some x" "t_cpu x = Some c"
    and r: "L (runq c) = Some rs"
  shows "\<exists>l'. wchan_wakeone w s = Inr (s\<lparr>tls := l', allcpus := kick c (allcpus s)\<rparr>)
    \<and> sys_ok X (L(wchanq w \<mapsto> qs, runq c \<mapsto> rs @ [t])) (s\<lparr>tls := l', allcpus := kick c (allcpus s)\<rparr>)"
proof -
  obtain n where "wchans s w = Some n" using queue_exists(3) [OF ok, of w] l by auto
  then show ?thesis using wake_spec [OF ok l _ x r] by (auto simp: wchan_wakeone_def)
qed

lemma wakeone_empty:
  assumes ok: "sys_ok X L s" and l: "L (wchanq w) = Some []"
  shows "wchan_wakeone w s = Inr s"
proof -
  obtain n where "wchans s w = Some n" using queue_exists(3) [OF ok, of w] l by auto
  then show ?thesis using tlists.deq_empty [OF sys_okD(1) [OF ok] l] by (simp add: wchan_wakeone_def)
qed

text \<open>Putting a sequence of threads on the run queues of their CPUs.\<close>

definition home :: "(nat \<rightharpoonup> thread) \<Rightarrow> nat \<Rightarrow> nat" where
  "home th t = the (t_cpu (the (th t)))"

definition enqueue :: "(nat \<rightharpoonup> thread) \<Rightarrow> nat list \<Rightarrow> (nat \<rightharpoonup> nat list) \<Rightarrow> nat \<rightharpoonup> nat list" where
  "enqueue th qs = fold (\<lambda>t L. L(runq (home th t) \<mapsto> the (L (runq (home th t))) @ [t])) qs"

lemma enqueue_simps [simp]: "enqueue th [] L = L"
  "enqueue th (t # qs) L = enqueue th qs (L(runq (home th t) \<mapsto> the (L (runq (home th t))) @ [t]))"
  by (simp_all add: enqueue_def)

lemma enqueue_runq: "L (runq c) = Some rs \<Longrightarrow> enqueue th qs L (runq c) = Some (rs @ filter (\<lambda>t. home th t = c) qs)"
  by (induction qs arbitrary: L rs) auto

lemma enqueue_other: "(\<And>c. l \<noteq> runq c) \<Longrightarrow> enqueue th qs L l = L l"
  by (induction qs arbitrary: L) auto

lemma enqueue_upd: "(\<And>c. l \<noteq> runq c) \<Longrightarrow> enqueue th qs (L(l := v)) = (enqueue th qs L)(l := v)"
proof (induction qs arbitrary: L)
  case (Cons t qs)
  let ?r = "runq (home th t)"
  have "l \<noteq> ?r" using Cons.prems by blast
  then have "(L(l := v))(?r \<mapsto> the ((L(l := v)) ?r) @ [t]) = (L(?r \<mapsto> the (L ?r) @ [t]))(l := v)" by (auto simp: fun_eq_iff)
  then show ?case by (simp only: enqueue_simps Cons.IH [OF Cons.prems])
qed simp

definition same_cpus :: "cpu list \<Rightarrow> cpu list \<Rightarrow> bool" where
  "same_cpus cs cs' \<longleftrightarrow> map (\<lambda>k. (c_curthread k, c_isidle k)) cs' = map (\<lambda>k. (c_curthread k, c_isidle k)) cs"

lemma same_cpus_kick [simp]: "same_cpus cs (kick c cs)" "same_cpus cs cs"
  "same_cpus (kick c cs) cs' \<longleftrightarrow> same_cpus cs cs'"
  by (simp_all add: same_cpus_def)

lemma run_all_spec:
  assumes "sys_ok X L s" "L (localq d) = Some qs" "length qs < fuel"
  shows "\<exists>l' cs'. run_all fuel (localq d) s = Inr (s\<lparr>tls := l', allcpus := cs'\<rparr>) \<and> same_cpus (allcpus s) cs'
    \<and> sys_ok X (enqueue (thr s) qs (L(localq d \<mapsto> []))) (s\<lparr>tls := l', allcpus := cs'\<rparr>)"
  using assms
proof (induction qs arbitrary: fuel L s)
  case Nil
  obtain g where g: "fuel = Suc g" using Nil.prems(3) by (cases fuel) auto
  have "threadlist_remhead (localq d) (tls s) = Inr (None, tls s)"
    by (rule tlists.deq_empty [OF sys_okD(1) [OF Nil.prems(1)] Nil.prems(2)])
  moreover have "L(localq d \<mapsto> []) = L" using Nil.prems(2) by (simp add: fun_upd_idem_iff)
  ultimately show ?case using Nil.prems(1) by (intro exI [of _ "tls s"] exI [of _ "allcpus s"]) (simp add: g)
next
  case (Cons t qs)
  obtain g where g: "fuel = Suc g" "length qs < g" using Cons.prems(3) by (cases fuel) auto
  obtain x where x: "thr s t = Some x" using listed_thread [OF Cons.prems(1,2), of t] by auto
  obtain c where c: "t_cpu x = Some c" "c < length (allcpus s)"
    using sched_coreD(4) [OF sys_okD(2) [OF Cons.prems(1)] x] by (rule thread_okE)
  obtain rs where rs: "L (runq c) = Some rs" using queue_exists(1) [OF Cons.prems(1) c(2)] by blast
  obtain l1 l2 where w: "threadlist_remhead (localq d) (tls s) = Inr (Some t, l1)"
      "thread_make_runnable t (s\<lparr>tls := l1\<rparr>) = Inr (s\<lparr>tls := l2, allcpus := kick c (allcpus s)\<rparr>)"
      "sys_ok X (L(localq d \<mapsto> qs, runq c \<mapsto> rs @ [t])) (s\<lparr>tls := l2, allcpus := kick c (allcpus s)\<rparr>)"
    using wake_spec [OF Cons.prems(1,2) _ x c(1) rs] by blast
  have h: "home (thr s) t = c" using x c by (simp add: home_def)
  let ?L = "L(localq d \<mapsto> qs, runq c \<mapsto> rs @ [t])" and ?s = "s\<lparr>tls := l2, allcpus := kick c (allcpus s)\<rparr>"
  have "?L(localq d \<mapsto> []) = (L(localq d \<mapsto> []))(runq c \<mapsto> the ((L(localq d \<mapsto> [])) (runq c)) @ [t])"
    using rs by (auto simp: fun_eq_iff)
  then have e: "enqueue (thr s) qs (?L(localq d \<mapsto> [])) = enqueue (thr s) (t # qs) (L(localq d \<mapsto> []))"
    by (simp only: enqueue_simps h)
  have "?L (localq d) = Some qs" by simp
  then obtain l' cs' where r: "run_all g (localq d) ?s = Inr (?s\<lparr>tls := l', allcpus := cs'\<rparr>)" "same_cpus (allcpus ?s) cs'"
      "sys_ok X (enqueue (thr ?s) qs (?L(localq d \<mapsto> []))) (?s\<lparr>tls := l', allcpus := cs'\<rparr>)"
    using Cons.IH [OF w(3) _ g(2)] by blast
  have "run_all fuel (localq d) s = run_all g (localq d) ?s" using w(1,2) by (simp add: g(1))
  moreover have "sys_ok X (enqueue (thr s) (t # qs) (L(localq d \<mapsto> []))) (s\<lparr>tls := l', allcpus := cs'\<rparr>)"
    using r(3) unfolding e [symmetric] by simp
  moreover have "run_all g (localq d) ?s = Inr (s\<lparr>tls := l', allcpus := cs'\<rparr>)" "same_cpus (allcpus s) cs'"
    using r(1,2) by simp_all
  ultimately show ?case by metis
qed

lemma move_all_spec:
  assumes "lists_inv L (dom th) q" "sched_core X L cs th W" "L from = Some qs" "L to = Some rs" "to \<noteq> from"
    "\<forall>t \<in> set qs. \<forall>x. th t = Some x \<longrightarrow> place_ok to x" "length qs < fuel"
  shows "\<exists>q'. move_all fuel from to q = Inr q' \<and> lists_inv (L(from \<mapsto> [], to \<mapsto> rs @ qs)) (dom th) q'
    \<and> sched_core X (L(from \<mapsto> [], to \<mapsto> rs @ qs)) cs th W"
  using assms
proof (induction qs arbitrary: fuel L rs q)
  case Nil
  obtain g where g: "fuel = Suc g" using Nil.prems(7) by (cases fuel) auto
  have e: "L(from \<mapsto> [], to \<mapsto> rs @ []) = L" using Nil.prems(3-5) by (auto simp: fun_eq_iff)
  have "move_all fuel from to q = Inr q" using tlists.deq_empty [OF Nil.prems(1,3)] by (simp add: g)
  then show ?case unfolding e using Nil.prems(1,2) by blast
next
  case (Cons t qs)
  obtain g where g: "fuel = Suc g" "length qs < g" using Cons.prems(7) by (cases fuel) auto
  let ?L = "L(from \<mapsto> qs, to \<mapsto> rs @ [t])"
  obtain x where x: "th t = Some x" using tlists.member [OF Cons.prems(1,3)] by auto
  obtain q1 where q1: "threadlist_remhead from q = Inr (Some t, q1)" "lists_inv (L(from \<mapsto> qs)) (dom th) q1"
    using tlists.deq_first [OF Cons.prems(1,3)] by blast
  obtain q2 where q2: "threadlist_addtail to t q1 = Inr q2" "lists_inv ?L (dom th) q2"
    using tlists.enq [OF q1(2), of to rs t] tlists.deq_off [OF Cons.prems(1,3)] Cons.prems(4,5) x by auto
  have "sched_core X ?L cs (th(t \<mapsto> x)) W"
    using core_move [OF Cons.prems(1,2), of "from" "[]" t qs to rs "[]" x x] Cons.prems(3,4,5,6) x by simp
  then have core: "sched_core X ?L cs th W" unfolding fun_upd_idem [of th t, OF x] .
  have "\<exists>q'. move_all g from to q2 = Inr q' \<and> lists_inv (?L(from \<mapsto> [], to \<mapsto> (rs @ [t]) @ qs)) (dom th) q'
    \<and> sched_core X (?L(from \<mapsto> [], to \<mapsto> (rs @ [t]) @ qs)) cs th W"
    by (rule Cons.IH [OF q2(2) core]) (use Cons.prems(5,6) g(2) in auto)
  moreover have "?L(from \<mapsto> [], to \<mapsto> (rs @ [t]) @ qs) = L(from \<mapsto> [], to \<mapsto> rs @ t # qs)"
    using Cons.prems(5) by (auto simp: fun_eq_iff)
  moreover have "move_all fuel from to q = move_all g from to q2" using q1(1) q2(1) by (simp add: g(1))
  ultimately show ?case by metis
qed

text \<open>A private list on the stack of a CPU is set up, and given up when it is empty.\<close>

lemma local_init:
  assumes ok: "sys_ok X L s" and me: "me \<notin> X"
  shows "sys_ok (insert me X) (L(localq me \<mapsto> [])) (s\<lparr>tls := threadlist_init (localq me) (tls s)\<rparr>)" "L (localq me) = None"
proof -
  note D = sys_okD [OF ok]
  show n: "L (localq me) = None" using queue_exists(4) [OF ok, of me] me by simp
  have "sched_core (insert me X) (L(localq me \<mapsto> [])) (allcpus s) (thr s) (dom (wchans s))"
    by (rule core_lists [OF D(2)]) (use n sched_coreD(1) [OF D(2)] in \<open>auto simp: lists_of_def\<close>)
  then show "sys_ok (insert me X) (L(localq me \<mapsto> [])) (s\<lparr>tls := threadlist_init (localq me) (tls s)\<rparr>)"
    using threadlist_init_inv [OF D(1) n] D(3) by (intro sys_okI) simp_all
qed

lemma local_done:
  assumes ok: "sys_ok (insert me X) L s" and me: "me \<notin> X" "L (localq me) = Some []"
  shows "threadlist_cleanup (localq me) (tls s) = Inr ()" "sys_ok X (L(localq me := None)) s"
proof -
  note D = sys_okD [OF ok]
  show "threadlist_cleanup (localq me) (tls s) = Inr ()" by (rule threadlist_cleanup_inv(1) [OF D(1) me(2)])
  have "dom (L(localq me := None)) = lists_of X (length (allcpus s)) (dom (wchans s))"
    using sched_coreD(1) [OF D(2)] me by (auto simp: lists_of_def)
  then have "sched_core X (L(localq me := None)) (allcpus s) (thr s) (dom (wchans s))"
    using me(2) by (intro core_lists [OF D(2)]) auto
  then show "sys_ok X (L(localq me := None)) s"
    using threadlist_cleanup_inv(2) [OF D(1) me(2)] D(3) by (intro sys_okI)
qed

lemma wakeall_spec:
  assumes ok: "sys_ok X L s" and me: "me \<notin> X" and l: "L (wchanq w) = Some qs"
  shows "\<exists>l' cs'. wchan_wakeall me w s = Inr (s\<lparr>tls := l', allcpus := cs'\<rparr>) \<and> same_cpus (allcpus s) cs'
    \<and> sys_ok X (enqueue (thr s) qs (L(wchanq w \<mapsto> []))) (s\<lparr>tls := l', allcpus := cs'\<rparr>)"
proof -
  let ?s = "s\<lparr>tls := threadlist_init (localq me) (tls s)\<rparr>" and ?L = "L(localq me \<mapsto> [])"
  let ?n = "unat (tl_count (tls ?s) (wchanq w)) + 1"
  obtain n where n: "wchans s w = Some n" using queue_exists(3) [OF ok, of w] l by auto
  note ok1 = local_init(1) [OF ok me] and none = local_init(2) [OF ok me]
  note D = sys_okD [OF ok1]
  have l1: "?L (wchanq w) = Some qs" "?L (localq me) = Some []" using l by simp_all
  have len: "length qs < ?n" using list_count [OF D(1) l1(1)] by simp
  have "\<forall>t \<in> set qs. \<forall>x. thr ?s t = Some x \<longrightarrow> place_ok (localq me) x"
    using sched_coreD(2) [OF D(2) l1(1)] by auto
  from move_all_spec [OF D(1,2) l1 _ this len]
  obtain q where q: "move_all ?n (wchanq w) (localq me) (tls ?s) = Inr q"
      "lists_inv (?L(wchanq w \<mapsto> [], localq me \<mapsto> [] @ qs)) (dom (thr ?s)) q"
      "sched_core (insert me X) (?L(wchanq w \<mapsto> [], localq me \<mapsto> [] @ qs)) (allcpus ?s) (thr ?s) (dom (wchans ?s))"
    by (metis queue_names_distinct(16))
  let ?L2 = "?L(wchanq w \<mapsto> [], localq me \<mapsto> qs)" and ?s2 = "s\<lparr>tls := q\<rparr>"
  have ok2: "sys_ok (insert me X) ?L2 ?s2" using q(2,3) sys_okD(3) [OF ok] by (intro sys_okI) simp_all
  have "?L2 (localq me) = Some qs" by simp
  from run_all_spec [OF ok2 this len]
  obtain l' cs' where r: "run_all ?n (localq me) ?s2 = Inr (?s2\<lparr>tls := l', allcpus := cs'\<rparr>)" "same_cpus (allcpus ?s2) cs'"
      "sys_ok (insert me X) (enqueue (thr ?s2) qs (?L2(localq me \<mapsto> []))) (?s2\<lparr>tls := l', allcpus := cs'\<rparr>)"
    by blast
  have "?L2(localq me \<mapsto> []) = (L(wchanq w \<mapsto> []))(localq me \<mapsto> [])" by (auto simp: fun_eq_iff)
  then have "enqueue (thr ?s2) qs (?L2(localq me \<mapsto> [])) = (enqueue (thr s) qs (L(wchanq w \<mapsto> [])))(localq me \<mapsto> [])"
    using enqueue_upd [of "localq me" "thr s" qs "L(wchanq w \<mapsto> [])" "Some []"] by simp
  then have r3: "sys_ok (insert me X) ((enqueue (thr s) qs (L(wchanq w \<mapsto> [])))(localq me \<mapsto> [])) (s\<lparr>tls := l', allcpus := cs'\<rparr>)"
    using r(3) by simp
  have "((enqueue (thr s) qs (L(wchanq w \<mapsto> [])))(localq me \<mapsto> [])) (localq me) = Some []" by simp
  note fin = local_done [OF r3 me this]
  have "(enqueue (thr s) qs (L(wchanq w \<mapsto> [])))(localq me := None) = enqueue (thr s) qs (L(wchanq w \<mapsto> []))"
    using none by (intro fun_upd_idem) (simp add: enqueue_other)
  then have "sys_ok X (enqueue (thr s) qs (L(wchanq w \<mapsto> []))) (s\<lparr>tls := l', allcpus := cs'\<rparr>)" using fin(2) by (simp only: fun_upd_upd)
  moreover have "wchan_wakeall me w s = Inr (s\<lparr>tls := l', allcpus := cs'\<rparr>)"
    using n q(1) r(1) fin(1) by (simp add: wchan_wakeall_def with_tls_def Let_def del: move_all.simps run_all.simps)
  moreover have "same_cpus (allcpus s) cs'" using r(2) by simp
  ultimately show ?thesis by blast
qed

end
