(* ===== verification/Migrate.thy ===== *)
theory Migrate
  imports SchedOps
begin

text \<open>
  Migration (\<open>thread_consider_migration\<close> of \<open>kern/thread/thread.c\<close>): a CPU with more than its
  share of the runnable threads gives the last ones of its run queue to CPUs with fewer. No thread
  is lost or duplicated, the current thread of the CPU stays, and nobody gets more than a share.
\<close>

text \<open>The victims are taken from the end of the run queue, and keep their order.\<close>

lemma take_victims_spec:
  assumes "lists_inv L (dom th) q" "sched_core X L cs th W" "L (runq me) = Some (as @ bs)" "L (localq me) = Some vs" "length bs = n"
  shows "\<exists>q'. take_victims n me (localq me) q = Inr q' \<and> lists_inv (L(runq me \<mapsto> as, localq me \<mapsto> bs @ vs)) (dom th) q'
    \<and> sched_core X (L(runq me \<mapsto> as, localq me \<mapsto> bs @ vs)) cs th W"
  using assms
proof (induction n arbitrary: L q bs vs)
  case 0
  have e: "L(runq me \<mapsto> as, localq me \<mapsto> bs @ vs) = L" using 0 by (auto simp: fun_eq_iff)
  show ?case unfolding e using 0(1,2) by simp
next
  case (Suc n)
  obtain bs' t where bs: "bs = bs' @ [t]" using Suc.prems(5) by (cases bs rule: rev_cases) auto
  have l: "L (runq me) = Some ((as @ bs') @ [t])" using Suc.prems(3) bs by simp
  let ?L = "L(runq me \<mapsto> as @ bs', localq me \<mapsto> t # vs)"
  obtain q1 where q1: "threadlist_remtail (runq me) q = Inr (Some t, q1)" "lists_inv (L(runq me \<mapsto> as @ bs')) (dom th) q1"
    using remtail_snoc [OF Suc.prems(1) l] by blast
  obtain x where x: "th t = Some x" using tlists.member [OF Suc.prems(1) l] by auto
  have "off_lists (L(runq me \<mapsto> as @ bs')) t"
    using off_lists_remove [OF Suc.prems(1), of "runq me" "as @ bs'" t "[]" t] l by simp
  then obtain q2 where q2: "threadlist_addhead (localq me) t q1 = Inr q2" "lists_inv ?L (dom th) q2"
    using insert_spec [OF q1(2), of "localq me" "[]" vs t] x Suc.prems(4) by (auto simp: threadlist_addhead_def)
  have "place_ok (localq me) x" using sched_coreD(2) [OF Suc.prems(2) l _ x] by simp
  then have "sched_core X ?L cs (th(t \<mapsto> x)) W"
    using core_move [OF Suc.prems(1,2), of "runq me" "as @ bs'" t "[]" "localq me" "[]" vs x x] l Suc.prems(4) x by simp
  then have core: "sched_core X ?L cs th W" unfolding fun_upd_idem [of th t, OF x] .
  have "\<exists>q'. take_victims n me (localq me) q2 = Inr q' \<and> lists_inv (?L(runq me \<mapsto> as, localq me \<mapsto> bs' @ t # vs)) (dom th) q'
    \<and> sched_core X (?L(runq me \<mapsto> as, localq me \<mapsto> bs' @ t # vs)) cs th W"
    by (rule Suc.IH [OF q2(2) core]) (use Suc.prems(5) bs in simp_all)
  moreover have "?L(runq me \<mapsto> as, localq me \<mapsto> bs' @ t # vs) = L(runq me \<mapsto> as, localq me \<mapsto> bs @ vs)"
    by (auto simp: fun_eq_iff bs)
  moreover have "take_victims (Suc n) me (localq me) q = take_victims n me (localq me) q2"
    using q1(1) q2(1) by (simp add: nonnull_def)
  ultimately show ?case by metis
qed

text \<open>Reordering one list changes nothing else.\<close>

lemma core_permute:
  assumes core: "sched_core X L cs th W" and l: "L l = Some qs" "set rs = set qs"
  shows "sched_core X (L(l \<mapsto> rs)) cs th W"
proof -
  note D = sched_coreD [OF core]
  have off: "off_lists (L(l \<mapsto> rs)) u = off_lists L u" for u
    using l unfolding off_lists_def by (metis fun_upd_other fun_upd_same option.inject)
  have "place_ok k y" if "(L(l \<mapsto> rs)) k = Some ws" "u \<in> set ws" "th u = Some y" for k ws u y
    using that D(2) [of k ws u y] D(2) [OF l(1), of u y] l(2) by (auto split: if_splits)
  moreover have "dom (L(l \<mapsto> rs)) = dom L" using l(1) by auto
  ultimately show ?thesis using D(1,3,4) by (intro sched_coreI) (simp_all add: cpu_ok_def thread_ok_def off)
qed

text \<open>One victim goes to another CPU.\<close>

lemma send_one:
  assumes ok: "sys_ok X L s" and l: "L (localq me) = Some (t # vs)" "L (runq c) = Some rs" and c: "c < length (allcpus s)"
    and x: "thr s t = Some x" and cur: "\<forall>d < length (allcpus s). c_curthread (allcpus s ! d) \<noteq> Some t"
  defines "s' \<equiv> \<lambda>l'. s\<lparr>thr := (thr s)(t \<mapsto> x\<lparr>t_cpu := Some c\<rparr>), tls := l', allcpus := kick c (allcpus s)\<rparr>"
  shows "\<exists>l1 l2. threadlist_remhead (localq me) (tls s) = Inr (Some t, l1) \<and> threadlist_addtail (runq c) t l1 = Inr l2
    \<and> sys_ok X (L(localq me \<mapsto> vs, runq c \<mapsto> rs @ [t])) (s' l2)"
proof -
  note D = sys_okD [OF ok]
  let ?L = "L(localq me \<mapsto> vs, runq c \<mapsto> rs @ [t])" and ?x = "x\<lparr>t_cpu := Some c\<rparr>"
  obtain l1 where l1: "threadlist_remhead (localq me) (tls s) = Inr (Some t, l1)" "lists_inv (L(localq me \<mapsto> vs)) (dom (thr s)) l1"
    using tlists.deq_first [OF D(1) l(1)] by blast
  obtain l2 where l2: "threadlist_addtail (runq c) t l1 = Inr l2" "lists_inv ?L (dom (thr s)) l2"
    using tlists.enq [OF l1(2), of "runq c" rs t] tlists.deq_off [OF D(1) l(1)] l(2) x by auto
  have dom: "insert t (dom (thr s)) = dom (thr s)" using x by auto
  have "place_ok (runq c) ?x" using sched_coreD(2) [OF D(2) l(1) _ x] by simp
  then have "sched_core X ?L (allcpus s) ((thr s)(t \<mapsto> ?x)) (dom (wchans s))"
    using core_move [OF D(1,2), of "localq me" "[]" t vs "runq c" rs "[]" x ?x] l x c cur by simp
  then have "sched_core X ?L (kick c (allcpus s)) ((thr s)(t \<mapsto> ?x)) (dom (wchans s))" by (rule sched_core_cpus) simp
  then have "sys_ok X ?L (s' l2)"
    using l2(2) mem_ok_update [OF D(3) x, of ?x] unfolding s'_def by (intro sys_okI) (simp_all add: dom)
  then show ?thesis using l1(1) l2(1) by blast
qed

text \<open>The current thread is passed over: it goes to the end of the victims.\<close>

lemma skip_current:
  assumes ok: "sys_ok X L s" and l: "L (localq me) = Some (t # vs)"
  shows "\<exists>l1 l2. threadlist_remhead (localq me) (tls s) = Inr (Some t, l1) \<and> threadlist_addtail (localq me) t l1 = Inr l2
    \<and> sys_ok X (L(localq me \<mapsto> vs @ [t])) (s\<lparr>tls := l2\<rparr>)"
proof -
  note D = sys_okD [OF ok]
  let ?L = "L(localq me \<mapsto> vs @ [t])"
  obtain l1 where l1: "threadlist_remhead (localq me) (tls s) = Inr (Some t, l1)" "lists_inv (L(localq me \<mapsto> vs)) (dom (thr s)) l1"
    using tlists.deq_first [OF D(1) l] by blast
  obtain l2 where l2: "threadlist_addtail (localq me) t l1 = Inr l2" "lists_inv ?L (dom (thr s)) l2"
    using tlists.enq [OF l1(2), of "localq me" vs t] tlists.deq_off [OF D(1) l] tlists.member [OF D(1) l] by auto
  have "sched_core X ?L (allcpus s) (thr s) (dom (wchans s))" by (rule core_permute [OF D(2) l]) simp
  then have "sys_ok X ?L (s\<lparr>tls := l2\<rparr>)" using l2(2) D(3) by (intro sys_okI) simp_all
  then show ?thesis using l1(1) l2(1) by blast
qed

text \<open>What sending the threads \<open>ms\<close> to a CPU changes.\<close>

definition sent :: "nat \<Rightarrow> nat list \<Rightarrow> tsys \<Rightarrow> tsys \<Rightarrow> bool" where
  "sent c ms s s' \<longleftrightarrow> same_cpus (allcpus s) (allcpus s') \<and> wchans s' = wchans s
     \<and> (\<forall>t. thr s' t = (if t \<in> set ms then map_option (\<lambda>x. x\<lparr>t_cpu := Some c\<rparr>) (thr s t) else thr s t))"

lemma sent_tls [simp]: "sent c ms (s\<lparr>tls := l\<rparr>) s' \<longleftrightarrow> sent c ms s s'"
  by (simp add: sent_def)

lemma same_cpusD:
  assumes "same_cpus cs cs'"
  shows "length cs' = length cs" "d < length cs \<Longrightarrow> c_curthread (cs' ! d) = c_curthread (cs ! d)"
    "d < length cs \<Longrightarrow> c_isidle (cs' ! d) = c_isidle (cs ! d)"
proof -
  show n: "length cs' = length cs" using map_eq_imp_length_eq [OF assms [unfolded same_cpus_def]] .
  show "d < length cs \<Longrightarrow> c_curthread (cs' ! d) = c_curthread (cs ! d)" "d < length cs \<Longrightarrow> c_isidle (cs' ! d) = c_isidle (cs ! d)"
    using arg_cong [OF assms [unfolded same_cpus_def], of "\<lambda>xs. xs ! d"] n by simp_all
qed

lemma fill_cpu_spec:
  assumes "sys_ok X L s" "L (localq me) = Some vs" "L (runq c) = Some rs" "c \<noteq> me" "c < length (allcpus s)" "me < length (allcpus s)"
    "n \<le> length vs" "\<forall>t \<in> set vs. \<forall>x. thr s t = Some x \<longrightarrow> t_cpu x = Some me"
  shows "\<exists>k vs' ms s'. fill_cpu n me share (localq me) c s = Inr (k, s') \<and> sys_ok X (L(localq me \<mapsto> vs', runq c \<mapsto> rs @ ms)) s'
    \<and> k \<le> length vs' \<and> set vs' \<union> set ms = set vs \<and> length vs' + length ms = length vs
    \<and> (ms = [] \<or> length (rs @ ms) \<le> unat share) \<and> sent c ms s s'"
  using assms
proof (induction n arbitrary: L s vs rs)
  case 0
  have e: "L(localq me \<mapsto> vs, runq c \<mapsto> rs @ []) = L" using "0.prems"(2,3) by (auto simp: fun_eq_iff)
  have "fill_cpu 0 me share (localq me) c s = Inr (0, s)" "sent c [] s s" by (simp_all add: sent_def)
  moreover have "sys_ok X (L(localq me \<mapsto> vs, runq c \<mapsto> rs @ [])) s" unfolding e by (rule "0.prems"(1))
  moreover have "set vs \<union> set [] = set vs" "length vs + length [] = length vs" by simp_all
  ultimately show ?case by blast
next
  case (Suc n)
  note ok = Suc.prems(1)
  note D = sys_okD [OF ok]
  show ?case
  proof (cases "length rs < unat share")
    case False
    have e: "L(localq me \<mapsto> vs, runq c \<mapsto> rs @ []) = L" using Suc.prems(2,3) by (auto simp: fun_eq_iff)
    have "\<not> run_count c s < share" using False list_count [OF D(1) Suc.prems(3)] by (simp add: run_count_def word_less_nat_alt)
    then have "fill_cpu (Suc n) me share (localq me) c s = Inr (Suc n, s)" "sent c [] s s" by (simp_all add: sent_def)
    moreover have "sys_ok X (L(localq me \<mapsto> vs, runq c \<mapsto> rs @ [])) s" unfolding e by (rule ok)
    moreover have "set vs \<union> set [] = set vs" "length vs + length [] = length vs" by simp_all
    ultimately show ?thesis using Suc.prems(7) by blast
  next
    case True
    then have lt: "run_count c s < share" using list_count [OF D(1) Suc.prems(3)] by (simp add: run_count_def word_less_nat_alt)
    obtain t vs1 where vs: "vs = t # vs1" "n \<le> length vs1" using Suc.prems(7) by (cases vs) auto
    have l: "L (localq me) = Some (t # vs1)" using Suc.prems(2) vs by simp
    obtain cur where cur: "c_curthread (allcpus s ! me) = Some cur" "curthread me s = Inr cur" by (rule current_thread [OF ok Suc.prems(6)])
    obtain x where x: "thr s t = Some x" using listed_thread [OF ok l, of t] by auto
    show ?thesis
    proof (cases "t = cur")
      case True
      let ?L = "L(localq me \<mapsto> vs1 @ [t])"
      obtain l1 l2 where s1: "threadlist_remhead (localq me) (tls s) = Inr (Some t, l1)" "threadlist_addtail (localq me) t l1 = Inr l2"
          "sys_ok X ?L (s\<lparr>tls := l2\<rparr>)"
        using skip_current [OF ok l] by blast
      have f: "fill_cpu (Suc n) me share (localq me) c s = fill_cpu n me share (localq me) c (s\<lparr>tls := l2\<rparr>)"
        using lt s1(1,2) cur True by (simp add: curthread_def with_tls_def)
      have "\<exists>k vs' ms s'. fill_cpu n me share (localq me) c (s\<lparr>tls := l2\<rparr>) = Inr (k, s')
        \<and> sys_ok X (?L(localq me \<mapsto> vs', runq c \<mapsto> rs @ ms)) s' \<and> k \<le> length vs' \<and> set vs' \<union> set ms = set (vs1 @ [t])
        \<and> length vs' + length ms = length (vs1 @ [t]) \<and> (ms = [] \<or> length (rs @ ms) \<le> unat share) \<and> sent c ms (s\<lparr>tls := l2\<rparr>) s'"
        by (rule Suc.IH [OF s1(3)]) (use Suc.prems vs in auto)
      moreover have "?L(localq me \<mapsto> vs', runq c \<mapsto> rs @ ms) = L(localq me \<mapsto> vs', runq c \<mapsto> rs @ ms)" for vs' ms by simp
      ultimately show ?thesis unfolding f by (simp add: vs(1) del: fun_upd_apply)
    next
      case False
      have none: "\<forall>d < length (allcpus s). c_curthread (allcpus s ! d) \<noteq> Some t"
      proof (intro allI impI)
        fix d
        assume "d < length (allcpus s)"
        then show "c_curthread (allcpus s ! d) \<noteq> Some t"
          by (rule current_thread [OF ok]) (use x cur(1) False Suc.prems(8) vs(1) in auto)
      qed
      let ?x = "x\<lparr>t_cpu := Some c\<rparr>"
      obtain l1 l2 where s1: "threadlist_remhead (localq me) (tls s) = Inr (Some t, l1)" "threadlist_addtail (runq c) t l1 = Inr l2"
          "sys_ok X (L(localq me \<mapsto> vs1, runq c \<mapsto> rs @ [t])) (s\<lparr>thr := (thr s)(t \<mapsto> ?x), tls := l2, allcpus := kick c (allcpus s)\<rparr>)"
        using send_one [OF ok l Suc.prems(3,5) x none] by blast
      let ?s = "s\<lparr>thr := (thr s)(t \<mapsto> ?x), tls := l2, allcpus := kick c (allcpus s)\<rparr>" and ?L = "L(localq me \<mapsto> vs1, runq c \<mapsto> rs @ [t])"
      have f: "fill_cpu (Suc n) me share (localq me) c s = fill_cpu n me share (localq me) c ?s"
        using lt s1(1,2) cur False x Suc.prems(5)
        by (simp add: curthread_def nonnull_def with_tls_def set_thread_def ipi_send_def set_cpu_def kick_def IPI_UNIDLE_def)
      have "t \<notin> set vs1" using tlists.member [OF D(1) l] by simp
      then have "\<exists>k vs' ms s'. fill_cpu n me share (localq me) c ?s = Inr (k, s')
        \<and> sys_ok X (?L(localq me \<mapsto> vs', runq c \<mapsto> (rs @ [t]) @ ms)) s' \<and> k \<le> length vs' \<and> set vs' \<union> set ms = set vs1
        \<and> length vs' + length ms = length vs1 \<and> (ms = [] \<or> length ((rs @ [t]) @ ms) \<le> unat share) \<and> sent c ms ?s s'"
        by (intro Suc.IH [OF s1(3)]) (use Suc.prems vs in auto)
      then obtain k vs' ms s' where r: "fill_cpu n me share (localq me) c ?s = Inr (k, s')"
        "sys_ok X (?L(localq me \<mapsto> vs', runq c \<mapsto> (rs @ [t]) @ ms)) s'" "k \<le> length vs'" "set vs' \<union> set ms = set vs1"
        "length vs' + length ms = length vs1" "ms = [] \<or> length ((rs @ [t]) @ ms) \<le> unat share" "sent c ms ?s s'" by blast
      have L: "?L(localq me \<mapsto> vs', runq c \<mapsto> (rs @ [t]) @ ms) = L(localq me \<mapsto> vs', runq c \<mapsto> rs @ t # ms)"
        by (auto simp: fun_eq_iff)
      have "sent c (t # ms) s s'" using r(7) x by (auto simp: sent_def)
      moreover have "length (rs @ t # ms) \<le> unat share" using r(6) \<open>length rs < unat share\<close> by auto
      moreover have "set vs' \<union> set (t # ms) = set (t # vs1)" "length vs' + length (t # ms) = length (t # vs1)" using r(4,5) by auto
      ultimately show ?thesis unfolding f vs(1) using r(1,3) r(2) [unfolded L] by blast
    qed
  qed
qed

text \<open>The state of the round over the CPUs: \<open>L0\<close> are the lists at its start, \<open>V\<close> the victims.\<close>

definition others :: "nat \<Rightarrow> nat \<Rightarrow> nat set" where
  "others n me = {..<n} - {me}"

definition runnable :: "nat set \<Rightarrow> (nat \<rightharpoonup> nat list) \<Rightarrow> nat set" where
  "runnable C L = (\<Union>c \<in> C. set (the (L (runq c))))"

definition grown :: "nat set \<Rightarrow> u32 \<Rightarrow> (nat \<rightharpoonup> nat list) \<Rightarrow> (nat \<rightharpoonup> nat list) \<Rightarrow> bool" where
  "grown C share L0 L \<longleftrightarrow> (\<forall>c \<in> C. \<exists>ms. L (runq c) = Some (the (L0 (runq c)) @ ms)
     \<and> (ms = [] \<or> length (the (L0 (runq c)) @ ms) \<le> unat share))"

definition spread :: "nat set \<Rightarrow> nat \<Rightarrow> u32 \<Rightarrow> (nat \<rightharpoonup> nat list) \<Rightarrow> nat set \<Rightarrow> tsys \<Rightarrow> (nat \<rightharpoonup> nat list) \<Rightarrow> nat list \<Rightarrow> tsys \<Rightarrow> bool" where
  "spread X me share L0 V s0 L vs s \<longleftrightarrow> sys_ok X L s \<and> L (localq me) = Some vs
     \<and> same_cpus (allcpus s0) (allcpus s) \<and> wchans s = wchans s0
     \<and> (\<forall>t \<in> set vs. \<forall>x. thr s t = Some x \<longrightarrow> t_cpu x = Some me)
     \<and> grown (others (length (allcpus s0)) me) share L0 L
     \<and> (\<forall>l. l \<noteq> localq me \<longrightarrow> (\<forall>c \<in> others (length (allcpus s0)) me. l \<noteq> runq c) \<longrightarrow> L l = L0 l)
     \<and> set vs \<union> runnable (others (length (allcpus s0)) me) L = V \<union> runnable (others (length (allcpus s0)) me) L0"

lemma runnable_insert: "i \<in> C \<Longrightarrow> runnable C L = set (the (L (runq i))) \<union> runnable (C - {i}) L"
  by (auto simp: runnable_def)

lemma runnable_send:
  assumes "i \<in> C" "L (runq i) = Some rs"
  shows "runnable C (L(localq me \<mapsto> vs, runq i \<mapsto> rs @ ms)) = runnable C L \<union> set ms"
proof -
  have "runnable (C - {i}) (L(localq me \<mapsto> vs, runq i \<mapsto> rs @ ms)) = runnable (C - {i}) L" by (simp add: runnable_def)
  then show ?thesis using assms(2) by (auto simp: runnable_insert [OF assms(1)])
qed

lemma spread_step:
  assumes sp: "spread X me share L0 V s0 L vs s" and k: "k \<le> length vs" and me: "me < length (allcpus s0)"
    and i: "i \<in> others (length (allcpus s0)) me"
  shows "\<exists>k' s' L' vs'. fill_cpu k me share (localq me) i s = Inr (k', s') \<and> spread X me share L0 V s0 L' vs' s' \<and> k' \<le> length vs'"
proof -
  let ?C = "others (length (allcpus s0)) me"
  note S = sp [unfolded spread_def]
  note n = same_cpusD(1) [of "allcpus s0" "allcpus s"]
  obtain ms0 where ms0: "L (runq i) = Some (the (L0 (runq i)) @ ms0)" "ms0 = [] \<or> length (the (L0 (runq i)) @ ms0) \<le> unat share"
    using S i by (auto simp: grown_def)
  let ?rs = "the (L0 (runq i)) @ ms0"
  have i': "i \<noteq> me" "i < length (allcpus s)" "me < length (allcpus s)" using i me n S by (auto simp: others_def)
  obtain k' vs' ms s' where f: "fill_cpu k me share (localq me) i s = Inr (k', s')"
      "sys_ok X (L(localq me \<mapsto> vs', runq i \<mapsto> ?rs @ ms)) s'" "k' \<le> length vs'" "set vs' \<union> set ms = set vs"
      "length vs' + length ms = length vs" "ms = [] \<or> length (?rs @ ms) \<le> unat share" "sent i ms s s'"
    using fill_cpu_spec [of X L s me vs i ?rs k share] S ms0(1) i' k by blast
  let ?L = "L(localq me \<mapsto> vs', runq i \<mapsto> ?rs @ ms)"
  have "t \<notin> set ms" if "t \<in> set vs'" for t
    using tlists.on_one [OF sys_okD(1) [OF f(2)], of "localq me" vs' t "runq i" "?rs @ ms"] that by auto
  then have cpus: "\<forall>t \<in> set vs'. \<forall>x. thr s' t = Some x \<longrightarrow> t_cpu x = Some me"
    using f(4,7) S unfolding sent_def by (metis Un_iff)
  have "grown ?C share L0 ?L"
    unfolding grown_def
  proof
    fix c
    assume "c \<in> ?C"
    then show "\<exists>ms. ?L (runq c) = Some (the (L0 (runq c)) @ ms) \<and> (ms = [] \<or> length (the (L0 (runq c)) @ ms) \<le> unat share)"
      using S f(6) ms0(2) by (cases "c = i") (auto simp: grown_def)
  qed
  moreover have "\<forall>l. l \<noteq> localq me \<longrightarrow> (\<forall>c \<in> ?C. l \<noteq> runq c) \<longrightarrow> ?L l = L0 l" using S i by auto
  moreover have "runnable ?C ?L = runnable ?C L \<union> set ms"
    by (rule runnable_send [of i ?C L, OF i ms0(1)])
  moreover have "same_cpus (allcpus s0) (allcpus s')" "wchans s' = wchans s0" using f(7) S by (auto simp: sent_def same_cpus_def)
  ultimately have "spread X me share L0 V s0 ?L vs' s'"
    using f(2,4) cpus S unfolding spread_def by auto
  then show ?thesis using f(1,3) by blast
qed

lemma fill_cpus_spec:
  assumes sp: "spread X me share L0 V s L0 vs s" and k: "k \<le> length vs" and me: "me < length (allcpus s)"
  shows "\<exists>k' s' L' vs'. fill_cpus me share (localq me) k s = Inr (k', s') \<and> spread X me share L0 V s L' vs' s'"
proof -
  let ?P = "\<lambda>(k', s'). \<exists>L' vs'. spread X me share L0 V s L' vs' s' \<and> k' \<le> length vs'"
  let ?f = "\<lambda>i (n, s). if n > 0 \<and> i \<noteq> me then fill_cpu n me share (localq me) i s else Inr (n, s)"
  have "\<exists>r. rfold ?f [0..<length (allcpus s)] (k, s) = Inr r \<and> ?P r"
  proof (rule rfold_total)
    fix i r
    assume i: "i \<in> set [0..<length (allcpus s)]" and r: "?P r"
    obtain k1 s1 L1 vs1 where r1: "r = (k1, s1)" "spread X me share L0 V s L1 vs1 s1" "k1 \<le> length vs1" using r by (cases r) auto
    show "\<exists>r'. ?f i r = Inr r' \<and> ?P r'"
    proof (cases "k1 > 0 \<and> i \<noteq> me")
      case True
      then have "i \<in> others (length (allcpus s)) me" using i by (auto simp: others_def)
      from spread_step [OF r1(2,3) me this] show ?thesis using True r1(1) by auto
    qed (use r1 in auto)
  qed (use sp k in auto)
  then show ?thesis by (auto simp: fill_cpus_def)
qed

text \<open>The share of a CPU, as the code computes it.\<close>

definition one_share :: "tsys \<Rightarrow> u32" where
  "one_share s = DIVROUNDUP (sum_list (map (\<lambda>i. run_count i s) [0..<length (allcpus s)])) (of_nat (length (allcpus s)))"

lemma migration_few:
  assumes "0 < length (allcpus s)" "run_count me s < one_share s"
  shows "thread_consider_migration me s = Inr s"
  using assms by (simp add: thread_consider_migration_def one_share_def Let_def)

text \<open>The leftover victims go back to the end of the CPU's own run queue.\<close>

lemma give_back:
  assumes ok: "sys_ok (insert me X) L s" and me: "me \<notin> X" and l: "L (localq me) = Some vs" "L (runq me) = Some as"
    and cpu: "\<forall>t \<in> set vs. \<forall>x. thr s t = Some x \<longrightarrow> t_cpu x = Some me"
  shows "\<exists>q. (if \<not> threadlist_isempty (localq me) (tls s)
      then with_tls (move_all (unat (tl_count (tls s) (localq me)) + 1) (localq me) (runq me)) s else Inr s) = Inr (s\<lparr>tls := q\<rparr>)
    \<and> threadlist_isempty (localq me) q \<and> threadlist_cleanup (localq me) q = Inr ()
    \<and> sys_ok X (L(localq me := None, runq me \<mapsto> as @ vs)) (s\<lparr>tls := q\<rparr>)"
proof -
  note D = sys_okD [OF ok]
  let ?L = "L(localq me \<mapsto> [], runq me \<mapsto> as @ vs)"
  have pl: "\<forall>t \<in> set vs. \<forall>x. thr s t = Some x \<longrightarrow> place_ok (runq me) x"
    using sched_coreD(2) [OF D(2) l(1)] cpu by simp
  have "length vs < unat (tl_count (tls s) (localq me)) + 1" using list_count [OF D(1) l(1)] by simp
  from move_all_spec [OF D(1,2) l _ pl this]
  obtain q0 where q0: "move_all (unat (tl_count (tls s) (localq me)) + 1) (localq me) (runq me) (tls s) = Inr q0"
      "lists_inv ?L (dom (thr s)) q0" "sched_core (insert me X) ?L (allcpus s) (thr s) (dom (wchans s))"
    by (metis queue_names_distinct(9))
  have e: "?L = L" "q0 = tls s" if "vs = []"
  proof -
    show "?L = L" using l that by (auto simp: fun_eq_iff)
    show "q0 = tls s" using q0(1) that list_count [OF D(1) l(1)] tlists.deq_empty [OF D(1)] l(1) by simp
  qed
  have mv: "(if \<not> threadlist_isempty (localq me) (tls s)
      then with_tls (move_all (unat (tl_count (tls s) (localq me)) + 1) (localq me) (runq me)) s else Inr s) = Inr (s\<lparr>tls := q0\<rparr>)"
    using q0(1) list_empty_iff [OF D(1) l(1)] e(2) by (simp add: with_tls_def del: move_all.simps)
  have ok': "sys_ok (insert me X) ?L (s\<lparr>tls := q0\<rparr>)" using q0(2,3) D(3) by (intro sys_okI) simp_all
  have z: "?L (localq me) = Some []" by simp
  note fin = local_done [OF ok' me z]
  have "threadlist_isempty (localq me) q0" using list_empty_iff [OF q0(2) z] by simp
  moreover have "?L(localq me := None) = L(localq me := None, runq me \<mapsto> as @ vs)" by (auto simp: fun_eq_iff)
  ultimately show ?thesis using mv fin by (intro exI [of _ q0]) (simp del: fun_upd_apply)
qed

text \<open>The victims are collected: those behind the CPU's own share.\<close>

lemma collect_spec:
  assumes ok: "sys_ok X L s" and me: "me < length (allcpus s)" "me \<notin> X" and many: "one_share s \<le> run_count me s"
    and rs: "L (runq me) = Some rs"
  defines "as \<equiv> take (unat (one_share s)) rs" and "bs \<equiv> drop (unat (one_share s)) rs"
  defines "L1 \<equiv> L(localq me \<mapsto> [], runq me \<mapsto> as, localq me \<mapsto> bs @ [])"
  shows "\<exists>q. take_victims (unat (run_count me s - one_share s)) me (localq me) (threadlist_init (localq me) (tls s)) = Inr q
    \<and> spread (insert me X) me (one_share s) L1 (set bs) (s\<lparr>tls := q\<rparr>) L1 bs (s\<lparr>tls := q\<rparr>)"
    "unat (run_count me s - one_share s) = length bs"
proof -
  let ?k = "unat (run_count me s - one_share s)" and ?s0 = "s\<lparr>tls := threadlist_init (localq me) (tls s)\<rparr>"
  have "unat (run_count me s) = length rs" using list_count [OF sys_okD(1) [OF ok] rs] by (simp add: run_count_def)
  then show k: "?k = length bs" using many by (simp add: bs_def unat_sub word_le_nat_alt)
  note ok0 = local_init(1) [OF ok me(2)]
  have l0: "(L(localq me \<mapsto> [])) (runq me) = Some (as @ bs)" "(L(localq me \<mapsto> [])) (localq me) = Some []"
    using rs by (simp_all add: as_def bs_def)
  obtain q where q: "take_victims ?k me (localq me) (tls ?s0) = Inr q" "lists_inv L1 (dom (thr ?s0)) q"
      "sched_core (insert me X) L1 (allcpus ?s0) (thr ?s0) (dom (wchans ?s0))"
    using take_victims_spec [OF sys_okD(1,2) [OF ok0] l0 k [symmetric]] unfolding L1_def by blast
  have ok1: "sys_ok (insert me X) L1 (s\<lparr>tls := q\<rparr>)" using q(2,3) sys_okD(3) [OF ok] by (intro sys_okI) simp_all
  have "\<forall>t \<in> set bs. \<forall>x. thr s t = Some x \<longrightarrow> t_cpu x = Some me"
    using sched_coreD(2) [OF sys_okD(2) [OF ok] rs] by (auto simp: bs_def dest: in_set_dropD)
  moreover have "grown (others (length (allcpus s)) me) (one_share s) L1 L1"
    using queue_exists(1) [OF ok] by (force simp: grown_def others_def L1_def)
  moreover have "L1 (localq me) = Some bs" by (simp add: L1_def)
  ultimately have "spread (insert me X) me (one_share s) L1 (set bs) (s\<lparr>tls := q\<rparr>) L1 bs (s\<lparr>tls := q\<rparr>)" using ok1 by (simp add: spread_def)
  then show "\<exists>q. take_victims ?k me (localq me) (threadlist_init (localq me) (tls s)) = Inr q
    \<and> spread (insert me X) me (one_share s) L1 (set bs) (s\<lparr>tls := q\<rparr>) L1 bs (s\<lparr>tls := q\<rparr>)" using q(1) by auto
qed

lemma migration_spec:
  assumes ok: "sys_ok X L s" and me: "me < length (allcpus s)" "me \<notin> X" and many: "one_share s \<le> run_count me s"
    and rs: "L (runq me) = Some rs"
  shows "\<exists>s' L' us. thread_consider_migration me s = Inr s' \<and> sys_ok X L' s' \<and> same_cpus (allcpus s) (allcpus s') \<and> wchans s' = wchans s
    \<and> L' (runq me) = Some (take (unat (one_share s)) rs @ us)
    \<and> grown (others (length (allcpus s)) me) (one_share s) L L'
    \<and> (\<forall>l. (\<forall>c < length (allcpus s). l \<noteq> runq c) \<longrightarrow> L' l = L l)
    \<and> runnable {..<length (allcpus s)} L' = runnable {..<length (allcpus s)} L"
proof -
  let ?C = "others (length (allcpus s)) me" and ?share = "one_share s"
  define as bs where "as = take (unat ?share) rs" and "bs = drop (unat ?share) rs"
  note none = local_init(2) [OF ok me(2)]
  let ?L1 = "L(localq me \<mapsto> [], runq me \<mapsto> as, localq me \<mapsto> bs @ [])" and ?k = "unat (run_count me s - ?share)"
  obtain q1 where q1: "take_victims ?k me (localq me) (threadlist_init (localq me) (tls s)) = Inr q1"
      "spread (insert me X) me ?share ?L1 (set bs) (s\<lparr>tls := q1\<rparr>) ?L1 bs (s\<lparr>tls := q1\<rparr>)" and k: "?k = length bs"
    using collect_spec [OF ok me many rs] unfolding as_def bs_def by blast
  obtain k' s2 L2 vs where f: "fill_cpus me ?share (localq me) ?k (s\<lparr>tls := q1\<rparr>) = Inr (k', s2)"
      "spread (insert me X) me ?share ?L1 (set bs) (s\<lparr>tls := q1\<rparr>) L2 vs s2"
    using fill_cpus_spec [OF q1(2), of ?k] k me(1) by auto
  note S = f(2) [unfolded spread_def]
  have me2: "L2 (runq me) = Some as" using S by (auto simp: others_def)
  obtain q where g: "(if \<not> threadlist_isempty (localq me) (tls s2)
      then with_tls (move_all (unat (tl_count (tls s2) (localq me)) + 1) (localq me) (runq me)) s2 else Inr s2) = Inr (s2\<lparr>tls := q\<rparr>)"
      "threadlist_isempty (localq me) q" "threadlist_cleanup (localq me) q = Inr ()"
      "sys_ok X (L2(localq me := None, runq me \<mapsto> as @ vs)) (s2\<lparr>tls := q\<rparr>)"
    using give_back [of me X L2 s2 vs as] S me(2) me2 by blast
  let ?L' = "L2(localq me := None, runq me \<mapsto> as @ vs)"
  have "allcpus s \<noteq> []" using me(1) by auto
  then have "thread_consider_migration me s = Inr (s2\<lparr>tls := q\<rparr>)"
    using many q1(1) f(1) g(1,2,3)
    by (simp add: thread_consider_migration_def one_share_def [symmetric] Let_def with_tls_def not_less del: move_all.simps)
  moreover have "grown ?C ?share L ?L'" using S by (auto simp: grown_def others_def)
  moreover have "?L' l = L l" if "\<forall>c < length (allcpus s). l \<noteq> runq c" for l
    using S that me(1) none by (cases "l = localq me") (auto simp: others_def)
  moreover have "runnable {..<length (allcpus s)} ?L' = runnable {..<length (allcpus s)} L"
  proof -
    have split: "runnable {..<length (allcpus s)} M = set (the (M (runq me))) \<union> runnable ?C M" for M
      using runnable_insert [of me "{..<length (allcpus s)}" M] me(1) by (simp add: others_def)
    have "runnable ?C ?L' = runnable ?C L2" "runnable ?C ?L1 = runnable ?C L" by (auto simp: runnable_def others_def)
    moreover have "set rs = set as \<union> set bs" using append_take_drop_id [of "unat ?share" rs] unfolding as_def bs_def by (metis set_append)
    ultimately show ?thesis using S rs unfolding split by auto
  qed
  ultimately show ?thesis using S g(4)
    by (intro exI [of _ "s2\<lparr>tls := q\<rparr>"] exI [of _ ?L'] exI [of _ vs]) (simp add: as_def fun_upd_same del: fun_upd_apply)
qed

end
