(* ===== verification/ThreadLife.thy ===== *)
theory ThreadLife
  imports Migrate
begin

text \<open>
  Creation of threads and wait channels, exit, and the system as a whole: every legal operation
  of the thread system returns and keeps its invariant.
\<close>

section \<open>Creating a thread\<close>

lemma store_string_outside:
  assumes "unat a + length cs < 2 ^ 32" "unat x < unat a \<or> unat a + length cs < unat x"
  shows "store_string cs a m x = m x"
  using assms
proof (induction cs arbitrary: a m)
  case (Cons c cs)
  have u: "unat (a + 1) = unat a + 1" using Cons.prems(1) by (simp add: unat_word_ariths)
  have "x \<noteq> a" using Cons.prems(2) by auto
  moreover have "store_string cs (a + 1) (m(a := of_nat (of_char c))) x = (m(a := of_nat (of_char c))) x"
    using Cons.prems u by (intro Cons.IH) auto
  ultimately show ?case by simp
qed auto

lemma kstrdup_spec:
  assumes ok: "own_ok h own" and len: "length name < 2047"
  shows "\<exists>a h'. kstrdup name h = Inr (a, h') \<and> frontier h \<le> frontier h' \<and> (\<forall>k. stack_ok h k \<longrightarrow> stack_ok h' k) \<and> own_ok h' own
    \<and> (a \<noteq> 0 \<longrightarrow> a \<notin> ran own \<and> (\<forall>g. own g = None \<longrightarrow> own_ok h' (own(g \<mapsto> a))))"
proof -
  have sz: "unat (of_nat (length name + 1) :: u32) = length name + 1" using len by (simp add: unat_of_nat del: of_nat_Suc of_nat_add)
  obtain a h1 where k: "kmalloc (of_nat (length name + 1)) h = Inr (a, h1)" "frontier h \<le> frontier h1"
      "\<forall>k. stack_ok h k \<longrightarrow> stack_ok h1 k" "own_ok h1 own"
      "a \<noteq> 0 \<longrightarrow> (\<exists>z. unat (of_nat (length name + 1) :: u32) \<le> unat z \<and> (a, z) \<in> allocated h1) \<and> a \<notin> ran own
        \<and> (\<forall>g. own g = None \<longrightarrow> own_ok h1 (own(g \<mapsto> a)))"
    using own_alloc [OF ok, of "of_nat (length name + 1)"] len sz by auto
  show ?thesis
  proof (cases "a = 0")
    case True
    then show ?thesis using k by (intro exI [of _ 0] exI [of _ h1]) (simp add: kstrdup_def del: of_nat_Suc of_nat_add)
  next
    case False
    then obtain z where z: "length name + 1 \<le> unat z" "(a, z) \<in> allocated h1" using k(5) sz by auto
    let ?m = "store_string name a (kmem h1)" and ?h = "h1\<lparr>kmem := store_string name a (kmem h1)\<rparr>"
    have inv: "heap_inv h1" using k(4) by (simp add: own_ok_def)
    have fit: "unat a + unat z \<le> 2 ^ 32"
      using allocated_in_page [OF inv z(2)] heap_invD(1) [OF inv] frontier_bound [of h1] page_okD(3) [OF heap_invD(5) [OF inv]]
      by (fastforce simp: heap_pages_def)
    have out: "?m x = kmem h1 x" if "unat x < unat a \<or> unat a + unat z \<le> unat x" for x
      using that z(1) fit by (intro store_string_outside) auto
    note hb = heap_inv_block [OF inv z(2) out]
    have own: "own_ok ?h f" if "own_ok h1 f" for f using that hb by (simp add: own_ok_def)
    have "stack_ok ?h k" if st: "stack_ok h1 k" for k
      by (rule stack_ok_keep [OF st _ inv]) (use out page_off_block [OF inv z(2)] in \<open>auto simp: heap_pages_mem frontier_def\<close>)
    moreover have "kstrdup name h = Inr (a, ?h)" using k(1) False by (simp add: kstrdup_def del: of_nat_Suc of_nat_add)
    moreover have "frontier ?h = frontier h1" by (simp add: frontier_def)
    ultimately show ?thesis using k(2-5) own False by (intro exI [of _ a] exI [of _ ?h]) simp
  qed
qed

lemma mem_ok_heap:
  assumes "mem_ok h th W" "own_ok h' (owned th W)" "\<forall>k. stack_ok h k \<longrightarrow> stack_ok h' k"
  shows "mem_ok h' th W"
  using assms by (auto simp: mem_ok_def)

lemma mem_ok_new:
  assumes mem: "mem_ok h th W" and own: "own_ok h' (owned (th(t \<mapsto> x)) W)" and st: "\<forall>k. stack_ok h k \<longrightarrow> stack_ok h' k"
    and t: "th t = None" "t < 2 ^ 32" "t_stack x = 0"
  shows "mem_ok h' (th(t \<mapsto> x)) W"
proof -
  have ran: "ran (th(t \<mapsto> x)) = insert x (ran th)" using t(1) by simp
  have "stack_ok h' 0" by (simp add: stack_ok_def)
  then have "\<forall>y \<in> ran (th(t \<mapsto> x)). stack_ok h' (t_stack y)" unfolding ran using mem st t(3) by (simp add: mem_ok_def)
  moreover have "dom (th(t \<mapsto> x)) \<union> W \<subseteq> {..<2 ^ 32}" using mem t(2) by (simp add: mem_ok_def)
  moreover have "u = v" if "(th(t \<mapsto> x)) u = Some y" "(th(t \<mapsto> x)) v = Some z" "t_stack y = t_stack z" "t_stack y \<noteq> 0" for u v y z
    using that mem t(3) by (auto simp: mem_ok_def split: if_splits)
  ultimately show ?thesis using own unfolding mem_ok_def by blast
qed

text \<open>A new thread has a block and a name of its own; it is on no list yet and has no CPU.\<close>

definition fresh_thread :: "(nat \<rightharpoonup> nat list) \<Rightarrow> tsys \<Rightarrow> nat \<Rightarrow> thread \<Rightarrow> tsys \<Rightarrow> bool" where
  "fresh_thread L s t x s' \<longleftrightarrow> thr s t = None \<and> thr s' = (thr s)(t \<mapsto> x) \<and> t_state x = S_READY \<and> t_stack x = 0
     \<and> t_cwd x = 0 \<and> t_addrspace x = 0 \<and> lists_inv L (dom (thr s')) (tls s') \<and> mem_ok (kh (tvm s')) (thr s') (dom (wchans s'))"

definition same_rest :: "tsys \<Rightarrow> tsys \<Rightarrow> bool" where
  "same_rest s s' \<longleftrightarrow> allcpus s' = allcpus s \<and> wchans s' = wchans s \<and> vnodes s' = vnodes s"

lemma thread_create_spec:
  assumes ok: "sys_ok X L s" and len: "length name < 2047" and room: "card (dom (thr s)) + 1 < 2 ^ 32"
  shows "\<exists>r s'. thread_create name s = Inr (r, s') \<and> same_rest s s'
    \<and> (case r of None \<Rightarrow> sys_ok X L s' \<and> thr s' = thr s | Some t \<Rightarrow> \<exists>x. fresh_thread L s t x s')"
proof -
  note D = sys_okD [OF ok]
  let ?W = "dom (wchans s)" and ?own = "owned (thr s) (dom (wchans s))"
  have own: "own_ok (kh (tvm s)) ?own" using D(3) by (simp add: mem_ok_def)
  obtain p h1 where p: "kmalloc sizeof_thread (kh (tvm s)) = Inr (p, h1)" "\<forall>k. stack_ok (kh (tvm s)) k \<longrightarrow> stack_ok h1 k" "own_ok h1 ?own"
      "p \<noteq> 0 \<longrightarrow> p \<notin> ran ?own \<and> (\<forall>g. ?own g = None \<longrightarrow> own_ok h1 (?own(g \<mapsto> p)))"
    using own_alloc [OF own, of sizeof_thread] by (auto simp: sizeof_thread_def)
  show ?thesis
  proof (cases "p = 0")
    case True
    let ?s = "s\<lparr>tvm := (tvm s)\<lparr>kh := h1\<rparr>\<rparr>"
    have "sys_ok X L ?s" using D(1,2) mem_ok_heap [OF D(3) p(3,2)] by (intro sys_okI) simp_all
    moreover have "thread_create name s = Inr (None, ?s)" using p(1) True by (simp add: thread_create_def t_kmalloc_def vm_kmalloc_def)
    ultimately show ?thesis by (intro exI [of _ None] exI [of _ ?s]) (simp add: same_rest_def)
  next
    case False
    define t where "t = unat p"
    have t: "of_nat t = p" "t < 2 ^ 32" using unsigned_less [of p] by (simp_all add: t_def)
    have new: "thr s t = None"
    proof (rule ccontr)
      assume "thr s t \<noteq> None"
      then have "?own (TStruct t) = Some p" using t(1) by (auto simp: owned_def)
      then show False using p(4) False by (auto intro: ranI)
    qed
    then have n: "?own (TStruct t) = None" "?own (TName t) = None" by (simp_all add: owned_def)
    let ?own1 = "?own(TStruct t \<mapsto> p)"
    have own1: "own_ok h1 ?own1" using p(4) False n(1) by blast
    obtain a h2 where a: "kstrdup name h1 = Inr (a, h2)" "\<forall>k. stack_ok h1 k \<longrightarrow> stack_ok h2 k" "own_ok h2 ?own1"
        "a \<noteq> 0 \<longrightarrow> (\<forall>g. ?own1 g = None \<longrightarrow> own_ok h2 (?own1(g \<mapsto> a)))"
      using kstrdup_spec [OF own1 len] by blast
    let ?s = "\<lambda>h. s\<lparr>tvm := (tvm s)\<lparr>kh := h\<rparr>, gpid := gpid s + 1, t_id_counter := t_id_counter s + 1\<rparr>"
    show ?thesis
    proof (cases "a = 0")
      case True
      obtain h3 where h3: "kfree p h2 = Inr h3" "own_ok h3 (?own1(TStruct t := None))" "\<forall>k. stack_ok h2 k \<longrightarrow> stack_ok h3 k"
        using own_free [OF a(3), of "TStruct t" p] by auto
      have "?own1(TStruct t := None) = ?own" unfolding fun_upd_upd using n(1) by (rule fun_upd_idem)
      then have "own_ok h3 ?own" using h3(2) by simp
      then have "sys_ok X L (?s h3)" using D(1,2) mem_ok_heap [OF D(3)] p(2) a(2) h3(3) by (intro sys_okI) simp_all
      moreover have "thread_create name s = Inr (None, ?s h3)"
        using p(1) False a(1) True h3(1) by (simp add: thread_create_def t_kmalloc_def vm_kmalloc_def t_kfree_def vm_kfree_def)
      ultimately show ?thesis by (intro exI [of _ None] exI [of _ "?s h3"]) (simp add: same_rest_def)
    next
      case False
      define x where "x = \<lparr>t_pid = gpid s, t_id = t_id_counter s, t_name = a, t_wchan_name = Some ''NEW'', t_state = S_READY,
        t_stack = 0, t_cpu = None, t_in_interrupt = False, t_addrspace = 0, t_cwd = 0\<rparr>"
      obtain l where l: "threadlistnode_init (TNode t) (Some t) (tls s) = Inr l" "lists_inv L (insert t (dom (thr s))) l"
        using threadlistnode_init_inv [OF D(1), of t] new room by auto
      let ?s' = "(?s h2)\<lparr>thr := (thr s)(t \<mapsto> x), tls := l\<rparr>"
      have "own_ok h2 (owned ((thr s)(t \<mapsto> x)) ?W)"
        using a(4) False n(2) t(1) by (simp add: owned_add [of "thr s" t, OF new] x_def)
      then have "mem_ok h2 ((thr s)(t \<mapsto> x)) ?W" using p(2) a(2) new t(2) by (intro mem_ok_new [OF D(3)]) (simp_all add: x_def)
      then have "fresh_thread L s t x ?s'" using new l(2) by (simp add: fresh_thread_def x_def)
      moreover have "thread_create name s = Inr (Some t, ?s')"
        using p(1) \<open>p \<noteq> 0\<close> a(1) False l(1)
        by (simp add: thread_create_def t_kmalloc_def vm_kmalloc_def with_tls_def Let_def x_def t_def)
      ultimately show ?thesis by (intro exI [of _ "Some t"] exI [of _ ?s']) (auto simp: same_rest_def)
    qed
  qed
qed

text \<open>The stack of a thread is a page of free memory, with its guard written.\<close>

definition guarded :: "u32 \<Rightarrow> mem \<Rightarrow> mem" where
  "guarded k m = store32 (store32 (store32 (store32 m k THREAD_STACK_MAGIC) (k + 4) THREAD_STACK_MAGIC) (k + 8) THREAD_STACK_MAGIC)
     (k + 12) THREAD_STACK_MAGIC"

lemma kmalloc_page: "kmalloc STACK_SIZE h = Inr (alloc_kpages 1 h)"
  by (simp add: kmalloc_def STACK_SIZE_def LARGEST_SUBPAGE_SIZE_def PAGE_SIZE_def Let_def)

lemma new_stack:
  assumes inv: "heap_inv h" and a: "unat a = frontier h" "unat a mod 4096 = 0" "a \<noteq> 0"
    and h': "h' = h\<lparr>kram := kram h'\<rparr>" "grows h h'" "frontier h' = frontier h + 4096"
  defines "h'' \<equiv> h'\<lparr>kmem := guarded a (kmem h')\<rparr>"
  shows "heap_inv h''" "allocated h'' = allocated h" "stack_ok h'' a" "stack_ok h k \<Longrightarrow> stack_ok h'' k \<and> (k \<noteq> 0 \<longrightarrow> k \<noteq> a)"
proof -
  note g = heap_inv_grows [OF inv h'(2,1)]
  have pages: "heap_pages h'' = heap_pages h" unfolding h''_def heap_pages_mem by (rule heap_pages_grows [OF h'(1)])
  have fr: "frontier h'' = frontier h + 4096" using h'(3) by (simp add: h''_def frontier_def)
  have mem: "kmem h' = kmem h" by (subst h'(1), simp)
  have b: "unat a + 4096 \<le> 2 ^ 32" using frontier_bound [OF heap_invD(1) [OF g(1)]] h'(3) a(1) by simp
  have "unat a mod 4 = 0" using mod_mod_cancel [of 4 4096 "unat a"] a(2) by simp
  note gw = guard_words [where k = a and m = "kmem h'" and v = THREAD_STACK_MAGIC, folded guarded_def, OF _ this]
  have below: "unat P + 4096 \<le> frontier h" if "P \<in> heap_pages h" for P
    using that page_okD(3) [OF heap_invD(5) [OF inv]] by (auto simp: heap_pages_def)
  have out: "guarded a (kmem h') x = kmem h x" if "unat x < frontier h" for x
    using gw(2) [of x] b that a(1) mem by simp
  have hp: "guarded a (kmem h') x = kmem h' x" if "P \<in> heap_pages h'" "unat x < unat P + 4096" for P x
    using out [of x] below [of P] that heap_pages_grows [OF h'(1)] mem by simp
  show "heap_inv h''" "allocated h'' = allocated h"
    using heap_inv_mem [OF g(1), of "guarded a (kmem h')"] hp g(2) unfolding h''_def by blast+
  have "a \<notin> heap_pages h" using below [of a] a(1) by auto
  then show "stack_ok h'' a" using gw(1) b a fr pages by (simp add: stack_ok_def h''_def)
  show "stack_ok h k \<Longrightarrow> stack_ok h'' k \<and> (k \<noteq> 0 \<longrightarrow> k \<noteq> a)"
  proof
    assume k: "stack_ok h k"
    show "stack_ok h'' k" by (rule stack_ok_keep [OF k _ inv]) (use fr pages out in \<open>simp_all add: h''_def\<close>)
    show "k \<noteq> 0 \<longrightarrow> k \<noteq> a" using k a(1) by (auto simp: stack_ok_def)
  qed
qed

lemma mem_ok_stack:
  assumes mem: "mem_ok h th W" and x: "th t = Some x"
    and h'': "heap_inv h''" "allocated h'' = allocated h" "stack_ok h'' a" "\<And>k. stack_ok h k \<Longrightarrow> stack_ok h'' k \<and> (k \<noteq> 0 \<longrightarrow> k \<noteq> a)"
  shows "mem_ok h'' (th(t \<mapsto> x\<lparr>t_stack := a\<rparr>)) W"
proof -
  let ?th = "th(t \<mapsto> x\<lparr>t_stack := a\<rparr>)"
  have st: "stack_ok h (t_stack y)" if "th u = Some y" for u y using mem that by (auto simp: mem_ok_def intro: ranI)
  have "owned ?th W = owned th W" using x by (intro ext) (auto simp: owned_def split: owner.split)
  then have "own_ok h'' (owned ?th W)" using mem h''(1,2) by (simp add: mem_ok_def own_ok_def)
  moreover have "dom ?th = dom th" using x by auto
  then have "dom ?th \<union> W \<subseteq> {..<2 ^ 32}" using mem by (simp add: mem_ok_def)
  moreover have "\<forall>y \<in> ran ?th. stack_ok h'' (t_stack y)"
    using st h''(3,4) by (auto simp: ran_def split: if_splits)
  moreover have "u = v" if "?th u = Some y" "?th v = Some z" "t_stack y = t_stack z" "t_stack y \<noteq> 0" for u v y z
  proof -
    have both: "th u = Some y \<Longrightarrow> th v = Some z \<Longrightarrow> u = v" using mem that(3,4) unfolding mem_ok_def by blast
    have "t_stack w \<noteq> a" if "th k = Some w" "t_stack w \<noteq> 0" for k w using h''(4) [OF st [OF that(1)]] that(2) by simp
    from this [of u y] this [of v z] have "?thesis" if "u = t \<longleftrightarrow> v \<noteq> t"
      using that \<open>?th u = Some y\<close> \<open>?th v = Some z\<close> \<open>t_stack y = t_stack z\<close> \<open>t_stack y \<noteq> 0\<close> by (cases "u = t") auto
    then show ?thesis using both that by (cases "u = t"; cases "v = t") auto
  qed
  ultimately show ?thesis unfolding mem_ok_def by blast
qed

section \<open>Forking\<close>

lemma thread_stack_0: "t_stack x = 0 \<Longrightarrow> x\<lparr>t_stack := 0\<rparr> = x"
  by (cases x) simp

text \<open>Without memory for the stack, the new thread is destroyed again.\<close>

lemma fork_undo:
  assumes ok: "sys_ok X L s" and fr: "fresh_thread L s t x s1" and rest: "same_rest s s1" and me: "me < length (allcpus s)"
  shows "\<exists>s'. thread_destroy me t s1 = Inr s' \<and> sys_ok X L s' \<and> thr s' = thr s \<and> allcpus s' = allcpus s \<and> wchans s' = wchans s"
proof -
  note D = sys_okD [OF ok] and F = fr [unfolded fresh_thread_def] and R = rest [unfolded same_rest_def]
  obtain c y where c: "c_curthread (allcpus s ! me) = Some c" "thr s c = Some y" by (rule current_thread [OF ok me])
  then have cur: "curthread me s1 = Inr c" "c \<noteq> t" using R F me by (auto simp: curthread_def nonnull_def)
  have "off_lists L t" using tlists.member [OF D(1)] F by (intro off_listsI) blast
  then obtain h' where h': "thread_destroy me t s1 = Inr (s1\<lparr>tvm := (tvm s1)\<lparr>kh := h'\<rparr>, thr := (thr s1)(t := None)\<rparr>)"
      "mem_ok h' ((thr s1)(t := None)) (dom (wchans s1))" "lists_inv L (dom ((thr s1)(t := None))) (tls s1)"
    using thread_destroy_spec [of s1 "dom (wchans s1)" L t x me c] F cur by auto
  have th: "(thr s1)(t := None) = thr s" using F by (auto simp: fun_eq_iff)
  have "sys_ok X L (s1\<lparr>tvm := (tvm s1)\<lparr>kh := h'\<rparr>, thr := (thr s1)(t := None)\<rparr>)"
    using h'(2,3) D(2) R unfolding th by (intro sys_okI) simp_all
  then show ?thesis using h'(1) th R by (intro exI [of _ "s1\<lparr>tvm := (tvm s1)\<lparr>kh := h'\<rparr>, thr := (thr s1)(t := None)\<rparr>"]) simp
qed

text \<open>With it, the thread gets the CPU and the working directory of its parent and is made runnable.\<close>

lemma fork_go:
  assumes ok: "sys_ok X L s" and fr: "fresh_thread L s t x s1" and rest: "same_rest s s1"
    and me: "me < length (allcpus s)" "\<not> c_isidle (allcpus s ! me)" and cur: "c_curthread (allcpus s ! me) = Some c" "thr s c = Some y"
    and cwd: "t_cwd y = 0 \<or> vnodes s (t_cwd y) \<noteq> None" and qs: "L (runq me) = Some qs"
    and mem: "mem_ok h ((thr s)(t \<mapsto> x\<lparr>t_stack := a\<rparr>)) (dom (wchans s))"
  shows "\<exists>s'. fork_finish me t (s1\<lparr>thr := (thr s)(t \<mapsto> x\<lparr>t_stack := a\<rparr>), tvm := (tvm s1)\<lparr>kh := h\<rparr>\<rparr>) = Inr s'
    \<and> sys_ok X (L(runq me \<mapsto> qs @ [t])) s' \<and> dom (thr s') = insert t (dom (thr s)) \<and> allcpus s' = allcpus s \<and> wchans s' = wchans s"
    (is "\<exists>s'. fork_finish me t ?s2 = _ \<and> _")
proof -
  note D = sys_okD [OF ok] and F = fr [unfolded fresh_thread_def] and R = rest [unfolded same_rest_def]
  have ct: "c \<noteq> t" using cur(2) F by auto
  have ycpu: "t_cpu y = Some me" using sched_coreD(3) [OF D(2) me(1)] cur by (auto simp: cpu_ok_def)
  let ?x = "x\<lparr>t_stack := a, t_cpu := Some me, t_cwd := t_cwd y\<rparr>"
  define vs where "vs = (if t_cwd y = 0 then vnodes s
    else (vnodes s)(t_cwd y \<mapsto> (the (vnodes s (t_cwd y)))\<lparr>vn_refcount := vn_refcount (the (vnodes s (t_cwd y))) + 1\<rparr>))"
  let ?s3 = "s1\<lparr>tvm := (tvm s1)\<lparr>kh := h\<rparr>, vnodes := vs, thr := (thr s)(t \<mapsto> ?x)\<rparr>"
  have off: "off_lists L t" using tlists.member [OF D(1)] F by (intro off_listsI) blast
  have f1: "thr s1 = (thr s)(t \<mapsto> x)" "lists_inv L (dom (thr s1)) (tls s1)" using F by blast+
  then have lists: "lists_inv L (dom (thr ?s3)) (tls ?s3)" by simp
  obtain l where l: "thread_make_runnable t ?s3 = Inr (?s3\<lparr>tls := l, allcpus := kick me (allcpus ?s3)\<rparr>)"
      "lists_inv (L(runq me \<mapsto> qs @ [t])) (dom (thr ?s3)) l"
    using make_runnable_spec [OF lists, of t ?x me qs] off me(1) qs R by auto
  let ?s' = "?s3\<lparr>tls := l, allcpus := allcpus s\<rparr>"
  have "kick me (allcpus ?s3) = allcpus s" using me(2) R by (simp add: kick_def)
  moreover have "fork_finish me t ?s2 = thread_make_runnable t ?s3"
  proof (cases "t_cwd y = 0")
    case True
    then have "x\<lparr>t_stack := a, t_cpu := Some me\<rparr> = ?x" using F by (cases x) simp
    then have "s1\<lparr>tvm := (tvm s1)\<lparr>kh := h\<rparr>, thr := (thr s)(t \<mapsto> x\<lparr>t_stack := a, t_cpu := Some me\<rparr>)\<rparr> = ?s3" using True R by (simp add: vs_def)
    then show ?thesis using me(1) cur ct ycpu R True
      by (simp add: fork_finish_def curthread_def nonnull_def set_thread_def)
  next
    case False
    then show ?thesis using me(1) cur ct ycpu cwd R
      by (auto simp: fork_finish_def curthread_def nonnull_def set_thread_def vnode_incref_def vs_def)
  qed
  ultimately have run: "fork_finish me t ?s2 = Inr ?s'" using l(1) by simp
  have "place_ok (runq me) ?x" using F by simp
  then have "sched_core X (L(runq me \<mapsto> qs @ [t])) (allcpus s) ((thr s)(t \<mapsto> ?x)) (dom (wchans s))"
    using core_new [OF D(1,2) qs, of t ?x me] F me(1) by simp
  moreover have "mem_ok h ((thr s)(t \<mapsto> ?x)) (dom (wchans s))" using mem_ok_update [OF mem, of t "x\<lparr>t_stack := a\<rparr>" ?x] by simp
  ultimately have "sys_ok X (L(runq me \<mapsto> qs @ [t])) ?s'" using l(2) R by (intro sys_okI) simp_all
  then show ?thesis using run R by (intro exI [of _ ?s']) simp
qed

lemma thread_fork_spec:
  assumes ok: "sys_ok X L s" and me: "me < length (allcpus s)" "\<not> c_isidle (allcpus s ! me)"
    and cur: "c_curthread (allcpus s ! me) = Some c" "thr s c = Some y" and cwd: "t_cwd y = 0 \<or> vnodes s (t_cwd y) \<noteq> None"
    and len: "length name < 2047" and room: "card (dom (thr s)) + 1 < 2 ^ 32" and qs: "L (runq me) = Some qs"
  shows "\<exists>r s'. (thread_fork me name s = Inr (ENOMEM, None, s') \<and> sys_ok X L s' \<and> thr s' = thr s
      \<or> thread_fork me name s = Inr (0, Some r, s') \<and> r \<notin> dom (thr s) \<and> sys_ok X (L(runq me \<mapsto> qs @ [r])) s'
        \<and> dom (thr s') = insert r (dom (thr s)))
    \<and> allcpus s' = allcpus s \<and> wchans s' = wchans s"
proof -
  obtain r s1 where c1: "thread_create name s = Inr (r, s1)" "same_rest s s1"
      "case r of None \<Rightarrow> sys_ok X L s1 \<and> thr s1 = thr s | Some t \<Rightarrow> \<exists>x. fresh_thread L s t x s1"
    using thread_create_spec [OF ok len room] by blast
  show ?thesis
  proof (cases r)
    case None
    then show ?thesis using c1 by (intro exI [of _ 0] exI [of _ s1]) (simp add: thread_fork_def same_rest_def)
  next
    case (Some t)
    then obtain x where x: "fresh_thread L s t x s1" using c1(3) by auto
    note F = x [unfolded fresh_thread_def] and R = c1(2) [unfolded same_rest_def]
    have inv: "heap_inv (kh (tvm s1))" using F by (simp add: mem_ok_def own_ok_def)
    have one: "unat (1 :: u32) \<le> 2 ^ 19" by simp
    have km: "t_kmalloc STACK_SIZE s1 = Inr (fst (alloc_kpages 1 (kh (tvm s1))), s1\<lparr>tvm := (tvm s1)\<lparr>kh := snd (alloc_kpages 1 (kh (tvm s1)))\<rparr>\<rparr>)"
      by (simp add: t_kmalloc_def vm_kmalloc_def kmalloc_page split_beta)
    show ?thesis
    proof (cases rule: alloc_kpages_cases [OF heap_invD(1) [OF inv] one])
      case 1
      have "s1\<lparr>thr := (thr s1)(t \<mapsto> x\<lparr>t_stack := 0\<rparr>)\<rparr> = s1" using F by (simp add: thread_stack_0)
      then have "thread_fork me name s = rbind (thread_destroy me t s1) (\<lambda>s. Inr (ENOMEM, None, s))"
        using c1(1) Some km 1 F by (simp add: thread_fork_def set_thread_def)
      then show ?thesis using fork_undo [OF ok x c1(2) me(1)] by auto
    next
      case got: (2 a h')
      let ?h = "h'\<lparr>kmem := guarded a (kmem h')\<rparr>"
      have "frontier h' = frontier (kh (tvm s1)) + 4096" using got(4) by simp
      note ns = new_stack [OF inv got(3,7,2,8,5) this]
      have "mem_ok ?h ((thr s1)(t \<mapsto> x\<lparr>t_stack := a\<rparr>)) (dom (wchans s1))"
        by (rule mem_ok_stack [of "kh (tvm s1)"]) (use F ns in auto)
      then have "mem_ok ?h ((thr s)(t \<mapsto> x\<lparr>t_stack := a\<rparr>)) (dom (wchans s))" using F R by simp
      from fork_go [OF ok x c1(2) me cur cwd qs this]
      obtain s' where s': "fork_finish me t (s1\<lparr>thr := (thr s)(t \<mapsto> x\<lparr>t_stack := a\<rparr>), tvm := (tvm s1)\<lparr>kh := ?h\<rparr>\<rparr>) = Inr s'"
          "sys_ok X (L(runq me \<mapsto> qs @ [t])) s'" "dom (thr s') = insert t (dom (thr s))" "allcpus s' = allcpus s" "wchans s' = wchans s"
        by blast
      have "thread_fork me name s = Inr (0, Some t, s')"
        using c1(1) Some km got(1,2) F s'(1) by (simp add: thread_fork_def set_thread_def thread_checkstack_init_def guarded_def Let_def)
      then show ?thesis using s' F by (intro exI [of _ t] exI [of _ s']) auto
    qed
  qed
qed

end
