(* ===== verification/SchedDemo.thy ===== *)
theory SchedDemo
  imports VmFault ThreadLife
begin

text \<open>
  A system of two CPUs, used as the concrete input of the witnesses: on CPU 0 a thread runs and
  two wait to run, CPU 1 idles and its last thread sleeps on the one wait channel. Each thread
  has its two blocks of a booted kernel heap, the channel has one.
\<close>

section \<open>Blocks\<close>

definition room :: "nat \<Rightarrow> kheap \<Rightarrow> bool" where
  "room n h \<longleftrightarrow> card (used h) + n < NPAGEREFS \<and> unat (firstpaddr (kram h)) + n * 4096 \<le> unat (lastpaddr (kram h))"

lemma own_more:
  assumes ok: "own_ok h own" and r: "room (Suc n) h" and g: "own g = None"
  shows "\<exists>a h'. own_ok h' (own(g \<mapsto> a)) \<and> room n h'"
proof -
  have inv: "heap_inv h" using ok by (simp add: own_ok_def)
  obtain a h' where k: "kmalloc 112 h = Inr (a, h')" "new_pages h h'" "gained 112 h a h'"
    by (rule kmalloc_gets [OF inv, of 112]) (use r in \<open>auto simp: room_def\<close>)
  have "own_ok h' (own(g \<mapsto> a))" using own_alloc [OF ok, of 112] k(1,3) g by (auto simp: gained_def)
  moreover have "room n h'" using r k(2) by (auto simp: room_def new_pages_def)
  ultimately show ?thesis by blast
qed

lemma own_many: "own_ok h Map.empty \<Longrightarrow> room n h \<Longrightarrow> \<exists>h' own. own_ok h' own \<and> dom own = TStruct ` {..<n} "
proof -
  assume h: "own_ok h Map.empty" "room n h"
  have "\<exists>h' own. own_ok h' own \<and> dom own = TStruct ` {..<k} \<and> room (n - k) h'" if "k \<le> n" for k
    using that
  proof (induction k)
    case 0
    then show ?case using h by (intro exI [of _ h] exI [of _ Map.empty]) simp
  next
    case (Suc k)
    then obtain h1 own where o: "own_ok h1 own" "dom own = TStruct ` {..<k}" "room (Suc (n - Suc k)) h1" by (auto simp: Suc_diff_Suc)
    have "own (TStruct k) = None" using o(2) by (auto simp: domIff [symmetric])
    then obtain a h' where "own_ok h' (own(TStruct k \<mapsto> a))" "room (n - Suc k) h'" using own_more [OF o(1,3)] by blast
    moreover have "dom (own(TStruct k \<mapsto> a)) = TStruct ` {..<Suc k}" using o(2) by (auto simp: lessThan_Suc)
    ultimately show ?case by blast
  qed
  from this [of n] show ?thesis by auto
qed

lemma blocks_exist:
  "\<exists>h as. heap_inv h \<and> length as = 9 \<and> distinct as \<and> (\<forall>a \<in> set as. \<exists>z. (a, z) \<in> allocated h)"
proof -
  let ?h = "heap_boot small_ram (\<lambda>_. 0)"
  have "own_ok ?h Map.empty" using heap_boot_inv [OF small_ram_wf] by (simp add: own_ok_def)
  moreover have "room 9 ?h" using heap_boot_used [of small_ram "\<lambda>_. 0"]
    by (simp add: room_def NPAGEREFS_def) (simp add: heap_boot_def small_ram_def)
  ultimately obtain h own where o: "own_ok h own" "dom own = TStruct ` {..<9}" using own_many by blast
  let ?as = "map (\<lambda>i. the (own (TStruct i))) [0..<9]"
  have d: "own (TStruct i) = Some (the (own (TStruct i)))" if "i < 9" for i
    using that o(2) by (metis domIff image_eqI lessThan_iff option.exhaust_sel)
  have "inj_on (\<lambda>i. the (own (TStruct i))) {0..<9}"
  proof (rule inj_onI)
    fix i j assume ij: "i \<in> {0..<9}" "j \<in> {0..<9}" "the (own (TStruct i)) = the (own (TStruct j))"
    have "own (TStruct i) = Some (the (own (TStruct j)))" unfolding ij(3) [symmetric] by (rule d) (use ij in simp)
    then have "own (TStruct i) = own (TStruct j)" by (rule trans) (rule d [symmetric], use ij in simp)
    moreover have "inj_on own (dom own)" using o(1) by (simp add: own_ok_def)
    moreover have "TStruct i \<in> dom own" "TStruct j \<in> dom own" using o(2) ij by auto
    ultimately have "TStruct i = TStruct j" by (intro inj_onD [of own "dom own"])
    then show "i = j" by simp
  qed
  then have "distinct ?as" by (simp add: distinct_map del: upt_Suc)
  moreover have "\<exists>z. (a, z) \<in> allocated h" if a: "a \<in> set ?as" for a
  proof -
    obtain i where i: "i < 9" "a = the (own (TStruct i))" using a by (auto simp del: upt_Suc)
    then have "a \<in> ran own" using ranI [of own "TStruct i", OF d [OF i(1)]] by simp
    then show ?thesis using o(1) by (simp add: own_ok_def)
  qed
  moreover have "heap_inv h" using o(1) by (simp add: own_ok_def)
  ultimately show ?thesis by (intro exI [of _ h] exI [of _ ?as]) (simp del: upt_Suc)
qed

section \<open>The state\<close>

definition demo_thread :: "u32 \<Rightarrow> threadstate \<Rightarrow> nat \<Rightarrow> u32 \<Rightarrow> thread" where
  "demo_thread nm st c a = \<lparr>t_pid = 1, t_id = 1, t_name = nm, t_wchan_name = None, t_state = st, t_stack = 0,
     t_cpu = Some c, t_in_interrupt = False, t_addrspace = a, t_cwd = 0\<rparr>"

definition demo_cpu :: "nat \<Rightarrow> bool \<Rightarrow> cpu" where
  "demo_cpu t idle = \<lparr>c_curthread = Some t, c_isidle = idle, c_ipi_pending = 0, c_shootdown = replicate 16 (0, 0),
     c_numshootdown = 0, c_tlb = \<lparr>tlb = replicate 64 \<lparr>entryhi = 0x1000, entrylo = 0x200\<rparr>, last_tlb_entry = 0\<rparr>\<rparr>"

definition demo_lists :: "nat \<Rightarrow> nat \<Rightarrow> nat \<Rightarrow> nat \<Rightarrow> nat \<rightharpoonup> nat list" where
  "demo_lists u y v w = [runq 0 \<mapsto> [u, y], zombq 0 \<mapsto> [], runq 1 \<mapsto> [], zombq 1 \<mapsto> [], wchanq w \<mapsto> [v]]"

definition demo_sys :: "u32 list \<Rightarrow> kheap \<Rightarrow> tlstore \<Rightarrow> tsys" where
  "demo_sys as h l = \<lparr>allcpus = [demo_cpu (unat (as ! 0)) False, demo_cpu (unat (as ! 3)) True], tls = l,
     thr = [unat (as ! 0) \<mapsto> demo_thread (as ! 4) S_RUN 0 0, unat (as ! 1) \<mapsto> demo_thread (as ! 5) S_READY 0 0x80001000,
       unat (as ! 2) \<mapsto> demo_thread (as ! 6) S_READY 0 0, unat (as ! 3) \<mapsto> demo_thread (as ! 7) S_SLEEP 1 0],
     wchans = [unat (as ! 8) \<mapsto> ''demo''], vnodes = Map.empty, tvm = demo\<lparr>kh := h\<rparr>, gpid = 5, t_id_counter = 5\<rparr>"

lemma inj_on_map_of:
  assumes "distinct gs" "distinct as" "length gs = length as"
  shows "inj_on (map_of (zip gs as)) (dom (map_of (zip gs as)))"
proof (rule inj_onI)
  fix g k assume a: "g \<in> dom (map_of (zip gs as))" "k \<in> dom (map_of (zip gs as))" and e: "map_of (zip gs as) g = map_of (zip gs as) k"
  obtain i j where "i < length gs" "g = gs ! i" "j < length gs" "k = gs ! j" using a assms(3) by (auto simp: in_set_conv_nth)
  then show "g = k" using e assms map_of_zip_nth [OF assms(3,1)] nth_eq_iff_index_eq [OF assms(2)] by simp
qed

lemma demo_tls:
  assumes "distinct [t, u, y, v]"
  shows "\<exists>l. lists_inv (demo_lists u y v w) {t, u, y, v} l"
proof -
  let ?l0 = "\<lparr>tl_nodes = \<lambda>_. \<lparr>tln_prev = None, tln_next = None, tln_self = None\<rparr>, tl_count = \<lambda>_. 0\<rparr>"
  have "lists_inv Map.empty {} ?l0" by (simp add: lists_inv_def)
  then obtain l1 where l1: "lists_inv Map.empty {v} l1" using threadlistnode_init_inv [of Map.empty "{}" ?l0 v] by auto
  then obtain l2 where "lists_inv Map.empty {y, v} l2" using threadlistnode_init_inv [of Map.empty "{v}" l1 y] assms by auto
  then obtain l3 where "lists_inv Map.empty {u, y, v} l3" using threadlistnode_init_inv [of Map.empty "{y, v}" l2 u] assms by auto
  then obtain l4 where l4: "lists_inv Map.empty {t, u, y, v} l4" using threadlistnode_init_inv [of Map.empty "{u, y, v}" l3 t] assms by auto
  let ?T = "{t, u, y, v}"
  let ?E = "[runq 0 \<mapsto> [], zombq 0 \<mapsto> [], runq 1 \<mapsto> [], zombq 1 \<mapsto> [], wchanq w \<mapsto> []]"
  have "\<exists>l. lists_inv ?E ?T l"
    by (intro exI, rule threadlist_init_inv, rule threadlist_init_inv, rule threadlist_init_inv, rule threadlist_init_inv,
      rule threadlist_init_inv, rule l4) simp_all
  then obtain l5 where l5: "lists_inv ?E ?T l5" by blast
  let ?E1 = "?E(runq 0 \<mapsto> [] @ [u])"
  have 0: "off_lists ?E z" for z by (simp add: off_lists_def)
  obtain l6 where l6: "lists_inv ?E1 ?T l6"
    using tlists.enq [OF l5, of "runq 0" "[]" u] 0 by auto
  let ?E2 = "?E1(runq 0 \<mapsto> ([] @ [u]) @ [y])"
  have 1: "off_lists ?E1 z" if "z \<noteq> u" for z using that by (simp add: off_lists_def)
  obtain l7 where l7: "lists_inv ?E2 ?T l7"
    using tlists.enq [OF l6, of "runq 0" "[] @ [u]" y] 1 [of y] assms by auto
  let ?E3 = "?E2(wchanq w \<mapsto> [] @ [v])"
  have 2: "off_lists ?E2 v" using assms by (simp add: off_lists_def)
  obtain l8 where "lists_inv ?E3 ?T l8"
    using tlists.enq [OF l7, of "wchanq w" "[]" v] 2 by auto
  moreover have "?E3 = demo_lists u y v w" by (auto simp: demo_lists_def fun_eq_iff)
  ultimately show ?thesis by auto
qed

lemma nine: "length as = 9 \<Longrightarrow> as = [as ! 0, as ! 1, as ! 2, as ! 3, as ! 4, as ! 5, as ! 6, as ! 7, as ! 8]"
  by (auto simp: numeral_eq_Suc length_Suc_conv)

lemma demo_sys_ok:
  "\<exists>as h l. sys_ok {} (demo_lists (unat (as ! 1)) (unat (as ! 2)) (unat (as ! 3)) (unat (as ! 8))) (demo_sys as h l)
    \<and> length as = 9 \<and> distinct as"
proof -
  obtain h and as :: "u32 list" where h: "heap_inv h" "length as = 9" "distinct as" "\<forall>a \<in> set as. \<exists>z. (a, z) \<in> allocated h"
    using blocks_exist by blast
  obtain a b c d e f g i j where as: "as = [a, b, c, d, e, f, g, i, j]" using nine [OF h(2)] by blast
  have dist: "distinct [a, b, c, d, e, f, g, i, j]" using h(3) as by simp
  let ?t = "unat a" and ?u = "unat b" and ?y = "unat c" and ?v = "unat d" and ?w = "unat j"
  have ne: "distinct [?t, ?u, ?y, ?v]" using dist by (simp add: word_unat_eq_iff)
  then obtain l where l: "lists_inv (demo_lists ?u ?y ?v ?w) {?t, ?u, ?y, ?v} l" using demo_tls by blast
  let ?s = "demo_sys as h l" and ?L = "demo_lists ?u ?y ?v ?w"
  let ?th = "[?t \<mapsto> demo_thread e S_RUN 0 0, ?u \<mapsto> demo_thread f S_READY 0 0x80001000,
       ?y \<mapsto> demo_thread g S_READY 0 0, ?v \<mapsto> demo_thread i S_SLEEP 1 0]"
  have th: "thr ?s = ?th" "dom (wchans ?s) = {?w}" "tls ?s = l" "kh (tvm ?s) = h" "allcpus ?s = [demo_cpu ?t False, demo_cpu ?v True]"
    by (simp_all add: demo_sys_def as)
  have dom: "dom ?th = {?t, ?u, ?y, ?v}" by auto
  have "owned ?th {?w} = map_of (zip [TStruct ?t, TStruct ?u, TStruct ?y, TStruct ?v, TName ?t, TName ?u, TName ?y, TName ?v, WStruct ?w] as)"
    using ne unfolding as by (auto simp: fun_eq_iff owned_def demo_thread_def split: owner.split)
  moreover have "inj_on (map_of (zip [TStruct ?t, TStruct ?u, TStruct ?y, TStruct ?v, TName ?t, TName ?u, TName ?y, TName ?v, WStruct ?w] as))
      (dom (map_of (zip [TStruct ?t, TStruct ?u, TStruct ?y, TStruct ?v, TName ?t, TName ?u, TName ?y, TName ?v, WStruct ?w] as)))"
    using ne h(2,3) by (intro inj_on_map_of) simp_all
  moreover have "ran (map_of (zip gs as)) \<subseteq> set as" for gs :: "owner list"
    by (auto simp: ran_def dest!: map_of_SomeD set_zip_rightD)
  ultimately have "own_ok h (owned ?th {?w})" using h(1,4) by (auto simp: own_ok_def)
  moreover have "unat x < 2 ^ 32" for x :: u32 using unsigned_less [of x] by simp
  moreover have st: "t_stack x = 0" if "?th z = Some x" for z x
    using that by (simp add: demo_thread_def split: if_splits) auto
  moreover have "stack_ok h (t_stack x)" if "x \<in> ran ?th" for x
    using that st unfolding ran_def stack_ok_def by blast
  ultimately have "mem_ok h ?th {?w}" unfolding mem_ok_def dom by blast
  moreover have "sched_core {} ?L [demo_cpu ?t False, demo_cpu ?v True] ?th {?w}"
  proof (rule sched_coreI)
    show "dom ?L = lists_of {} (length [demo_cpu ?t False, demo_cpu ?v True]) {?w}"
      by (auto simp: demo_lists_def lists_of_def lessThan_Suc numeral_2_eq_2)
    show "place_ok q x" if "?L q = Some qs" "z \<in> set qs" "?th z = Some x" for q qs z x
      using that ne by (auto simp: demo_lists_def demo_thread_def place_ok_def split: if_splits)
    show "cpu_ok ?L ?th k ([demo_cpu ?t False, demo_cpu ?v True] ! k)" if "k < length [demo_cpu ?t False, demo_cpu ?v True]" for k
      using that ne by (cases k) (auto simp: cpu_ok_def demo_cpu_def demo_thread_def off_lists_def demo_lists_def)
    show "thread_ok ?L [demo_cpu ?t False, demo_cpu ?v True] z x" if "?th z = Some x" for z x
      using that ne by (auto simp: thread_ok_def demo_cpu_def demo_thread_def off_lists_def demo_lists_def split: if_splits)
  qed
  ultimately have "sys_ok {} ?L ?s" using l th dom by (intro sys_okI) simp_all
  moreover have "b = as ! 1" "c = as ! 2" "d = as ! 3" "j = as ! 8" by (simp_all add: as)
  ultimately show ?thesis using h(2,3) by metis
qed

lemma demo_state:
  obtains s t u y v w tx ux vx where "sys_ok {} (demo_lists u y v w) s" "distinct [t, u, y, v]" "length (allcpus s) = 2"
    "\<not> c_isidle (allcpus s ! 0)" "c_curthread (allcpus s ! 0) = Some t" "thr s t = Some tx" "t_cwd tx = 0" "t_addrspace tx = 0"
    "\<not> t_in_interrupt tx" "thr s u = Some ux" "t_addrspace ux \<noteq> 0" "thr s v = Some vx" "t_cpu vx = Some 1" "wchans s w \<noteq> None"
    "length (tlb (c_tlb (allcpus s ! 0))) = NUM_TLB" "c_isidle (allcpus s ! 1)" "dom (thr s) = {t, u, y, v}"
    "length (c_shootdown (allcpus s ! 0)) = 16" "c_numshootdown (allcpus s ! 0) = 0" "c_ipi_pending (allcpus s ! 0) = 0"
proof -
  obtain as h l where ok: "sys_ok {} (demo_lists (unat (as ! 1)) (unat (as ! 2)) (unat (as ! 3)) (unat (as ! 8))) (demo_sys as h l)"
      and as: "length as = 9" "distinct as"
    using demo_sys_ok by blast
  have ne: "unat (as ! i) \<noteq> unat (as ! j)" if "i < j" "j < 9" for i j
    using that as by (auto simp: word_unat_eq_iff [symmetric] nth_eq_iff_index_eq)
  note ne = ne [of 0 1] ne [of 0 2] ne [of 0 3] ne [of 1 2] ne [of 1 3] ne [of 2 3]
  have dom: "dom (thr (demo_sys as h l)) = {unat (as ! 0), unat (as ! 1), unat (as ! 2), unat (as ! 3)}" by (auto simp: demo_sys_def)
  show thesis
    by (rule that [OF ok, of "unat (as ! 0)" "demo_thread (as ! 4) S_RUN 0 0" "demo_thread (as ! 5) S_READY 0 0x80001000"
        "demo_thread (as ! 7) S_SLEEP 1 0"])
      (use ne dom in \<open>simp_all add: demo_sys_def demo_cpu_def demo_thread_def NUM_TLB_def\<close>)
qed

lemma demo_queues [simp]: "demo_lists u y v w (runq 0) = Some [u, y]" "demo_lists u y v w (runq 1) = Some []"
  "demo_lists u y v w (zombq 0) = Some []" "demo_lists u y v w (wchanq w) = Some [v]"
  by (simp_all add: demo_lists_def)

end
