(* ===== verification/ThreadSys.thy ===== *)
theory ThreadSys
  imports SchedDemo
begin

text \<open>
  The thread system as a whole: wait channels, exit, interrupts, and runs of operations. Every
  legal operation returns and keeps the invariant, threads are never lost, and threads that are
  ready or woken run in the order in which they were queued.
\<close>

section \<open>Wait channels\<close>

lemma wchan_create_spec:
  assumes ok: "sys_ok X L s"
  shows "\<exists>r s'. wchan_create name s = Inr (r, s') \<and> allcpus s' = allcpus s \<and> thr s' = thr s
    \<and> (case r of None \<Rightarrow> sys_ok X L s' \<and> wchans s' = wchans s
       | Some w \<Rightarrow> wchans s w = None \<and> wchans s' = (wchans s)(w \<mapsto> name) \<and> sys_ok X (L(wchanq w \<mapsto> [])) s')"
proof -
  note D = sys_okD [OF ok]
  let ?W = "dom (wchans s)" and ?own = "owned (thr s) (dom (wchans s))"
  have own: "own_ok (kh (tvm s)) ?own" using D(3) by (simp add: mem_ok_def)
  obtain p h1 where p: "kmalloc sizeof_wchan (kh (tvm s)) = Inr (p, h1)" "\<forall>k. stack_ok (kh (tvm s)) k \<longrightarrow> stack_ok h1 k" "own_ok h1 ?own"
      "p \<noteq> 0 \<longrightarrow> p \<notin> ran ?own \<and> (\<forall>g. ?own g = None \<longrightarrow> own_ok h1 (?own(g \<mapsto> p)))"
    using own_alloc [OF own, of sizeof_wchan] by (auto simp: sizeof_wchan_def)
  note mem1 = mem_ok_heap [OF D(3) p(3,2)]
  show ?thesis
  proof (cases "p = 0")
    case True
    let ?s = "s\<lparr>tvm := (tvm s)\<lparr>kh := h1\<rparr>\<rparr>"
    have "sys_ok X L ?s" using D(1,2) mem1 by (intro sys_okI) simp_all
    moreover have "wchan_create name s = Inr (None, ?s)" using p(1) True by (simp add: wchan_create_def t_kmalloc_def vm_kmalloc_def)
    ultimately show ?thesis by (intro exI [of _ None] exI [of _ ?s]) simp
  next
    case False
    define w where "w = unat p"
    have w: "of_nat w = p" "w < 2 ^ 32" using unsigned_less [of p] by (simp_all add: w_def)
    have new: "wchans s w = None"
    proof (rule ccontr)
      assume "wchans s w \<noteq> None"
      then have "?own (WStruct w) = Some p" using w(1) by (auto simp: owned_def)
      then show False using p(4) False by (auto intro: ranI)
    qed
    have Lw: "L (wchanq w) = None" using queue_exists(3) [OF ok, of w] new by simp
    let ?s = "s\<lparr>tvm := (tvm s)\<lparr>kh := h1\<rparr>, tls := threadlist_init (wchanq w) (tls s), wchans := (wchans s)(w \<mapsto> name)\<rparr>"
    have "?own (WStruct w) = None" using new by (auto simp: owned_def)
    then have "own_ok h1 (?own(WStruct w \<mapsto> p))" using p(4) False by blast
    then have "mem_ok h1 (thr s) (insert w ?W)" using mem1 w by (simp add: mem_ok_def owned_chan)
    moreover have "sched_core X (L(wchanq w \<mapsto> [])) (allcpus s) (thr s) (insert w ?W)"
      by (rule core_lists [OF D(2)]) (use Lw sched_coreD(1) [OF D(2)] in \<open>auto simp: lists_of_def\<close>)
    ultimately have "sys_ok X (L(wchanq w \<mapsto> [])) ?s" using threadlist_init_inv [OF D(1) Lw] by (intro sys_okI) simp_all
    moreover have "wchan_create name s = Inr (Some w, ?s)"
      using p(1) False by (simp add: wchan_create_def t_kmalloc_def vm_kmalloc_def w_def Let_def)
    ultimately show ?thesis using new by (intro exI [of _ "Some w"] exI [of _ ?s]) simp
  qed
qed

lemma wchan_destroy_spec:
  assumes ok: "sys_ok X L s" and l: "L (wchanq w) = Some []"
  shows "\<exists>s'. wchan_destroy w s = Inr s' \<and> sys_ok X (L(wchanq w := None)) s' \<and> allcpus s' = allcpus s \<and> thr s' = thr s
    \<and> wchans s' = (wchans s)(w := None)"
proof -
  note D = sys_okD [OF ok]
  obtain nm where w: "wchans s w = Some nm" using queue_exists(3) [OF ok, of w] l by auto
  let ?W = "dom (wchans s)" and ?own = "owned (thr s) (dom (wchans s))"
  have own: "own_ok (kh (tvm s)) ?own" using D(3) by (simp add: mem_ok_def)
  have "?own (WStruct w) = Some (of_nat w)" using w by (auto simp: owned_def)
  then obtain h' where h': "kfree (of_nat w) (kh (tvm s)) = Inr h'" "own_ok h' (?own(WStruct w := None))" "\<forall>k. stack_ok (kh (tvm s)) k \<longrightarrow> stack_ok h' k"
    using own_free [OF own] by blast
  let ?s = "s\<lparr>tvm := (tvm s)\<lparr>kh := h'\<rparr>, wchans := (wchans s)(w := None)\<rparr>"
  have "mem_ok h' (thr s) (?W - {w})" using D(3) h'(2,3) by (auto simp: mem_ok_def owned_chan)
  moreover have "dom (L(wchanq w := None)) = lists_of X (length (allcpus s)) (?W - {w})"
    using sched_coreD(1) [OF D(2)] by (auto simp: lists_of_def)
  then have "sched_core X (L(wchanq w := None)) (allcpus s) (thr s) (?W - {w})" using l by (intro core_lists [OF D(2)]) auto
  ultimately have "sys_ok X (L(wchanq w := None)) ?s" using threadlist_cleanup_inv(2) [OF D(1) l] by (intro sys_okI) simp_all
  moreover have "wchan_destroy w s = Inr ?s"
    using w h'(1) threadlist_cleanup_inv(1) [OF D(1) l] by (simp add: wchan_destroy_def t_kfree_def vm_kfree_def)
  ultimately show ?thesis by (intro exI [of _ ?s]) simp
qed

section \<open>Exit\<close>

text \<open>Fields of a running thread that say nothing of its place may change.\<close>

lemma running_update:
  assumes ok: "sys_ok X L s" and t: "thr s t = Some x" "off_lists L t"
    and x': "t_cpu x' = t_cpu x" "t_state x' = t_state x" "t_name x' = t_name x" "t_stack x' = t_stack x"
    and s': "thr s' = (thr s)(t \<mapsto> x')" "tls s' = tls s" "allcpus s' = allcpus s" "wchans s' = wchans s" "kh (tvm s') = kh (tvm s)"
  shows "sys_ok X L s'"
proof -
  note D = sys_okD [OF ok] and C = sched_coreD [OF sys_okD(2) [OF ok]]
  have dom: "dom (thr s') = dom (thr s)" using s'(1) t(1) by auto
  have "sched_core X L (allcpus s) ((thr s)(t \<mapsto> x')) (dom (wchans s))"
  proof (rule sched_coreI)
    show "place_ok l y" if "L l = Some qs" "u \<in> set qs" "((thr s)(t \<mapsto> x')) u = Some y" for l qs u y
      using that C(2) [of l qs u y] off_listsD [OF t(2)] by (auto split: if_splits)
    show "cpu_ok L ((thr s)(t \<mapsto> x')) c (allcpus s ! c)" if "c < length (allcpus s)" for c
      using C(3) [OF that] t(1) x' by (auto simp: cpu_ok_def)
    show "thread_ok L (allcpus s) u y" if "((thr s)(t \<mapsto> x')) u = Some y" for u y
      using that C(4) [of u y] C(4) [OF t(1)] x'(1) by (auto simp: thread_ok_def split: if_splits)
  qed (rule C(1))
  then show ?thesis using D(1) mem_ok_update [OF D(3) t(1) x'(3,4)] s' dom by (intro sys_okI) simp_all
qed

text \<open>What a kernel thread may rely on when it exits: others still use its working directory.\<close>

definition may_exit :: "tsys \<Rightarrow> thread \<Rightarrow> bool" where
  "may_exit s x \<longleftrightarrow> t_addrspace x = 0 \<and> (t_cwd x = 0 \<or> (\<exists>v. vnodes s (t_cwd x) = Some v \<and> vn_refcount v > 1))"

lemma thread_exit_eq:
  assumes ok: "sys_ok X L s" and me: "me < length (allcpus s)" "\<not> c_isidle (allcpus s ! me)"
    and t: "c_curthread (allcpus s ! me) = Some t" "thr s t = Some x" and ex: "may_exit s x"
  shows "\<exists>s1. thread_exit reclaim me s = thread_switch me S_ZOMBIE None s1 \<and> sys_ok X L s1 \<and> allcpus s1 = allcpus s
    \<and> wchans s1 = wchans s \<and> thr s1 = (thr s)(t \<mapsto> x\<lparr>t_cwd := 0\<rparr>)"
proof -
  obtain cur: "curthread me s = Inr t" "off_lists L t" using current_thread [OF ok me(1)] t me(2) by (metis option.inject)
  have st: "stack_ok (kh (tvm s)) (t_stack x)" using sys_okD(3) [OF ok] t(2) by (auto simp: mem_ok_def intro: ranI)
  show ?thesis
  proof (cases "t_cwd x = 0")
    case True
    have "x\<lparr>t_cwd := 0\<rparr> = x" using True by (cases x) simp
    then have "(thr s)(t \<mapsto> x\<lparr>t_cwd := 0\<rparr>) = thr s" using t(2) by auto
    moreover have "thread_exit reclaim me s = thread_switch me S_ZOMBIE None s"
      using cur(1) t ex True stack_ok_check [OF st] by (simp add: thread_exit_def may_exit_def)
    ultimately show ?thesis using ok by (intro exI [of _ s]) simp
  next
    case False
    then obtain v where v: "vnodes s (t_cwd x) = Some v" "vn_refcount v > 1" using ex by (auto simp: may_exit_def)
    let ?s = "s\<lparr>vnodes := (vnodes s)(t_cwd x \<mapsto> v\<lparr>vn_refcount := vn_refcount v - 1\<rparr>), thr := (thr s)(t \<mapsto> x\<lparr>t_cwd := 0\<rparr>)\<rparr>"
    have "thread_checkstack (t_stack x) ?s = Inr ()" using st by (intro stack_ok_check) simp
    then have "thread_exit reclaim me s = thread_switch me S_ZOMBIE None ?s"
      using cur(1) t ex False v by (simp add: thread_exit_def may_exit_def vnode_decref_def set_thread_def)
    moreover have "sys_ok X L ?s" by (rule running_update [OF ok t(2) cur(2), of "x\<lparr>t_cwd := 0\<rparr>"]) simp_all
    ultimately show ?thesis by (intro exI [of _ ?s]) simp
  qed
qed

text \<open>The outcome of leaving the CPU: some invariant again, and the thread is where it was sent.\<close>

lemma leave_cpu:
  assumes ok: "sys_ok X L s" and me: "me < length (allcpus s)" "\<not> c_isidle (allcpus s ! me)"
    and t: "c_curthread (allcpus s ! me) = Some t" "thr s t = Some x"
    and l: "leaves_to me newstate wc x l" "L l = Some qs" "newstate = S_READY \<longrightarrow> qs \<noteq> []"
  shows "\<exists>s' L'. thread_switch me newstate wc s = Inr s' \<and> sys_ok X L' s' \<and> wchans s' = wchans s \<and> length (allcpus s') = length (allcpus s)"
proof -
  let ?L = "L(l \<mapsto> qs @ [t])"
  obtain rs where rs: "?L (runq me) = Some rs" using queue_exists(1) [OF ok me(1)] by (cases "l = runq me") auto
  obtain zs where zs: "?L (zombq me) = Some zs" using queue_exists(2) [OF ok me(1)] by (cases "l = zombq me") auto
  note sw = thread_switch_spec [OF ok me t l]
  show ?thesis
  proof (cases rs)
    case Nil
    then show ?thesis using conjunct1 [OF sw] rs by (auto simp: other_cpus_def)
  next
    case (Cons u us)
    then show ?thesis using conjunct2 [OF sw, rule_format, of u us zs] rs zs by (auto simp: other_cpus_def)
  qed
qed

section \<open>Operations and runs\<close>

text \<open>
  The entry points of the thread system: those a thread calls on its CPU, those an interrupt
  handler calls, and the idle loop of a CPU taking up a thread again.
\<close>

datatype sop = Yield nat | Sleep nat nat | Exit nat | Resume nat | WakeOne nat | WakeAll nat nat | Migrate nat
  | Fork nat string | NewChan string | DelChan nat | Ipi nat

fun exec :: "(u32 \<Rightarrow> tsys \<Rightarrow> tsys res) \<Rightarrow> sop \<Rightarrow> tsys \<Rightarrow> tsys res" where
  "exec reclaim (Yield me) s = thread_yield me s"
| "exec reclaim (Sleep me w) s = wchan_sleep me w s"
| "exec reclaim (Exit me) s = thread_exit reclaim me s"
| "exec reclaim (Resume me) s = rbind (switch_next me s) (\<lambda>(_, s). Inr s)"
| "exec reclaim (WakeOne w) s = wchan_wakeone w s"
| "exec reclaim (WakeAll me w) s = wchan_wakeall me w s"
| "exec reclaim (Migrate me) s = thread_consider_migration me s"
| "exec reclaim (Fork me name) s = rbind (thread_fork me name s) (\<lambda>(_, _, s). Inr s)"
| "exec reclaim (NewChan name) s = rbind (wchan_create name s) (\<lambda>(_, s). Inr s)"
| "exec reclaim (DelChan w) s = wchan_destroy w s"
| "exec reclaim (Ipi me) s = interprocessor_interrupt me s"

definition busy :: "tsys \<Rightarrow> nat \<Rightarrow> (thread \<Rightarrow> bool) \<Rightarrow> bool" where
  "busy s me P \<longleftrightarrow> me < length (allcpus s) \<and> \<not> c_isidle (allcpus s ! me)
     \<and> (case c_curthread (allcpus s ! me) of None \<Rightarrow> False | Some t \<Rightarrow> (case thr s t of None \<Rightarrow> False | Some x \<Rightarrow> P x))"

text \<open>When the operations may be called.\<close>

fun legal :: "sop \<Rightarrow> tsys \<Rightarrow> bool" where
  "legal (Yield me) s \<longleftrightarrow> me < length (allcpus s)"
| "legal (Sleep me w) s \<longleftrightarrow> busy s me (\<lambda>x. \<not> t_in_interrupt x) \<and> wchans s w \<noteq> None"
| "legal (Exit me) s \<longleftrightarrow> busy s me (may_exit s)"
| "legal (Resume me) s \<longleftrightarrow> me < length (allcpus s) \<and> c_isidle (allcpus s ! me)"
| "legal (WakeOne w) s \<longleftrightarrow> wchans s w \<noteq> None"
| "legal (WakeAll me w) s \<longleftrightarrow> me < length (allcpus s) \<and> wchans s w \<noteq> None"
| "legal (Migrate me) s \<longleftrightarrow> me < length (allcpus s)"
| "legal (Fork me name) s \<longleftrightarrow> busy s me (\<lambda>x. t_cwd x = 0 \<or> vnodes s (t_cwd x) \<noteq> None)
     \<and> length name < 2047 \<and> card (dom (thr s)) + 1 < 2 ^ 32"
| "legal (NewChan name) s \<longleftrightarrow> True"
| "legal (DelChan w) s \<longleftrightarrow> wchans s w \<noteq> None \<and> threadlist_isempty (wchanq w) (tls s)"
| "legal (Ipi me) s \<longleftrightarrow> me < length (allcpus s) \<and> \<not> bit (c_ipi_pending (allcpus s ! me)) IPI_PANIC
     \<and> \<not> bit (c_ipi_pending (allcpus s ! me)) IPI_OFFLINE \<and> \<not> bit (c_ipi_pending (allcpus s ! me)) IPI_TLBSHOOTDOWN"

inductive sched_run :: "(u32 \<Rightarrow> tsys \<Rightarrow> tsys res) \<Rightarrow> tsys \<Rightarrow> tsys \<Rightarrow> bool" for reclaim where
  start: "sched_run reclaim s s"
| step: "sched_run reclaim s s1 \<Longrightarrow> legal op s1 \<Longrightarrow> exec reclaim op s1 = Inr s2 \<Longrightarrow> sched_run reclaim s s2"

lemma busyE:
  assumes "busy s me P"
  obtains t x where "me < length (allcpus s)" "\<not> c_isidle (allcpus s ! me)" "c_curthread (allcpus s ! me) = Some t" "thr s t = Some x" "P x"
  using assms by (auto simp: busy_def split: option.splits)

lemma exec_yield:
  assumes ok: "sys_ok X L s" and me: "me < length (allcpus s)"
  shows "\<exists>s' L'. thread_yield me s = Inr s' \<and> sys_ok X L' s'"
proof (cases "c_isidle (allcpus s ! me) \<or> L (runq me) = Some []")
  case True
  then show ?thesis using yield_alone [OF ok me] ok by blast
next
  case False
  obtain u us where "L (runq me) = Some (u # us)" using queue_exists(1) [OF ok me] False by (metis list.exhaust)
  moreover obtain zs where "L (zombq me) = Some zs" using queue_exists(2) [OF ok me] by blast
  moreover obtain t where "c_curthread (allcpus s ! me) = Some t" by (rule current_thread [OF ok me])
  ultimately show ?thesis using yield_rotates [OF ok me] False by blast
qed

lemma exec_sleep:
  assumes ok: "sys_ok X L s" and b: "busy s me (\<lambda>x. \<not> t_in_interrupt x)" and w: "wchans s w \<noteq> None"
  shows "\<exists>s' L'. wchan_sleep me w s = Inr s' \<and> sys_ok X L' s'"
proof (rule busyE [OF b])
  fix t x
  assume me: "me < length (allcpus s)" "\<not> c_isidle (allcpus s ! me)" and t: "c_curthread (allcpus s ! me) = Some t" "thr s t = Some x"
    and i: "\<not> t_in_interrupt x"
  obtain qs where "L (wchanq w) = Some qs" using queue_exists(3) [OF ok, of w] w by auto
  moreover have "leaves_to me S_SLEEP (Some w) x (wchanq w)" by (simp add: leaves_to_def)
  moreover have "wchan_sleep me w s = thread_switch me S_SLEEP (Some w) s"
    using me(1) t i by (simp add: wchan_sleep_def curthread_def nonnull_def)
  ultimately show ?thesis using leave_cpu [OF ok me t] by (metis threadstate.distinct(7))
qed

lemma exec_exit:
  assumes ok: "sys_ok X L s" and b: "busy s me (may_exit s)"
  shows "\<exists>s' L'. thread_exit reclaim me s = Inr s' \<and> sys_ok X L' s'"
proof (rule busyE [OF b])
  fix t x
  assume me: "me < length (allcpus s)" "\<not> c_isidle (allcpus s ! me)" and t: "c_curthread (allcpus s ! me) = Some t" "thr s t = Some x"
    and ex: "may_exit s x"
  obtain s1 where s1: "thread_exit reclaim me s = thread_switch me S_ZOMBIE None s1" "sys_ok X L s1" "allcpus s1 = allcpus s"
      "thr s1 = (thr s)(t \<mapsto> x\<lparr>t_cwd := 0\<rparr>)"
    using thread_exit_eq [OF ok me t ex] by blast
  obtain zs where "L (zombq me) = Some zs" using queue_exists(2) [OF ok me(1)] by blast
  moreover have "leaves_to me S_ZOMBIE None (x\<lparr>t_cwd := 0\<rparr>) (zombq me)" using ex by (simp add: leaves_to_def may_exit_def)
  ultimately show ?thesis using leave_cpu [OF s1(2), of me t "x\<lparr>t_cwd := 0\<rparr>" S_ZOMBIE None "zombq me" zs] me t s1 by auto
qed

lemma exec_resume:
  assumes ok: "sys_ok X L s" and me: "me < length (allcpus s)" "c_isidle (allcpus s ! me)"
  shows "\<exists>r s' L'. switch_next me s = Inr (r, s') \<and> sys_ok X L' s'"
proof -
  obtain rs zs where q: "L (runq me) = Some rs" "L (zombq me) = Some zs" using queue_exists(1,2) [OF ok me(1)] by blast
  show ?thesis
  proof (cases rs)
    case Nil
    then have "threadlist_remhead (runq me) (tls s) = Inr (None, tls s)" using tlists.deq_empty [OF sys_okD(1) [OF ok]] q(1) by simp
    then have "switch_next me s = Inr (False, s)" by (simp add: switch_next_def)
    then show ?thesis using ok by blast
  next
    case (Cons t qs)
    then obtain x where "thr s t = Some x" using listed_thread [OF ok q(1), of t] by auto
    then show ?thesis using switch_next_spec [OF ok me _ q(2)] q(1) Cons by blast
  qed
qed

lemma home_cpu:
  assumes ok: "sys_ok X L s" and x: "thr s t = Some x"
  obtains c rs where "c < length (allcpus s)" "t_cpu x = Some c" "L (runq c) = Some rs"
  using sched_coreD(4) [OF sys_okD(2) [OF ok] x] queue_exists(1) [OF ok] unfolding thread_ok_def by blast

lemma exec_wakeone:
  assumes ok: "sys_ok X L s" and w: "wchans s w \<noteq> None"
  shows "\<exists>s' L'. wchan_wakeone w s = Inr s' \<and> sys_ok X L' s'"
proof -
  obtain qs where q: "L (wchanq w) = Some qs" using queue_exists(3) [OF ok, of w] w by auto
  show ?thesis
  proof (cases qs)
    case Nil
    then show ?thesis using wakeone_empty [OF ok] q ok by blast
  next
    case (Cons t ts)
    then obtain x where x: "thr s t = Some x" using listed_thread [OF ok q, of t] by auto
    obtain c rs where "t_cpu x = Some c" "L (runq c) = Some rs" by (rule home_cpu [OF ok x])
    then show ?thesis using wakeone_spec [OF ok _ x] q Cons by blast
  qed
qed

lemma exec_migrate:
  assumes ok: "sys_ok X L s" and me: "me < length (allcpus s)" "me \<notin> X"
  shows "\<exists>s' L'. thread_consider_migration me s = Inr s' \<and> sys_ok X L' s'"
proof (cases "run_count me s < one_share s")
  case True
  moreover have "0 < length (allcpus s)" using me(1) by linarith
  ultimately show ?thesis using migration_few ok by blast
next
  case False
  obtain rs where "L (runq me) = Some rs" using queue_exists(1) [OF ok me(1)] by blast
  then show ?thesis using migration_spec [OF ok me] False by fastforce
qed

lemma exec_fork:
  assumes ok: "sys_ok X L s" and b: "busy s me (\<lambda>x. t_cwd x = 0 \<or> vnodes s (t_cwd x) \<noteq> None)"
    and n: "length name < 2047" "card (dom (thr s)) + 1 < 2 ^ 32"
  shows "\<exists>e r s' L'. thread_fork me name s = Inr (e, r, s') \<and> sys_ok X L' s'"
proof (rule busyE [OF b])
  fix t x
  assume me: "me < length (allcpus s)" "\<not> c_isidle (allcpus s ! me)" and t: "c_curthread (allcpus s ! me) = Some t" "thr s t = Some x"
    and c: "t_cwd x = 0 \<or> vnodes s (t_cwd x) \<noteq> None"
  obtain qs where qs: "L (runq me) = Some qs" using queue_exists(1) [OF ok me(1)] by blast
  show ?thesis using thread_fork_spec [OF ok me t c n qs] by blast
qed

lemma sys_ok_cpus:
  assumes "sys_ok X L s" "map (\<lambda>k. (c_curthread k, c_isidle k)) cs = map (\<lambda>k. (c_curthread k, c_isidle k)) (allcpus s)"
  shows "sys_ok X L (s\<lparr>allcpus := cs\<rparr>)"
  using sys_okD(1,3) [OF assms(1)] sched_core_cpus [OF sys_okD(2) [OF assms(1)] assms(2)] by (intro sys_okI) simp_all

lemma exec_ipi:
  assumes ok: "sys_ok X L s" and l: "legal (Ipi me) s"
  shows "\<exists>s'. interprocessor_interrupt me s = Inr s' \<and> sys_ok X L s'"
proof -
  let ?s = "s\<lparr>allcpus := (allcpus s)[me := (allcpus s ! me)\<lparr>c_ipi_pending := 0\<rparr>]\<rparr>"
  have "interprocessor_interrupt me s = Inr ?s" using l by (simp add: interprocessor_interrupt_def set_cpu_def)
  moreover have "sys_ok X L ?s" by (rule sys_ok_cpus [OF ok]) (simp add: list_update_view)
  ultimately show ?thesis by blast
qed

lemma exec_spec:
  assumes ok: "sys_ok {} L s" and l: "legal op s"
  shows "\<exists>s' L'. exec reclaim op s = Inr s' \<and> sys_ok {} L' s'"
proof (cases op)
  case (WakeAll me w)
  then obtain qs where "L (wchanq w) = Some qs" using queue_exists(3) [OF ok, of w] l by auto
  then show ?thesis using wakeall_spec [OF ok, of me w qs] WakeAll by auto
next
  case (Resume me)
  then obtain r s' L' where "switch_next me s = Inr (r, s')" "sys_ok {} L' s'" using exec_resume [OF ok, of me] l by auto
  then show ?thesis using Resume by auto
next
  case (Fork me name)
  then obtain e r s' L' where "thread_fork me name s = Inr (e, r, s')" "sys_ok {} L' s'" using exec_fork [OF ok, of me name] l by auto
  then show ?thesis using Fork by auto
next
  case (NewChan name)
  obtain r s' where "wchan_create name s = Inr (r, s')" "case r of None \<Rightarrow> sys_ok {} L s' | Some w \<Rightarrow> sys_ok {} (L(wchanq w \<mapsto> [])) s'"
    using wchan_create_spec [OF ok, of name] by (auto split: option.splits)
  then show ?thesis using NewChan by (auto split: option.splits)
next
  case (DelChan w)
  obtain qs where "L (wchanq w) = Some qs" using queue_exists(3) [OF ok, of w] l DelChan by auto
  moreover from this have "qs = []" using list_empty_iff [OF sys_okD(1) [OF ok]] l DelChan by simp
  ultimately show ?thesis using wchan_destroy_spec [OF ok, of w] DelChan by auto
next
  case (Ipi me)
  then show ?thesis using exec_ipi [OF ok l [unfolded Ipi]] by auto
qed (use l exec_yield [OF ok] exec_sleep [OF ok] exec_exit [OF ok] exec_wakeone [OF ok] exec_migrate [OF ok] in simp_all)

lemma sched_run_inv: "sched_run reclaim s s' \<Longrightarrow> sys_ok {} L s \<Longrightarrow> \<exists>L'. sys_ok {} L' s'"
proof (induction rule: sched_run.induct)
  case (step s s1 op s2)
  then show ?case using exec_spec [of _ s1 op reclaim] by fastforce
qed blast

text \<open>The one place of a thread.\<close>

definition runs_on :: "tsys \<Rightarrow> nat \<Rightarrow> nat \<Rightarrow> bool" where
  "runs_on s t c \<longleftrightarrow> c < length (allcpus s) \<and> c_curthread (allcpus s ! c) = Some t \<and> \<not> c_isidle (allcpus s ! c)"

definition waits_on :: "(nat \<rightharpoonup> nat list) \<Rightarrow> nat \<Rightarrow> nat \<Rightarrow> bool" where
  "waits_on L t l \<longleftrightarrow> (\<exists>qs. L l = Some qs \<and> t \<in> set qs)"

lemma one_place:
  assumes ok: "sys_ok X L s" and t: "thr s t = Some x"
  shows "(\<exists>!c. runs_on s t c) \<and> (\<forall>l. \<not> waits_on L t l) \<or> (\<forall>c. \<not> runs_on s t c) \<and> (\<exists>!l. waits_on L t l)"
proof -
  have run: "t_cpu x = Some c \<and> off_lists L t" if "runs_on s t c" for c
    using that t unfolding runs_on_def by (metis current_thread [OF ok] option.inject)
  have off: "off_lists L t \<longleftrightarrow> (\<forall>l. \<not> waits_on L t l)" by (auto simp: off_lists_def waits_on_def)
  show ?thesis
  proof (cases "off_lists L t")
    case True
    then obtain c where "runs_on s t c" using sched_coreD(4) [OF sys_okD(2) [OF ok] t] by (auto simp: thread_ok_def runs_on_def)
    then show ?thesis using run True off by (metis option.inject)
  next
    case False
    moreover have "l = m" if "waits_on L t l" "waits_on L t m" for l m
      using that lists_invD(5) [OF sys_okD(1) [OF ok], of l _ m] unfolding waits_on_def by blast
    ultimately show ?thesis using run off by blast
  qed
qed

section \<open>Order\<close>

fun yields :: "nat \<Rightarrow> nat \<Rightarrow> tsys \<Rightarrow> tsys res" where
  "yields 0 me s = Inr s"
| "yields (Suc k) me s = rbind (thread_yield me s) (yields k me)"

lemma yields_rotate:
  assumes "sys_ok X L s" "me < length (allcpus s)" "\<not> c_isidle (allcpus s ! me)" "c_curthread (allcpus s ! me) = Some t" "L (runq me) = Some qs"
  shows "\<exists>s' L' u us. yields k me s = Inr s' \<and> sys_ok X L' s' \<and> \<not> c_isidle (allcpus s' ! me) \<and> c_curthread (allcpus s' ! me) = Some u
    \<and> L' (runq me) = Some us \<and> u # us = rotate k (t # qs)"
  using assms
proof (induction k arbitrary: s L t qs)
  case 0
  then show ?case by (intro exI [of _ s] exI [of _ L]) simp
next
  case (Suc k)
  show ?case
  proof (cases qs)
    case Nil
    then have "thread_yield me s = Inr s" using yield_alone [OF Suc.prems(1,2)] Suc.prems(5) by simp
    then show ?thesis using Suc.IH [OF Suc.prems] Nil by (simp add: rotate1_def)
  next
    case (Cons u us)
    obtain zs where zs: "L (zombq me) = Some zs" using queue_exists(2) [OF Suc.prems(1,2)] by blast
    let ?L = "L(runq me \<mapsto> us @ [t], zombq me \<mapsto> [])"
    obtain s1 where s1: "thread_yield me s = Inr s1" "sys_ok X ?L s1" "c_curthread (allcpus s1 ! me) = Some u" "\<not> c_isidle (allcpus s1 ! me)"
        "length (allcpus s1) = length (allcpus s)"
      using yield_rotates [OF Suc.prems(1-4) _ zs] Suc.prems(5) Cons by (auto simp: other_cpus_def)
    have "?L (runq me) = Some (us @ [t])" by simp
    from Suc.IH [OF s1(2) _ s1(4,3) this] show ?thesis using s1(1,5) Suc.prems(2) Cons by (simp add: rotate1_rotate_swap)
  qed
qed

section \<open>The TLB after a switch\<close>

lemma flush_from_tlb:
  "i + n \<le> NUM_TLB \<Longrightarrow> length (tlb s) = NUM_TLB \<Longrightarrow> length (tlb (flush_from i n s)) = NUM_TLB
    \<and> (\<forall>k < NUM_TLB. entrylo (tlb (flush_from i n s) ! k) = (if i \<le> k \<and> k < i + n then 0 else entrylo (tlb s ! k)))"
proof (induction i n s rule: flush_from.induct)
  case (2 i n s)
  then show ?case by (auto simp: tlb_write_def TLBLO_INVALID_def nth_list_update)
qed auto

lemma probe_from_bound: "probe_from i hi es < i + int (length es) \<or> probe_from i hi es = -1"
  by (induction i hi es rule: probe_from.induct) auto

lemma as_activate_misses:
  assumes "length (tlb s) = NUM_TLB"
  shows "tlb_lookup (as_activate s) va = None"
proof -
  have f: "length (tlb (as_activate s)) = NUM_TLB" "\<And>k. k < NUM_TLB \<Longrightarrow> entrylo (tlb (as_activate s) ! k) = 0"
    using flush_from_tlb [of 0 NUM_TLB s] assms by (auto simp: as_activate_def)
  have "tlb_probe va (as_activate s) < 0 \<or> nat (tlb_probe va (as_activate s)) < NUM_TLB"
    using probe_from_bound [of 0 va "tlb (as_activate s)"] f(1) by (auto simp: tlb_probe_def)
  then show ?thesis using f(2) by (auto simp: tlb_lookup_def Let_def)
qed

section \<open>Shootdown requests\<close>

lemma shootdown_room:
  assumes "c < length (allcpus s)" "c_numshootdown (allcpus s ! c) = int n" "n < 16" "length (c_shootdown (allcpus s ! c)) = 16"
  shows "\<exists>s'. ipi_tlbshootdown c m s = Inr s' \<and> length (allcpus s') = length (allcpus s)
    \<and> c_numshootdown (allcpus s' ! c) = int (Suc n) \<and> length (c_shootdown (allcpus s' ! c)) = 16"
  using assms by (auto simp: ipi_tlbshootdown_def TLBSHOOTDOWN_MAX_def TLBSHOOTDOWN_ALL_def aset_def)

lemma shootdown_fill:
  "c < length (allcpus s) \<Longrightarrow> c_numshootdown (allcpus s ! c) = int n \<Longrightarrow> n + length ms \<le> 16 \<Longrightarrow> length (c_shootdown (allcpus s ! c)) = 16 \<Longrightarrow>
    \<exists>s'. rfold (ipi_tlbshootdown c) ms s = Inr s' \<and> length (allcpus s') = length (allcpus s) \<and> c_numshootdown (allcpus s' ! c) = int (n + length ms)"
proof (induction ms arbitrary: n s)
  case (Cons m ms)
  then obtain s' where "ipi_tlbshootdown c m s = Inr s'" "length (allcpus s') = length (allcpus s)"
      "c_numshootdown (allcpus s' ! c) = int (Suc n)" "length (c_shootdown (allcpus s' ! c)) = 16"
    using shootdown_room [of c s n m] by auto
  then show ?case using Cons.IH [of s' "Suc n"] Cons.prems by auto
qed simp

lemma shootdown_full:
  assumes "c < length (allcpus s)" "c_numshootdown (allcpus s ! c) = 16"
  shows "\<exists>s'. ipi_tlbshootdown c m s = Inr s' \<and> length (allcpus s') = length (allcpus s) \<and> c_numshootdown (allcpus s' ! c) = -1"
  using assms by (auto simp: ipi_tlbshootdown_def TLBSHOOTDOWN_MAX_def TLBSHOOTDOWN_ALL_def)

lemma shootdown_all:
  "c < length (allcpus s) \<Longrightarrow> c_numshootdown (allcpus s ! c) = -1 \<Longrightarrow> ipi_tlbshootdown c m s = Inl OutOfBounds"
  by (simp add: ipi_tlbshootdown_def TLBSHOOTDOWN_MAX_def)

lemma shootdown_many:
  assumes "c < length (allcpus s)" "c_numshootdown (allcpus s ! c) = 0" "length (c_shootdown (allcpus s ! c)) = 16" "17 < length ms"
  shows "rfold (ipi_tlbshootdown c) ms s = Inl OutOfBounds"
proof -
  define ls k m r where "ls = take 16 ms" and "k = ms ! 16" and "m = ms ! 17" and "r = drop 18 ms"
  have "drop 16 ms = k # m # r" using assms(4) Cons_nth_drop_Suc [of 16 ms] Cons_nth_drop_Suc [of 17 ms] by (simp add: k_def m_def r_def)
  then have ms: "ms = ls @ k # m # r" unfolding ls_def by (metis append_take_drop_id)
  have ls: "length ls = 16" using assms(4) by (simp add: ls_def)
  obtain s1 where s1: "rfold (ipi_tlbshootdown c) ls s = Inr s1" "c < length (allcpus s1)" "c_numshootdown (allcpus s1 ! c) = 16"
    using shootdown_fill [of c s 0 ls] assms(1-3) ls by auto
  obtain s2 where s2: "ipi_tlbshootdown c k s1 = Inr s2" "c < length (allcpus s2)" "c_numshootdown (allcpus s2 ! c) = -1"
    using shootdown_full [OF s1(2,3), of k] s1(2) by auto
  show ?thesis unfolding ms using s1(1) s2(1) shootdown_all [OF s2(2,3)] by (simp add: rfold_append)
qed

section \<open>Properties\<close>

text \<open>
  C6: Every legal call of the thread system returns and keeps its invariant: yielding, sleeping,
  exiting, taking up a thread on an idle CPU, waking one or all sleepers, migrating threads,
  forking, creating and destroying wait channels, and interprocessor interrupts. No assertion
  fails, no queue is corrupted, no stack guard is overwritten, and no block of the heap that
  belongs to a thread or a channel is freed twice or shared.
\<close>

theorem operations_return:
  "sys_ok {} L s \<Longrightarrow> legal op s \<Longrightarrow> \<exists>s' L'. exec reclaim op s = Inr s' \<and> sys_ok {} L' s'"
  by (rule exec_spec)

theorem operations_return_witness:
  "\<exists>s w. legal (Sleep 0 w) s \<and> (\<exists>s' L'. exec (\<lambda>_ s. Inr s) (Sleep 0 w) s = Inr s' \<and> sys_ok {} L' s')"
proof (rule demo_state)
  fix s :: tsys and t u y v w tx ux vx
  assume ok: "sys_ok {} (demo_lists u y v w) s" and s: "length (allcpus s) = 2" "\<not> c_isidle (allcpus s ! 0)"
    "c_curthread (allcpus s ! 0) = Some t" "thr s t = Some tx" "\<not> t_in_interrupt tx" "wchans s w \<noteq> None"
  have l: "legal (Sleep 0 w) s" using s by (simp add: busy_def)
  then show ?thesis using operations_return [OF ok l] by blast
qed

text \<open>
  C7: No thread is ever lost or in two places. After any sequence of legal operations, every
  thread that exists either runs on exactly one CPU and is on no queue, or runs nowhere and is on
  exactly one queue: a run queue, a zombie list or a wait channel.
\<close>

theorem threads_never_lost:
  assumes "sys_ok {} L s" "sched_run reclaim s s'"
  shows "\<exists>L'. sys_ok {} L' s' \<and> (\<forall>t x. thr s' t = Some x \<longrightarrow>
    (\<exists>!c. runs_on s' t c) \<and> (\<forall>l. \<not> waits_on L' t l) \<or> (\<forall>c. \<not> runs_on s' t c) \<and> (\<exists>!l. waits_on L' t l))"
  using sched_run_inv [OF assms(2,1)] one_place by blast

theorem threads_never_lost_witness:
  "\<exists>s s' L' t. sched_run (\<lambda>_ s. Inr s) s s' \<and> sys_ok {} L' s' \<and> thr s' t \<noteq> None
    \<and> ((\<exists>!c. runs_on s' t c) \<and> (\<forall>l. \<not> waits_on L' t l) \<or> (\<forall>c. \<not> runs_on s' t c) \<and> (\<exists>!l. waits_on L' t l))"
proof (rule demo_state)
  fix s :: tsys and t u y v w tx ux vx
  assume ok: "sys_ok {} (demo_lists u y v w) s" and s: "thr s t = Some tx"
  have "sched_run (\<lambda>_ s. Inr s) s s" by (rule sched_run.start)
  then show ?thesis using threads_never_lost [OF ok] s by (metis option.distinct(1))
qed

text \<open>
  C8: Round robin. On a busy CPU whose run queue holds \<open>qs\<close> behind the current thread \<open>t\<close>, every
  number of yields returns, and the thread that then runs is the one reached by counting through
  the sequence \<open>t # qs\<close> cyclically. So each ready thread runs after at most as many yields as there
  are threads before it, and none starves.
\<close>

theorem round_robin:
  assumes "sys_ok {} L s" "me < length (allcpus s)" "\<not> c_isidle (allcpus s ! me)" "c_curthread (allcpus s ! me) = Some t" "L (runq me) = Some qs"
  shows "\<exists>s'. yields k me s = Inr s' \<and> c_curthread (allcpus s' ! me) = Some ((t # qs) ! (k mod Suc (length qs)))"
proof -
  obtain s' u us where "yields k me s = Inr s'" "c_curthread (allcpus s' ! me) = Some u" "u # us = rotate k (t # qs)"
    using yields_rotate [OF assms, of k] by blast
  moreover from this have "u = (t # qs) ! (k mod Suc (length qs))" using hd_rotate_conv_nth [of "t # qs" k] by (metis length_Cons list.distinct(1) list.sel(1))
  ultimately show ?thesis by blast
qed

theorem round_robin_witness:
  "\<exists>s s' L u y. L (runq 0) = Some [u, y] \<and> sys_ok {} L s \<and> yields 2 0 s = Inr s' \<and> c_curthread (allcpus s' ! 0) = Some y"
proof (rule demo_state)
  fix s :: tsys and t u y v w tx ux vx
  assume ok: "sys_ok {} (demo_lists u y v w) s" and s: "length (allcpus s) = 2" "\<not> c_isidle (allcpus s ! 0)" "c_curthread (allcpus s ! 0) = Some t"
  have "0 < length (allcpus s)" using s(1) by simp
  from round_robin [OF ok this s(2,3) demo_queues(1), of 2]
  obtain s' where "yields 2 0 s = Inr s'" "c_curthread (allcpus s' ! 0) = Some y" by auto
  then show ?thesis using ok demo_queues(1) by blast
qed

text \<open>
  C15: Waking all sleepers of a channel empties the channel and appends them to the run queues of
  the CPUs they last ran on, in the order in which they went to sleep, behind the threads already
  queued there.
\<close>

theorem wakeall_fifo:
  assumes "sys_ok {} L s" "L (wchanq w) = Some qs"
  shows "\<exists>s' L'. wchan_wakeall me w s = Inr s' \<and> sys_ok {} L' s' \<and> thr s' = thr s \<and> L' (wchanq w) = Some []
    \<and> (\<forall>c < length (allcpus s). L' (runq c) = Some (the (L (runq c)) @ filter (\<lambda>t. home (thr s) t = c) qs))"
proof -
  let ?L = "enqueue (thr s) qs (L(wchanq w \<mapsto> []))"
  obtain l' cs' where s': "wchan_wakeall me w s = Inr (s\<lparr>tls := l', allcpus := cs'\<rparr>)" "sys_ok {} ?L (s\<lparr>tls := l', allcpus := cs'\<rparr>)"
    using wakeall_spec [OF assms(1) _ assms(2), of me] by blast
  have "?L (wchanq w) = Some []" by (simp add: enqueue_other)
  moreover have "?L (runq c) = Some (the (L (runq c)) @ filter (\<lambda>t. home (thr s) t = c) qs)" if c: "c < length (allcpus s)" for c
    using queue_exists(1) [OF assms(1) c] enqueue_runq [of "L(wchanq w \<mapsto> [])" c] by auto
  ultimately show ?thesis using s' by (intro exI [of _ "s\<lparr>tls := l', allcpus := cs'\<rparr>"] exI [of _ ?L]) simp
qed

theorem wakeall_fifo_witness:
  "\<exists>s s' L L' v w. L (wchanq w) = Some [v] \<and> sys_ok {} L s \<and> wchan_wakeall 0 w s = Inr s' \<and> sys_ok {} L' s' \<and> L' (runq 1) = Some [v]"
proof (rule demo_state)
  fix s :: tsys and t u y v w tx ux vx
  assume ok: "sys_ok {} (demo_lists u y v w) s" and s: "length (allcpus s) = 2" "thr s v = Some vx" "t_cpu vx = Some 1"
  obtain s' L' where "wchan_wakeall 0 w s = Inr s'" "sys_ok {} L' s'"
      "\<forall>c < length (allcpus s). L' (runq c) = Some (the (demo_lists u y v w (runq c)) @ filter (\<lambda>t. home (thr s) t = c) [v])"
    using wakeall_fifo [OF ok demo_queues(4), of 0] by blast
  moreover from this(3) have "L' (runq 1) = Some [v]" using s by (simp add: home_def demo_lists_def)
  ultimately show ?thesis using ok demo_queues(4) by blast
qed

text \<open>
  C16: Migration only moves runnable threads between run queues. It returns; the runnable threads
  are the same set as before; a CPU that already has its share gets none and no other CPU gets
  more than its share; the wait channels and zombie lists keep their threads in order; and what
  each CPU runs does not change.
\<close>

theorem migration_conserves:
  assumes "sys_ok {} L s" "me < length (allcpus s)"
  shows "\<exists>s' L'. thread_consider_migration me s = Inr s' \<and> sys_ok {} L' s' \<and> same_cpus (allcpus s) (allcpus s')
    \<and> runnable {..<length (allcpus s)} L' = runnable {..<length (allcpus s)} L
    \<and> grown (others (length (allcpus s)) me) (one_share s) L L'
    \<and> (\<forall>l. (\<forall>c < length (allcpus s). l \<noteq> runq c) \<longrightarrow> L' l = L l)"
proof (cases "run_count me s < one_share s")
  case True
  moreover have "0 < length (allcpus s)" using assms(2) by linarith
  ultimately have "thread_consider_migration me s = Inr s" using migration_few by blast
  moreover have "grown (others (length (allcpus s)) me) (one_share s) L L"
    using queue_exists(1) [OF assms(1)] by (fastforce simp: grown_def others_def)
  moreover have "same_cpus (allcpus s) (allcpus s)" by (simp add: same_cpus_def)
  ultimately show ?thesis using assms(1) by blast
next
  case False
  obtain rs where rs: "L (runq me) = Some rs" using queue_exists(1) [OF assms] by blast
  have "one_share s \<le> run_count me s" using False by (simp add: not_less)
  from migration_spec [OF assms _ this rs] show ?thesis by blast
qed

theorem migration_conserves_witness:
  "\<exists>s s' L L' u y. L (runq 0) = Some [u, y] \<and> L (runq 1) = Some [] \<and> sys_ok {} L s \<and> thread_consider_migration 0 s = Inr s'
    \<and> sys_ok {} L' s' \<and> runnable {..<2} L' = {u, y}"
proof (rule demo_state)
  fix s :: tsys and t u y v w tx ux vx
  assume ok: "sys_ok {} (demo_lists u y v w) s" and s: "length (allcpus s) = 2"
  have "0 < length (allcpus s)" using s by simp
  then obtain s' L' where "thread_consider_migration 0 s = Inr s'" "sys_ok {} L' s'" "runnable {..<2} L' = runnable {..<2} (demo_lists u y v w)"
    using migration_conserves [OF ok, of 0] unfolding s by blast
  moreover have "runnable {..<2} (demo_lists u y v w) = {u, y}"
    by (simp add: runnable_def lessThan_Suc numeral_2_eq_2) (simp add: demo_lists_def)
  ultimately show ?thesis using ok demo_queues(1,2) by blast
qed

text \<open>
  C17: Address spaces are isolated across context switches. When a thread yields to one that has an
  address space, the TLB of that CPU afterwards translates no address at all, whatever it held.
\<close>

theorem switch_flushes_tlb:
  assumes "sys_ok {} L s" "me < length (allcpus s)" "\<not> c_isidle (allcpus s ! me)" "L (runq me) = Some (u # us)"
    "thr s u = Some x" "t_addrspace x \<noteq> 0" "length (tlb (c_tlb (allcpus s ! me))) = NUM_TLB"
  shows "\<exists>s'. thread_yield me s = Inr s' \<and> c_curthread (allcpus s' ! me) = Some u \<and> (\<forall>va. tlb_lookup (c_tlb (allcpus s' ! me)) va = None)"
proof -
  obtain zs where zs: "L (zombq me) = Some zs" using queue_exists(2) [OF assms(1,2)] by blast
  obtain t tx where t: "c_curthread (allcpus s ! me) = Some t" "thr s t = Some tx" "t_cpu tx = Some me"
    by (rule current_thread [OF assms(1,2)]) blast
  have l: "leaves_to me S_READY None tx (runq me)" using t(3) by (simp add: leaves_to_def)
  have q: "(L(runq me \<mapsto> (u # us) @ [t])) (runq me) = Some (u # us @ [t])" "(L(runq me \<mapsto> (u # us) @ [t])) (zombq me) = Some zs"
    using zs by simp_all
  obtain s' where "thread_switch me S_READY None s = Inr s'" "c_curthread (allcpus s' ! me) = Some u"
      "\<forall>y. thr s u = Some y \<and> t_addrspace y \<noteq> 0 \<longrightarrow> c_tlb (allcpus s' ! me) = as_activate (c_tlb (allcpus s ! me))"
    using thread_switch_spec [OF assms(1-3) t(1,2) l assms(4)] q by blast
  then show ?thesis using assms(5-7) as_activate_misses by (auto simp: thread_yield_def)
qed

theorem switch_flushes_tlb_witness:
  "\<exists>s s' u. thread_yield 0 s = Inr s' \<and> c_curthread (allcpus s' ! 0) = Some u \<and> c_curthread (allcpus s ! 0) \<noteq> Some u
    \<and> (\<forall>va. tlb_lookup (c_tlb (allcpus s' ! 0)) va = None)"
proof (rule demo_state)
  fix s :: tsys and t u y v w tx ux vx
  assume ok: "sys_ok {} (demo_lists u y v w) s" and d: "distinct [t, u, y, v]" and s: "length (allcpus s) = 2" "\<not> c_isidle (allcpus s ! 0)"
    "c_curthread (allcpus s ! 0) = Some t" "thr s u = Some ux" "t_addrspace ux \<noteq> 0" "length (tlb (c_tlb (allcpus s ! 0))) = NUM_TLB"
  have "0 < length (allcpus s)" using s(1) by simp
  from switch_flushes_tlb [OF ok this s(2) demo_queues(1) s(4-6)] d s(3) show ?thesis by fastforce
qed



text \<open>
  C18: Forking either changes nothing the scheduler sees and reports \<open>ENOMEM\<close>, or adds exactly one
  thread, new, which is last on the run queue of the forking CPU. In both cases the current thread
  keeps running, and no memory of other threads is touched.
\<close>

theorem thread_fork_correct:
  assumes "sys_ok {} L s" "me < length (allcpus s)" "\<not> c_isidle (allcpus s ! me)" "c_curthread (allcpus s ! me) = Some t" "thr s t = Some x"
    "t_cwd x = 0 \<or> vnodes s (t_cwd x) \<noteq> None" "length name < 2047" "card (dom (thr s)) + 1 < 2 ^ 32" "L (runq me) = Some qs"
  shows "\<exists>s'. (thread_fork me name s = Inr (ENOMEM, None, s') \<and> sys_ok {} L s' \<and> thr s' = thr s
      \<or> (\<exists>r. thread_fork me name s = Inr (0, Some r, s') \<and> r \<notin> dom (thr s) \<and> sys_ok {} (L(runq me \<mapsto> qs @ [r])) s'
        \<and> dom (thr s') = insert r (dom (thr s))))
    \<and> allcpus s' = allcpus s \<and> wchans s' = wchans s"
  using thread_fork_spec [OF assms] by blast

theorem thread_fork_correct_witness:
  "\<exists>s s' e r L. sys_ok {} L s \<and> c_curthread (allcpus s ! 0) \<noteq> None \<and> thread_fork 0 ''child'' s = Inr (e, r, s') \<and> allcpus s' = allcpus s"
proof (rule demo_state)
  fix s :: tsys and t u y v w tx ux vx
  assume ok: "sys_ok {} (demo_lists u y v w) s" and s: "length (allcpus s) = 2" "\<not> c_isidle (allcpus s ! 0)"
    "c_curthread (allcpus s ! 0) = Some t" "thr s t = Some tx" "t_cwd tx = 0" "dom (thr s) = {t, u, y, v}" "distinct [t, u, y, v]"
  have a: "0 < length (allcpus s)" "t_cwd tx = 0 \<or> vnodes s (t_cwd tx) \<noteq> None" "length ''child'' < 2047" "card (dom (thr s)) + 1 < 2 ^ 32"
    using s by simp_all
  from thread_fork_correct [OF ok a(1) s(2-4) a(2-4) demo_queues(1)] show ?thesis using ok s(3) by (metis option.distinct(1))
qed

end
