(* ===== verification/Spec2Isabelle.thy ===== *)
theory Spec2Isabelle
  imports VmProps DivRem Bitmap ThreadSys
begin

text \<open>
  A verification of the memory system of the OS/161 kernel in this repository.
\<close>

end
